(* ===== verification/Prelude.thy ===== *)
theory Prelude
  imports Main "HOL-Library.Word" "HOL-Library.Multiset" "HOL-Library.Monad_Syntax"
    "HOL-Library.List_Lexorder" "HOL-Library.Char_ord"
begin

text \<open>
  Shared vocabulary of the development: the fixed-width types of the program, its checked
  and saturating integer operations, the descending stable sort the search layer ranks
  quotes with, hash maps of hash sets, and the generic list lemmas the components use.

  A \<^verbatim>\<open>HashMap\<close> is a partial map, a \<^verbatim>\<open>HashSet\<close> a set, a \<^verbatim>\<open>Vec\<close> a list. A panic of the source
  (an \<^verbatim>\<open>expect\<close> on an exhausted counter) is the value \<open>None\<close> of an option-valued operation.
\<close>

named_theorems graph_simps \<open>rewrite rules for the token graph\<close>
named_theorems route_simps \<open>rewrite rules for route enumeration\<close>
named_theorems stream_simps \<open>rewrite rules for the streaming state\<close>

section \<open>Fixed-width types\<close>

text \<open>
  \<^verbatim>\<open>alloy_primitives::Address\<close> is a 160-bit value whose byte-wise order is the unsigned
  order; \<^verbatim>\<open>U256\<close> is a 256-bit value whose arithmetic wraps.
\<close>

type_synonym address = "160 word"
type_synonym u256 = "256 word"
type_synonym u64 = "64 word"

text \<open>\<^verbatim>\<open>usize\<close> is 64 bits wide; counters are kept as naturals and the saturating operations
  the source spells out are written with that bound.\<close>

definition usize_max :: nat where
  "usize_max = 2 ^ 64 - 1"

definition saturating_add :: "nat \<Rightarrow> nat \<Rightarrow> nat" where
  "saturating_add a b = min (a + b) usize_max"

definition saturating_mul :: "nat \<Rightarrow> nat \<Rightarrow> nat" where
  "saturating_mul a b = min (a * b) usize_max"

definition saturating_sub :: "nat \<Rightarrow> nat \<Rightarrow> nat" where
  "saturating_sub a b = a - b"

text \<open>\<^verbatim>\<open>u64::checked_add(1)\<close>.\<close>

definition checked_succ :: "u64 \<Rightarrow> u64 option" where
  "checked_succ x = (if x = - 1 then None else Some (x + 1))"

lemma checked_succ_Some:
  "checked_succ x = Some y \<Longrightarrow> unat y = Suc (unat x)"
proof -
  assume a: "checked_succ x = Some y"
  then have "x \<noteq> - 1" and y: "y = 1 + x"
    by (auto simp: checked_succ_def split: if_splits)
  then have "1 + x \<noteq> 0"
    by (metis add.inverse_inverse add_eq_0_iff)
  then show ?thesis by (simp add: y unatSuc)
qed

lemma checked_succ_gt: "checked_succ x = Some y \<Longrightarrow> x < y"
  by (simp add: word_less_nat_alt checked_succ_Some)

section \<open>Descending stable sort\<close>

text \<open>\<^verbatim>\<open>sort_by_key(|x| Reverse(key(x)))\<close>: Rust's slice sort is stable, as is \<open>sort_key\<close>.\<close>

definition sort_desc :: "('a \<Rightarrow> u256) \<Rightarrow> 'a list \<Rightarrow> 'a list" where
  "sort_desc key xs = sort_key (\<lambda>x. - uint (key x)) xs"

lemma set_sort_desc [simp]: "set (sort_desc key xs) = set xs"
  by (simp add: sort_desc_def)

lemma mset_sort_desc [simp]: "mset (sort_desc key xs) = mset xs"
  by (simp add: sort_desc_def)

lemma length_sort_desc [simp]: "length (sort_desc key xs) = length xs"
  by (simp add: sort_desc_def)

lemma distinct_sort_desc [simp]: "distinct (sort_desc key xs) = distinct xs"
  by (simp add: sort_desc_def)

lemma sort_desc_Nil_iff [simp]: "sort_desc key xs = [] \<longleftrightarrow> xs = []"
  by (metis length_0_conv length_sort_desc)

definition descending :: "('a \<Rightarrow> u256) \<Rightarrow> 'a list \<Rightarrow> bool" where
  "descending key xs = sorted_wrt (\<lambda>x y. key y \<le> key x) xs"

lemma descending_sort_desc [simp]: "descending key (sort_desc key xs)"
proof -
  have "sorted (map (\<lambda>x. - uint (key x)) (sort_desc key xs))"
    by (simp add: sort_desc_def)
  then show ?thesis
    by (simp add: descending_def sorted_map word_le_def)
qed

lemma descending_take: "descending key xs \<Longrightarrow> descending key (take n xs)"
  by (simp add: descending_def sorted_wrt_take)

lemma descending_hd:
  "descending key xs \<Longrightarrow> x \<in> set xs \<Longrightarrow> key x \<le> key (hd xs)"
  by (cases xs) (auto simp: descending_def)

lemma sort_desc_hd_max:
  "x \<in> set xs \<Longrightarrow> key x \<le> key (hd (sort_desc key xs))"
  by (rule descending_hd) simp_all

text \<open>Stability: elements with equal keys keep their order.\<close>

lemma sort_desc_stable:
  "filter (\<lambda>x. key x = k) (sort_desc key xs) = filter (\<lambda>x. key x = k) xs"
proof -
  have "filter (\<lambda>x. - uint (key x) = - uint k) (sort_desc key xs)
      = filter (\<lambda>x. - uint (key x) = - uint k) xs"
    unfolding sort_desc_def by (rule sort_key_stable)
  moreover have "(- uint (key x) = - uint k) = (key x = k)" for x
    by (metis neg_equal_iff_equal word_uint_eqI)
  ultimately show ?thesis by (simp only:)
qed

section \<open>Hash maps of hash sets\<close>

text \<open>\<^verbatim>\<open>map.entry(k).or_default().insert(v)\<close> on a map of sets, and the removal that drops an
  emptied set.\<close>

definition multi_insert :: "('k \<rightharpoonup> 'v set) \<Rightarrow> 'k \<Rightarrow> 'v \<Rightarrow> ('k \<rightharpoonup> 'v set)" where
  "multi_insert m k v = m(k \<mapsto> insert v (case m k of None \<Rightarrow> {} | Some s \<Rightarrow> s))"

definition multi_remove :: "('k \<rightharpoonup> 'v set) \<Rightarrow> 'k \<Rightarrow> 'v \<Rightarrow> ('k \<rightharpoonup> 'v set)" where
  "multi_remove m k v =
     (case m k of
        None \<Rightarrow> m
      | Some s \<Rightarrow> (if s - {v} = {} then m(k := None) else m(k \<mapsto> s - {v})))"

definition multi_get :: "('k \<rightharpoonup> 'v set) \<Rightarrow> 'k \<Rightarrow> 'v set" where
  "multi_get m k = (case m k of None \<Rightarrow> {} | Some s \<Rightarrow> s)"

text \<open>No key is bound to the empty set.\<close>

definition multi_tight :: "('k \<rightharpoonup> 'v set) \<Rightarrow> bool" where
  "multi_tight m = (\<forall>k. m k \<noteq> Some {})"

lemma multi_get_empty [simp]: "multi_get Map.empty k = {}"
  by (simp add: multi_get_def)

lemma multi_get_insert [simp]:
  "multi_get (multi_insert m k v) k' = (if k' = k then insert v (multi_get m k) else multi_get m k')"
  by (simp add: multi_get_def multi_insert_def split: option.splits)

lemma multi_get_remove [simp]:
  "multi_get (multi_remove m k v) k' = (if k' = k then multi_get m k - {v} else multi_get m k')"
  by (auto simp: multi_get_def multi_remove_def split: option.splits)

lemma multi_tight_empty [simp]: "multi_tight Map.empty"
  by (simp add: multi_tight_def)

lemma multi_tight_insert [simp]: "multi_tight m \<Longrightarrow> multi_tight (multi_insert m k v)"
  by (auto simp: multi_tight_def multi_insert_def split: option.splits)

lemma multi_tight_remove [simp]: "multi_tight m \<Longrightarrow> multi_tight (multi_remove m k v)"
  by (auto simp: multi_tight_def multi_remove_def split: option.splits)

lemma multi_tight_lookup:
  "multi_tight m \<Longrightarrow> m k = (if multi_get m k = {} then None else Some (multi_get m k))"
  by (auto simp: multi_tight_def multi_get_def split: option.splits)

lemma multi_get_fold_insert:
  "multi_get (fold (\<lambda>k m. multi_insert m k v) ks m) k' =
     (if k' \<in> set ks then insert v (multi_get m k') else multi_get m k')"
  by (induction ks arbitrary: m) auto

lemma multi_get_fold_remove:
  "multi_get (fold (\<lambda>k m. multi_remove m k v) ks m) k' =
     (if k' \<in> set ks then multi_get m k' - {v} else multi_get m k')"
  by (induction ks arbitrary: m) auto

lemma multi_tight_fold_insert:
  "multi_tight m \<Longrightarrow> multi_tight (fold (\<lambda>k m. multi_insert m k v) ks m)"
  by (induction ks arbitrary: m) auto

lemma multi_tight_fold_remove:
  "multi_tight m \<Longrightarrow> multi_tight (fold (\<lambda>k m. multi_remove m k v) ks m)"
  by (induction ks arbitrary: m) auto

section \<open>Lists\<close>

lemma fold_invariant_list:
  assumes "P s" and "\<And>x s. x \<in> set xs \<Longrightarrow> P s \<Longrightarrow> P (f x s)"
  shows "P (fold f xs s)"
  using assms by (induction xs arbitrary: s) auto

lemma sorted_strict_distinct:
  fixes xs :: "'a::linorder list"
  shows "sorted_wrt (<) xs \<longleftrightarrow> sorted xs \<and> distinct xs"
  by (simp add: strict_sorted_iff)


end
