(* ===== verification/Registry.thy ===== *)
theory Registry
  imports Prelude
begin

text \<open>
  What the repository sees of \<^verbatim>\<open>evm_amm_state::adapters\<close>, the crate that owns pools,
  protocol adapters and chain state. The crate is not part of the repository, so its pool
  keys are a type variable \<open>'p\<close>, and its registry is a record of the operations the search
  layer calls. The enumerations below list the variants the sources name; the \<open>Other\<close>
  constructors stand for the rest of those non-exhaustive enums.
\<close>

datatype pool_status =
    Pending
  | Ready
  | Degraded
  | Unsupported
  | Disabled
  | OtherStatus nat

text \<open>Metadata of the two-token protocols: token addresses and fee, each possibly absent.\<close>

record pair_metadata =
  token0 :: "address option"
  token1 :: "address option"
  pair_fee :: "nat option"

datatype protocol_metadata =
    MetaUniswapV2 pair_metadata
  | MetaUniswapV3 pair_metadata
  | MetaPancakeV3 pair_metadata
  | MetaSlipstream pair_metadata
  | MetaSolidlyV2 pair_metadata
  | MetaBalancerV2 "address list"
  | MetaCurve "address list"
  | MetaUnknown
  | MetaCustom nat
  | MetaOther nat

text \<open>Protocol families, as named by the heuristic's protocol ordering.\<close>

datatype protocol_id =
    UniswapV2
  | UniswapV3
  | PancakeV3
  | Slipstream
  | SolidlyV2
  | BalancerV2
  | BalancerV3
  | Curve
  | Erc4626
  | UniswapV4
  | CustomProtocol nat
  | OtherProtocol nat

record 'p pool_registration =
  reg_key :: 'p
  reg_status :: pool_status
  reg_metadata :: protocol_metadata

end
