(* ===== verification/SearchConfig.thy ===== *)
theory SearchConfig
  imports Registry
begin

text \<open>
  Search controls of \<^verbatim>\<open>src/search.rs\<close> and \<^verbatim>\<open>src/liquidity.rs\<close>: the configuration structs with
  their presets, builder methods and validation, and the request, path and quote types.
  A validation returns \<open>Inl\<close> of the first violated rule, in the order of the source.
\<close>

section \<open>Paths, quotes and errors\<close>

record 'p hop =
  hop_pool :: 'p
  hop_in :: address
  hop_out :: address

text \<open>\<^verbatim>\<open>RoutePath\<close> wraps the vector of hops.\<close>

type_synonym 'p route_path = "'p hop list"

record 'p hop_quote =
  hq_hop :: "'p hop"
  hq_amount_in :: u256
  hq_amount_out :: u256

record 'p route_quote =
  rq_path :: "'p route_path"
  rq_amount_in :: u256
  rq_amount_out :: u256
  rq_hops :: "'p hop_quote list"

record 'p cycle_quote =
  cq_route :: "'p route_quote"
  cq_profit :: "u256 option"

definition is_profitable :: "'p cycle_quote \<Rightarrow> bool" where
  "is_profitable c \<longleftrightarrow> cq_profit c \<noteq> None"

record 'p path_failure =
  pf_path :: "'p route_path"
  pf_reason :: string

text \<open>\<open>'e\<close> is the adapters' simulation error.\<close>

datatype ('p, 'e) search_error =
    InvalidConfig string
  | TokenNotFound address
  | NoPath address address
  | EmptyPath
  | MissingPool 'p
  | MissingAdapter protocol_id
  | MissingPoolRevision 'p
  | SnapshotGraphMismatch
  | SnapshotRequired
  | QuoteFailed "'p hop" 'e
  | NoViableRoute nat "'p path_failure list"
  | WorkerPanic

definition ensure :: "bool \<Rightarrow> string \<Rightarrow> ('p, 'e) search_error + unit" where
  "ensure ok reason = (if ok then Inr () else Inl (InvalidConfig reason))"

text \<open>The \<^verbatim>\<open>?\<close> operator on results.\<close>

definition and_then :: "'e + 'a \<Rightarrow> ('a \<Rightarrow> 'e + 'b) \<Rightarrow> 'e + 'b" where
  "and_then r f = (case r of Inl e \<Rightarrow> Inl e | Inr x \<Rightarrow> f x)"

lemma and_then_simps [simp]: "and_then (Inl e) f = Inl e" "and_then (Inr x) f = f x"
  by (simp_all add: and_then_def)

lemma ensure_simps [simp]: "ensure True r = Inr ()" "ensure False r = Inl (InvalidConfig r)"
  by (simp_all add: ensure_def)

lemma and_then_ensure_ok [simp]: "and_then (ensure c r) f = Inr y \<longleftrightarrow> c \<and> f () = Inr y"
  by (cases c) simp_all

lemma ensure_ok [simp]: "ensure c r = Inr u \<longleftrightarrow> c"
  by (cases c) simp_all

section \<open>Heuristic controls\<close>

record fast_lane_config =
  fl_enabled :: bool
  fl_max_connectors :: nat
  fl_direct_edges :: nat
  fl_connector_edges :: nat
  fl_direct_first :: bool

definition fast_lane_enabled :: fast_lane_config where
  "fast_lane_enabled = \<lparr>fl_enabled = True, fl_max_connectors = 8, fl_direct_edges = 1,
     fl_connector_edges = 1, fl_direct_first = True\<rparr>"

definition fast_lane_disabled :: fast_lane_config where
  "fast_lane_disabled = \<lparr>fl_enabled = False, fl_max_connectors = 8, fl_direct_edges = 1,
     fl_connector_edges = 1, fl_direct_first = True\<rparr>"

definition validate_fast_lane :: "fast_lane_config \<Rightarrow> ('p, 'e) search_error + unit" where
  "validate_fast_lane c =
     and_then (ensure (\<not> (fl_enabled c \<and> fl_direct_edges c = 0))
       ''fast_lane.direct_edges_per_pair must be at least 1'') (\<lambda>_.
     ensure (\<not> (fl_enabled c \<and> fl_connector_edges c = 0))
       ''fast_lane.connector_edges_per_pair must be at least 1'')"

record edge_shortlist_config =
  sl_enabled :: bool
  sl_initial_edges :: nat
  sl_refinement_edges :: nat
  sl_refine :: bool
  sl_protocol_ordering :: bool

definition shortlist_disabled :: edge_shortlist_config where
  "shortlist_disabled = \<lparr>sl_enabled = False, sl_initial_edges = 1, sl_refinement_edges = 3,
     sl_refine = False, sl_protocol_ordering = False\<rparr>"

definition shortlist_ordering_only :: edge_shortlist_config where
  "shortlist_ordering_only = \<lparr>sl_enabled = False, sl_initial_edges = 1, sl_refinement_edges = 3,
     sl_refine = False, sl_protocol_ordering = True\<rparr>"

definition shortlist_enabled :: edge_shortlist_config where
  "shortlist_enabled = \<lparr>sl_enabled = True, sl_initial_edges = 1, sl_refinement_edges = 3,
     sl_refine = True, sl_protocol_ordering = True\<rparr>"

definition validate_shortlist :: "edge_shortlist_config \<Rightarrow> ('p, 'e) search_error + unit" where
  "validate_shortlist c =
     and_then (ensure (\<not> (sl_enabled c \<and> sl_initial_edges c = 0))
       ''edge_shortlist.initial_edges_per_pair must be at least 1'') (\<lambda>_.
     ensure (\<not> (sl_enabled c \<and> sl_refinement_edges c = 0))
       ''edge_shortlist.refinement_edges_per_pair must be at least 1'')"

record upper_bound_config =
  ub_enabled :: bool
  ub_balance_cap :: bool
  ub_estimated_rate :: bool
  ub_fail_open :: bool

definition upper_bound_disabled :: upper_bound_config where
  "upper_bound_disabled = \<lparr>ub_enabled = False, ub_balance_cap = False,
     ub_estimated_rate = False, ub_fail_open = True\<rparr>"

definition upper_bound_conservative :: upper_bound_config where
  "upper_bound_conservative = \<lparr>ub_enabled = True, ub_balance_cap = True,
     ub_estimated_rate = False, ub_fail_open = True\<rparr>"

record heuristic_config =
  max_auto_connectors :: nat
  min_auto_connector_degree :: nat
  beam_width :: "nat option"
  parallel_edge_limit :: nat
  simulate_finalists :: bool
  max_finalists :: nat
  target_first :: bool
  prefix_dominance :: bool
  fast_lane :: fast_lane_config
  edge_shortlist :: edge_shortlist_config
  upper_bound_pruning :: upper_bound_config

definition heuristic_balanced :: heuristic_config where
  "heuristic_balanced = \<lparr>max_auto_connectors = 8, min_auto_connector_degree = 6,
     beam_width = Some 64, parallel_edge_limit = 1, simulate_finalists = True,
     max_finalists = 16, target_first = True, prefix_dominance = True,
     fast_lane = fast_lane_enabled, edge_shortlist = shortlist_ordering_only,
     upper_bound_pruning = upper_bound_conservative\<rparr>"

definition heuristic_latency_first :: heuristic_config where
  "heuristic_latency_first = \<lparr>max_auto_connectors = 8, min_auto_connector_degree = 6,
     beam_width = Some 64, parallel_edge_limit = 1, simulate_finalists = True,
     max_finalists = 16, target_first = True, prefix_dominance = True,
     fast_lane = fast_lane_enabled, edge_shortlist = shortlist_enabled,
     upper_bound_pruning = upper_bound_conservative\<rparr>"

definition validate_heuristic :: "heuristic_config \<Rightarrow> ('p, 'e) search_error + unit" where
  "validate_heuristic c =
     and_then (ensure (parallel_edge_limit c \<noteq> 0) ''parallel_edge_limit must be at least 1'') (\<lambda>_.
     and_then (ensure (max_finalists c \<noteq> 0) ''max_finalists must be at least 1'') (\<lambda>_.
     and_then (ensure (beam_width c \<noteq> Some 0) ''beam_width must be at least 1'') (\<lambda>_.
     and_then (validate_fast_lane (fast_lane c)) (\<lambda>_.
     validate_shortlist (edge_shortlist c)))))"

section \<open>Search configuration\<close>

datatype search_mode = ModeExhaustive | ModeHeuristic heuristic_config

record liquidity_pruning_config =
  lp_enabled :: bool
  lp_min_parallel_edges :: nat
  lp_order_by_output :: bool
  lp_prune_dominated :: bool
  lp_prune_unknown :: bool
  lp_rank_branches :: bool

definition parallel_edge_threshold :: nat where
  "parallel_edge_threshold = 2"

definition liquidity_disabled :: liquidity_pruning_config where
  "liquidity_disabled = \<lparr>lp_enabled = False, lp_min_parallel_edges = parallel_edge_threshold,
     lp_order_by_output = True, lp_prune_dominated = True, lp_prune_unknown = False,
     lp_rank_branches = False\<rparr>"

definition liquidity_enabled :: liquidity_pruning_config where
  "liquidity_enabled = \<lparr>lp_enabled = True, lp_min_parallel_edges = parallel_edge_threshold,
     lp_order_by_output = True, lp_prune_dominated = True, lp_prune_unknown = False,
     lp_rank_branches = True\<rparr>"

record search_config =
  min_hops :: nat
  max_hops :: nat
  max_candidates :: "nat option"
  connector_tokens :: "address set option"
  search_mode_of :: search_mode
  liquidity_pruning :: liquidity_pruning_config

definition default_config :: search_config where
  "default_config = \<lparr>min_hops = 1, max_hops = 3, max_candidates = None, connector_tokens = None,
     search_mode_of = ModeExhaustive, liquidity_pruning = liquidity_disabled\<rparr>"

definition with_hops :: "nat \<Rightarrow> nat \<Rightarrow> search_config \<Rightarrow> search_config" where
  "with_hops lo hi c = c\<lparr>min_hops := lo, max_hops := hi\<rparr>"

definition with_max_candidates :: "nat \<Rightarrow> search_config \<Rightarrow> search_config" where
  "with_max_candidates n c = c\<lparr>max_candidates := Some n\<rparr>"

definition with_connector_tokens :: "address list \<Rightarrow> search_config \<Rightarrow> search_config" where
  "with_connector_tokens ts c = c\<lparr>connector_tokens := Some (set ts)\<rparr>"

definition with_heuristic :: "search_config \<Rightarrow> search_config" where
  "with_heuristic c = c\<lparr>search_mode_of := ModeHeuristic heuristic_balanced\<rparr>"

definition with_exhaustive :: "search_config \<Rightarrow> search_config" where
  "with_exhaustive c = c\<lparr>search_mode_of := ModeExhaustive\<rparr>"

definition validate_search :: "search_config \<Rightarrow> ('p, 'e) search_error + unit" where
  "validate_search c =
     and_then (ensure (min_hops c \<noteq> 0) ''min_hops must be at least 1'') (\<lambda>_.
     and_then (ensure (min_hops c \<le> max_hops c) ''min_hops cannot exceed max_hops'') (\<lambda>_.
     and_then (ensure (max_candidates c \<noteq> Some 0) ''max_candidates must be at least 1'') (\<lambda>_.
     case search_mode_of c of
       ModeHeuristic h \<Rightarrow> validate_heuristic h
     | ModeExhaustive \<Rightarrow> Inr ())))"

definition heuristic_ok :: "heuristic_config \<Rightarrow> bool" where
  "heuristic_ok h \<longleftrightarrow>
     1 \<le> parallel_edge_limit h \<and> 1 \<le> max_finalists h \<and> beam_width h \<noteq> Some 0 \<and>
     (fl_enabled (fast_lane h) \<longrightarrow> 1 \<le> fl_direct_edges (fast_lane h) \<and> 1 \<le> fl_connector_edges (fast_lane h)) \<and>
     (sl_enabled (edge_shortlist h) \<longrightarrow>
        1 \<le> sl_initial_edges (edge_shortlist h) \<and> 1 \<le> sl_refinement_edges (edge_shortlist h))"

lemma validate_heuristic_ok:
  "(validate_heuristic h :: ('p, 'e) search_error + unit) = Inr () \<longleftrightarrow> heuristic_ok h"
  by (auto simp: validate_heuristic_def validate_fast_lane_def validate_shortlist_def heuristic_ok_def
      and_then_def ensure_def)

definition search_ok :: "search_config \<Rightarrow> bool" where
  "search_ok c \<longleftrightarrow>
     1 \<le> min_hops c \<and> min_hops c \<le> max_hops c \<and> max_candidates c \<noteq> Some 0 \<and>
     (case search_mode_of c of ModeExhaustive \<Rightarrow> True | ModeHeuristic h \<Rightarrow> heuristic_ok h)"

lemma validate_search_ok:
  "(validate_search c :: ('p, 'e) search_error + unit) = Inr () \<longleftrightarrow> search_ok c"
  by (auto simp: validate_search_def search_ok_def validate_heuristic_ok split: search_mode.split)

lemma validate_search_error:
  "validate_search c = Inl err \<Longrightarrow> \<exists>reason. err = InvalidConfig reason"
  by (auto simp: validate_search_def validate_heuristic_def validate_fast_lane_def
      validate_shortlist_def and_then_def ensure_def split: search_mode.splits if_splits)

section \<open>Requests\<close>

text \<open>The fields of the third-party \<^verbatim>\<open>SimConfig\<close> the repository reads; the record is used as a
  scheme, so the adapters may see more.\<close>

record sim_config =
  v3_quoter :: address
  v2_router :: address
  sim_from :: address

record 's route_request =
  req_in :: address
  req_out :: address
  req_amount :: u256
  req_config :: search_config
  req_sim :: "'s sim_config_scheme"

record 's cycle_request =
  cyc_base :: address
  cyc_amount :: u256
  cyc_config :: search_config
  cyc_sim :: "'s sim_config_scheme"

definition new_route_request ::
  "'s sim_config_scheme \<Rightarrow> address \<Rightarrow> address \<Rightarrow> u256 \<Rightarrow> 's route_request" where
  "new_route_request default_sim token_in token_out amount =
     \<lparr>req_in = token_in, req_out = token_out, req_amount = amount,
      req_config = default_config, req_sim = default_sim\<rparr>"

definition new_cycle_request :: "'s sim_config_scheme \<Rightarrow> address \<Rightarrow> u256 \<Rightarrow> 's cycle_request" where
  "new_cycle_request default_sim base amount =
     \<lparr>cyc_base = base, cyc_amount = amount,
      cyc_config = with_hops 2 3 default_config, cyc_sim = default_sim\<rparr>"

end
