(* ===== verification/StableGraph.thy ===== *)
theory StableGraph
  imports Prelude
begin

text \<open>
  The interface of \<^verbatim>\<open>petgraph::stable_graph::StableDiGraph\<close>, the package the token graph
  of \<^verbatim>\<open>src/graph.rs\<close> stores its nodes and edges in. The package is not part of the
  repository: its operations are the fields of a record the graph operations take as an
  argument, and what they rely on is the locale \<open>stable_digraph\<close>, which states the
  documented behaviour of the structure (indices stay valid until their node or edge is
  removed; a fresh index is not in use). The ghost function \<open>ends\<close> is the endpoints of an
  edge index. A slot-vector implementation shows that the laws can hold and lets the
  graph operations be evaluated.
\<close>

datatype 'p edge_data = EdgeData (edge_pool: 'p)

datatype direction = Outgoing | Incoming

record ('g, 'p) stable_graph_ops =
  sg_empty :: 'g
  sg_add_node :: "'g \<Rightarrow> address \<Rightarrow> 'g \<times> nat"
  sg_add_edge :: "'g \<Rightarrow> nat \<Rightarrow> nat \<Rightarrow> 'p edge_data \<Rightarrow> 'g \<times> nat"
  sg_remove_edge :: "'g \<Rightarrow> nat \<Rightarrow> 'g"
  sg_remove_node :: "'g \<Rightarrow> nat \<Rightarrow> 'g"
  sg_node_weight :: "'g \<Rightarrow> nat \<Rightarrow> address option"
  sg_edge_weight :: "'g \<Rightarrow> nat \<Rightarrow> 'p edge_data option"
  sg_edges_directed :: "'g \<Rightarrow> nat \<Rightarrow> direction \<Rightarrow> nat list"
  sg_node_count :: "'g \<Rightarrow> nat"
  sg_edge_count :: "'g \<Rightarrow> nat"
  sg_node_indices :: "'g \<Rightarrow> nat list"

locale stable_digraph =
  fixes G :: "('g, 'p) stable_graph_ops"
    and ends :: "'g \<Rightarrow> nat \<Rightarrow> (nat \<times> nat) option"
  assumes empty_nodes: "sg_node_weight G (sg_empty G) = Map.empty"
    and empty_edges: "sg_edge_weight G (sg_empty G) = Map.empty"
    and ends_live: "(ends g e = None) = (sg_edge_weight G g e = None)"
    and add_node: "sg_add_node G g w = (g', n) \<Longrightarrow>
      sg_node_weight G g n = None \<and>
      sg_node_weight G g' = (sg_node_weight G g)(n \<mapsto> w) \<and>
      sg_edge_weight G g' = sg_edge_weight G g \<and> ends g' = ends g"
    and add_edge: "sg_node_weight G g a \<noteq> None \<Longrightarrow> sg_node_weight G g b \<noteq> None \<Longrightarrow>
      sg_add_edge G g a b d = (g', e) \<Longrightarrow>
      sg_edge_weight G g e = None \<and>
      sg_edge_weight G g' = (sg_edge_weight G g)(e \<mapsto> d) \<and>
      ends g' = (ends g)(e \<mapsto> (a, b)) \<and>
      sg_node_weight G g' = sg_node_weight G g"
    and remove_edge: "sg_edge_weight G (sg_remove_edge G g e) = (sg_edge_weight G g)(e := None) \<and>
      ends (sg_remove_edge G g e) = (ends g)(e := None) \<and>
      sg_node_weight G (sg_remove_edge G g e) = sg_node_weight G g"
    and remove_node: "sg_node_weight G (sg_remove_node G g n) = (sg_node_weight G g)(n := None) \<and>
      sg_edge_weight G (sg_remove_node G g n) =
        (\<lambda>e. if \<exists>m. ends g e = Some (n, m) \<or> ends g e = Some (m, n) then None
             else sg_edge_weight G g e) \<and>
      ends (sg_remove_node G g n) =
        (\<lambda>e. if \<exists>m. ends g e = Some (n, m) \<or> ends g e = Some (m, n) then None else ends g e)"
    and edges_out: "set (sg_edges_directed G g n Outgoing) = {e. \<exists>m. ends g e = Some (n, m)}"
    and edges_in: "set (sg_edges_directed G g n Incoming) = {e. \<exists>m. ends g e = Some (m, n)}"
    and node_count: "sg_node_count G g = card (dom (sg_node_weight G g))"
    and edge_count: "sg_edge_count G g = card (dom (sg_edge_weight G g))"
    and node_indices: "set (sg_node_indices G g) = dom (sg_node_weight G g)"
begin

lemma ends_None: "sg_edge_weight G g e = None \<Longrightarrow> ends g e = None"
  by (simp add: ends_live)

lemma ends_Some: "sg_edge_weight G g e = Some d \<Longrightarrow> \<exists>a b. ends g e = Some (a, b)"
  using ends_live [of g e] by (cases "ends g e") auto

lemma no_incident_edges:
  "sg_edges_directed G g n Outgoing = [] \<and> sg_edges_directed G g n Incoming = [] \<longleftrightarrow>
     (\<forall>e m. ends g e \<noteq> Some (n, m) \<and> ends g e \<noteq> Some (m, n))"
  using edges_out [of g n] edges_in [of g n] by (auto simp: set_empty [symmetric] simp del: set_empty)

lemma remove_isolated_node:
  assumes "sg_edges_directed G g n Outgoing = []" and "sg_edges_directed G g n Incoming = []"
  shows "sg_edge_weight G (sg_remove_node G g n) = sg_edge_weight G g"
    and "ends (sg_remove_node G g n) = ends g"
  using assms no_incident_edges [of g n] by (auto simp: remove_node)

text \<open>Removing a list of edges removes exactly those edges.\<close>

lemma remove_edges:
  "sg_edge_weight G (fold (\<lambda>e g. sg_remove_edge G g e) es g) =
     (\<lambda>e. if e \<in> set es then None else sg_edge_weight G g e)"
  "ends (fold (\<lambda>e g. sg_remove_edge G g e) es g) = (\<lambda>e. if e \<in> set es then None else ends g e)"
  "sg_node_weight G (fold (\<lambda>e g. sg_remove_edge G g e) es g) = sg_node_weight G g"
  by (induction es arbitrary: g) (auto simp: remove_edge)

end

section \<open>A slot-vector implementation\<close>

record 'p slot_graph =
  node_slots :: "address option list"
  edge_slots :: "(nat \<times> nat \<times> 'p edge_data) option list"

definition slot_get :: "'a option list \<Rightarrow> nat \<Rightarrow> 'a option" where
  "slot_get xs i = (if i < length xs then xs ! i else None)"

fun first_free :: "'a option list \<Rightarrow> nat" where
  "first_free [] = 0"
| "first_free (None # xs) = 0"
| "first_free (Some x # xs) = Suc (first_free xs)"

definition slot_put :: "'a option list \<Rightarrow> nat \<Rightarrow> 'a \<Rightarrow> 'a option list" where
  "slot_put xs i x = (if i < length xs then xs[i := Some x] else xs @ [Some x])"

definition slot_clear :: "'a option list \<Rightarrow> nat \<Rightarrow> 'a option list" where
  "slot_clear xs i = xs[i := None]"

definition slot_edges_of :: "'p slot_graph \<Rightarrow> nat \<Rightarrow> direction \<Rightarrow> nat list" where
  "slot_edges_of g n d =
     filter (\<lambda>e. case slot_get (edge_slots g) e of
                   None \<Rightarrow> False
                 | Some (a, b, _) \<Rightarrow> (case d of Outgoing \<Rightarrow> a = n | Incoming \<Rightarrow> b = n))
       [0..<length (edge_slots g)]"

definition slot_remove_node :: "'p slot_graph \<Rightarrow> nat \<Rightarrow> 'p slot_graph" where
  "slot_remove_node g n =
     \<lparr>node_slots = slot_clear (node_slots g) n,
      edge_slots = map (\<lambda>s. case s of
          None \<Rightarrow> None
        | Some (a, b, d) \<Rightarrow> (if a = n \<or> b = n then None else Some (a, b, d))) (edge_slots g)\<rparr>"

definition slot_graph_ops :: "('p slot_graph, 'p) stable_graph_ops" where
  "slot_graph_ops =
     \<lparr>sg_empty = \<lparr>node_slots = [], edge_slots = []\<rparr>,
      sg_add_node = (\<lambda>g w. let n = first_free (node_slots g)
                            in (g\<lparr>node_slots := slot_put (node_slots g) n w\<rparr>, n)),
      sg_add_edge = (\<lambda>g a b d. let e = first_free (edge_slots g)
                                in (g\<lparr>edge_slots := slot_put (edge_slots g) e (a, b, d)\<rparr>, e)),
      sg_remove_edge = (\<lambda>g e. g\<lparr>edge_slots := slot_clear (edge_slots g) e\<rparr>),
      sg_remove_node = slot_remove_node,
      sg_node_weight = (\<lambda>g n. slot_get (node_slots g) n),
      sg_edge_weight = (\<lambda>g e. map_option (\<lambda>(a, b, d). d) (slot_get (edge_slots g) e)),
      sg_edges_directed = slot_edges_of,
      sg_node_count = (\<lambda>g. length (filter (\<lambda>s. s \<noteq> None) (node_slots g))),
      sg_edge_count = (\<lambda>g. length (filter (\<lambda>s. s \<noteq> None) (edge_slots g))),
      sg_node_indices = (\<lambda>g. filter (\<lambda>n. slot_get (node_slots g) n \<noteq> None) [0..<length (node_slots g)])\<rparr>"

definition slot_ends :: "'p slot_graph \<Rightarrow> nat \<Rightarrow> (nat \<times> nat) option" where
  "slot_ends g e = map_option (\<lambda>(a, b, d). (a, b)) (slot_get (edge_slots g) e)"

lemma first_free_free: "slot_get xs (first_free xs) = None"
  by (induction xs rule: first_free.induct) (auto simp: slot_get_def)

lemma first_free_le: "first_free xs \<le> length xs"
  by (induction xs rule: first_free.induct) auto

lemma slot_get_put: "i \<le> length xs \<Longrightarrow> slot_get (slot_put xs i x) = (slot_get xs)(i \<mapsto> x)"
  by (auto simp: fun_eq_iff slot_get_def slot_put_def nth_append)

lemma slot_get_clear: "slot_get (slot_clear xs i) = (slot_get xs)(i := None)"
  by (auto simp: fun_eq_iff slot_get_def slot_clear_def nth_list_update)

lemma slot_get_map:
  "(\<And>x. f None = None) \<Longrightarrow> slot_get (map f xs) i = f (slot_get xs i)"
  by (simp add: slot_get_def)

lemma slot_count: "length (filter (\<lambda>s. s \<noteq> None) xs) = card (dom (slot_get xs))"
proof -
  have "dom (slot_get xs) = {i. i < length xs \<and> xs ! i \<noteq> None}"
    by (auto simp: slot_get_def dom_def)
  then show ?thesis by (simp add: length_filter_conv_card)
qed

lemma slot_edges_directed:
  "set (slot_edges_of g n Outgoing) = {e. \<exists>m. slot_ends g e = Some (n, m)}"
  "set (slot_edges_of g n Incoming) = {e. \<exists>m. slot_ends g e = Some (m, n)}"
  by (auto simp: slot_edges_of_def slot_ends_def slot_get_def split: option.splits if_splits)

interpretation slots: stable_digraph slot_graph_ops slot_ends
proof unfold_locales
  fix g :: "'p slot_graph" and n :: nat
  show "sg_node_weight slot_graph_ops (sg_remove_node slot_graph_ops g n) =
      (sg_node_weight slot_graph_ops g)(n := None) \<and>
      sg_edge_weight slot_graph_ops (sg_remove_node slot_graph_ops g n) =
        (\<lambda>e. if \<exists>m. slot_ends g e = Some (n, m) \<or> slot_ends g e = Some (m, n) then None
             else sg_edge_weight slot_graph_ops g e) \<and>
      slot_ends (sg_remove_node slot_graph_ops g n) =
        (\<lambda>e. if \<exists>m. slot_ends g e = Some (n, m) \<or> slot_ends g e = Some (m, n) then None
             else slot_ends g e)"
    by (auto simp: slot_graph_ops_def slot_remove_node_def slot_ends_def slot_get_clear
        slot_get_map fun_eq_iff split: option.splits)
next
  fix g g' :: "'p slot_graph" and a b e d
  assume "sg_add_edge slot_graph_ops g a b d = (g', e)"
  then have "e = first_free (edge_slots g)"
    and "g' = g\<lparr>edge_slots := slot_put (edge_slots g) e (a, b, d)\<rparr>"
    by (auto simp: slot_graph_ops_def Let_def)
  then show "sg_edge_weight slot_graph_ops g e = None \<and>
      sg_edge_weight slot_graph_ops g' = (sg_edge_weight slot_graph_ops g)(e \<mapsto> d) \<and>
      slot_ends g' = (slot_ends g)(e \<mapsto> (a, b)) \<and>
      sg_node_weight slot_graph_ops g' = sg_node_weight slot_graph_ops g"
    by (auto simp: slot_graph_ops_def slot_ends_def slot_get_put first_free_le first_free_free
        fun_eq_iff)
next
  fix g g' :: "'p slot_graph" and w n
  assume "sg_add_node slot_graph_ops g w = (g', n)"
  then have "n = first_free (node_slots g)"
    and "g' = g\<lparr>node_slots := slot_put (node_slots g) n w\<rparr>"
    by (auto simp: slot_graph_ops_def Let_def)
  then show "sg_node_weight slot_graph_ops g n = None \<and>
      sg_node_weight slot_graph_ops g' = (sg_node_weight slot_graph_ops g)(n \<mapsto> w) \<and>
      sg_edge_weight slot_graph_ops g' = sg_edge_weight slot_graph_ops g \<and> slot_ends g' = slot_ends g"
    by (auto simp: slot_graph_ops_def slot_ends_def slot_get_put first_free_le first_free_free
        fun_eq_iff)
next
  fix g :: "'p slot_graph" and e
  show "sg_edge_weight slot_graph_ops (sg_remove_edge slot_graph_ops g e) =
        (sg_edge_weight slot_graph_ops g)(e := None) \<and>
      slot_ends (sg_remove_edge slot_graph_ops g e) = (slot_ends g)(e := None) \<and>
      sg_node_weight slot_graph_ops (sg_remove_edge slot_graph_ops g e) =
        sg_node_weight slot_graph_ops g"
    by (auto simp: slot_graph_ops_def slot_ends_def slot_get_clear fun_eq_iff)
next
  fix g :: "'p slot_graph"
  show "sg_node_count slot_graph_ops g = card (dom (sg_node_weight slot_graph_ops g))"
    by (simp add: slot_graph_ops_def slot_count del: not_None_eq)
  have "dom (sg_edge_weight slot_graph_ops g) = dom (slot_get (edge_slots g))"
    by (auto simp: slot_graph_ops_def)
  then show "sg_edge_count slot_graph_ops g = card (dom (sg_edge_weight slot_graph_ops g))"
    by (simp add: slot_graph_ops_def slot_count del: not_None_eq)
  show "set (sg_node_indices slot_graph_ops g) = dom (sg_node_weight slot_graph_ops g)"
    by (auto simp: slot_graph_ops_def slot_get_def split: if_splits)
qed (simp_all add: slot_graph_ops_def slot_ends_def slot_edges_directed slot_get_def)

end
