(* ===== verification/AmmGraph.thy ===== *)
theory AmmGraph
  imports StableGraph Registry
begin

text \<open>
  The token graph of \<^verbatim>\<open>src/graph.rs\<close>: tokens are nodes, every directed token pair of a pool
  is an edge. \<open>amm_graph\<close> is the \<^verbatim>\<open>AmmGraph\<close> struct with its five indices; every operation
  of the file is one definition, parameterised by the operations \<open>G\<close> of the underlying
  stable graph. Operations that advance the topology version return \<open>None\<close> where the source
  panics (\<^verbatim>\<open>AMM graph version exhausted\<close>).

  The representation invariant \<open>graph_inv\<close> says that all indices describe one and the same
  thing, the map \<open>pool_tokens\<close> from pools to their token lists; every operation keeps it and
  has a simple effect on that map.
\<close>

section \<open>Versions\<close>

record graph_version =
  lineage :: u64
  revision :: u64

text \<open>The process-wide lineage counter \<^verbatim>\<open>NEXT_GRAPH_LINEAGE\<close> is passed in and out;
  \<open>None\<close> is the panic \<^verbatim>\<open>AMM graph lineage exhausted\<close>.\<close>

definition initial_version :: "u64 \<Rightarrow> (graph_version \<times> u64) option" where
  "initial_version counter =
     do {
       next_counter \<leftarrow> checked_succ counter;
       Some (\<lparr>lineage = counter, revision = 0\<rparr>, next_counter)
     }"

definition checked_next :: "graph_version \<Rightarrow> graph_version option" where
  "checked_next v =
     (case checked_succ (revision v) of
        Some r \<Rightarrow> Some \<lparr>lineage = lineage v, revision = r\<rparr>
      | None \<Rightarrow> None)"

section \<open>Data\<close>

datatype skipped_pool_reason =
    SkipStatus pool_status
  | MissingMetadata string
  | UnsupportedMetadata
  | TooFewTokens nat

datatype graph_pool_mutation =
    Unchanged
  | Added nat
  | Updated nat nat
  | Removed nat
  | Skipped skipped_pool_reason

fun topology_changed :: "graph_pool_mutation \<Rightarrow> bool" where
  "topology_changed (Added _) = True"
| "topology_changed (Updated _ _) = True"
| "topology_changed (Removed _) = True"
| "topology_changed _ = False"

record 'p cached_outgoing_edge =
  edge_target :: nat
  edge_token_in :: address
  edge_token_out :: address
  cached_pool :: 'p

record graph_build_options =
  include_degraded :: bool

record 'p skipped_pool =
  skipped_key :: 'p
  skipped_reason :: skipped_pool_reason

record ('g, 'p) amm_graph =
  graph :: 'g
  node_map :: "address \<rightharpoonup> nat"
  edge_map :: "'p \<rightharpoonup> nat list"
  pool_tokens :: "'p \<rightharpoonup> address list"
  pair_pools :: "(address \<times> address) \<rightharpoonup> 'p set"
  outgoing_map :: "nat \<rightharpoonup> 'p cached_outgoing_edge list"
  version :: graph_version

record 'p graph_build_summary =
  indexed_pools :: "'p list"
  skipped_pools :: "'p skipped_pool list"

section \<open>Token extraction\<close>

definition is_indexable_status :: "pool_status \<Rightarrow> graph_build_options \<Rightarrow> bool" where
  "is_indexable_status status options \<longleftrightarrow>
     status = Ready \<or> (include_degraded options \<and> status = Degraded)"

definition pair_tokens ::
  "address option \<Rightarrow> address option \<Rightarrow> string \<Rightarrow> skipped_pool_reason + address list" where
  "pair_tokens t0 t1 field =
     (case (t0, t1) of
        (Some a, Some b) \<Rightarrow> Inr [a, b]
      | _ \<Rightarrow> Inl (MissingMetadata field))"

text \<open>Sort by bytes, drop consecutive duplicates, require two tokens.\<close>

definition normalize_tokens :: "address list \<Rightarrow> skipped_pool_reason + address list" where
  "normalize_tokens tokens =
     (let sorted = remdups_adj (sort tokens)
      in if length sorted < 2 then Inl (TooFewTokens (length sorted)) else Inr sorted)"

fun metadata_tokens :: "protocol_metadata \<Rightarrow> skipped_pool_reason + address list" where
  "metadata_tokens (MetaUniswapV2 m) = pair_tokens (token0 m) (token1 m) ''Uniswap V2 token0/token1''"
| "metadata_tokens (MetaUniswapV3 m) = pair_tokens (token0 m) (token1 m) ''V3-family token0/token1''"
| "metadata_tokens (MetaPancakeV3 m) = pair_tokens (token0 m) (token1 m) ''V3-family token0/token1''"
| "metadata_tokens (MetaSlipstream m) = pair_tokens (token0 m) (token1 m) ''V3-family token0/token1''"
| "metadata_tokens (MetaSolidlyV2 m) = pair_tokens (token0 m) (token1 m) ''Solidly V2 token0/token1''"
| "metadata_tokens (MetaBalancerV2 tokens) = Inr tokens"
| "metadata_tokens (MetaCurve coins) = Inr coins"
| "metadata_tokens MetaUnknown = Inl UnsupportedMetadata"
| "metadata_tokens (MetaCustom _) = Inl UnsupportedMetadata"
| "metadata_tokens (MetaOther _) = Inl UnsupportedMetadata"

definition tokens_for_pool :: "'p pool_registration \<Rightarrow> skipped_pool_reason + address list" where
  "tokens_for_pool pool =
     (case metadata_tokens (reg_metadata pool) of
        Inl reason \<Rightarrow> Inl reason
      | Inr tokens \<Rightarrow> normalize_tokens tokens)"

text \<open>The pairs \<^verbatim>\<open>for_each_token_pair\<close> visits: every token with every later one.\<close>

fun token_pairs :: "address list \<Rightarrow> (address \<times> address) list" where
  "token_pairs [] = []"
| "token_pairs (t # ts) = map (Pair t) ts @ token_pairs ts"

definition directed_edge_count :: "nat \<Rightarrow> nat" where
  "directed_edge_count n = saturating_mul n (saturating_sub n 1)"

section \<open>Operations\<close>

definition new_graph ::
  "('g, 'p) stable_graph_ops \<Rightarrow> u64 \<Rightarrow> (('g, 'p) amm_graph \<times> u64) option" where
  "new_graph G counter =
     do {
       (v, counter') \<leftarrow> initial_version counter;
       Some (\<lparr>graph = sg_empty G, node_map = Map.empty, edge_map = Map.empty,
              pool_tokens = Map.empty, pair_pools = Map.empty, outgoing_map = Map.empty,
              version = v\<rparr>, counter')
     }"

definition node_index :: "('g, 'p) amm_graph \<Rightarrow> address \<Rightarrow> nat option" where
  "node_index g token = node_map g token"

definition node_token :: "('g, 'p) stable_graph_ops \<Rightarrow> ('g, 'p) amm_graph \<Rightarrow> nat \<Rightarrow> address option" where
  "node_token G g node = sg_node_weight G (graph g) node"

definition edges_for_pool :: "('g, 'p) stable_graph_ops \<Rightarrow> ('g, 'p) amm_graph \<Rightarrow> 'p \<Rightarrow> nat list" where
  "edges_for_pool G g pool =
     (case edge_map g pool of
        None \<Rightarrow> []
      | Some es \<Rightarrow> filter (\<lambda>e. sg_edge_weight G (graph g) e \<noteq> None) es)"

definition outgoing_edges :: "('g, 'p) amm_graph \<Rightarrow> nat \<Rightarrow> 'p cached_outgoing_edge list" where
  "outgoing_edges g node = (case outgoing_map g node of None \<Rightarrow> [] | Some es \<Rightarrow> es)"

definition get_or_create_node ::
  "('g, 'p) stable_graph_ops \<Rightarrow> address \<Rightarrow> ('g, 'p) amm_graph \<Rightarrow> ('g, 'p) amm_graph \<times> nat" where
  "get_or_create_node G token g =
     (case node_map g token of
        Some node \<Rightarrow> (g, node)
      | None \<Rightarrow>
          (let (gr, node) = sg_add_node G (graph g) token
           in (g\<lparr>graph := gr, node_map := (node_map g)(token \<mapsto> node)\<rparr>, node)))"

fun create_nodes ::
  "('g, 'p) stable_graph_ops \<Rightarrow> address list \<Rightarrow> ('g, 'p) amm_graph \<Rightarrow> ('g, 'p) amm_graph \<times> nat list" where
  "create_nodes G [] g = (g, [])"
| "create_nodes G (t # ts) g =
     (let (g1, n) = get_or_create_node G t g; (g2, ns) = create_nodes G ts g1 in (g2, n # ns))"

text \<open>The body of the inner loop of \<^verbatim>\<open>add_pool_edges\<close>: the edge itself, its cached view in
  front of the source node's list, and its index at the end of the pool's list.\<close>

definition add_directed_edge ::
  "('g, 'p) stable_graph_ops \<Rightarrow> 'p \<Rightarrow> (address \<times> nat) \<Rightarrow> (address \<times> nat) \<Rightarrow>
     ('g, 'p) amm_graph \<Rightarrow> ('g, 'p) amm_graph" where
  "add_directed_edge G pool from to g =
     (let (gr, e) = sg_add_edge G (graph g) (snd from) (snd to) (EdgeData pool)
      in g\<lparr>graph := gr,
           outgoing_map := (outgoing_map g)(snd from \<mapsto>
             \<lparr>edge_target = snd to, edge_token_in = fst from, edge_token_out = fst to,
              cached_pool = pool\<rparr> # outgoing_edges g (snd from)),
           edge_map := (edge_map g)(pool \<mapsto>
             (case edge_map g pool of None \<Rightarrow> [] | Some es \<Rightarrow> es) @ [e])\<rparr>)"

definition add_pool_pairs :: "'p \<Rightarrow> address list \<Rightarrow> ('g, 'p) amm_graph \<Rightarrow> ('g, 'p) amm_graph" where
  "add_pool_pairs pool tokens g =
     g\<lparr>pair_pools := fold (\<lambda>pair m. multi_insert m pair pool) (token_pairs tokens) (pair_pools g)\<rparr>"

definition remove_pool_pairs :: "'p \<Rightarrow> address list \<Rightarrow> ('g, 'p) amm_graph \<Rightarrow> ('g, 'p) amm_graph" where
  "remove_pool_pairs pool tokens g =
     g\<lparr>pair_pools := fold (\<lambda>pair m. multi_remove m pair pool) (token_pairs tokens) (pair_pools g)\<rparr>"

definition add_pool_edges ::
  "('g, 'p) stable_graph_ops \<Rightarrow> 'p \<Rightarrow> address list \<Rightarrow> ('g, 'p) amm_graph \<Rightarrow> ('g, 'p) amm_graph" where
  "add_pool_edges G pool tokens g =
     (let (g1, nodes) = create_nodes G tokens g;
          g2 = fold (\<lambda>i. fold (\<lambda>j g.
                  if i = j then g
                  else add_directed_edge G pool (tokens ! i, nodes ! i) (tokens ! j, nodes ! j) g)
                [0..<length nodes]) [0..<length nodes] g1;
          g3 = add_pool_pairs pool tokens g2
      in g3\<lparr>pool_tokens := (pool_tokens g3)(pool \<mapsto> tokens)\<rparr>)"

text \<open>Dropping a pool's cached edges from the list of one of its tokens.\<close>

definition retain_other_pools :: "'p \<Rightarrow> address \<Rightarrow> ('g, 'p) amm_graph \<Rightarrow> ('g, 'p) amm_graph" where
  "retain_other_pools pool token g =
     (case node_map g token of
        None \<Rightarrow> g
      | Some node \<Rightarrow>
          (case outgoing_map g node of
             None \<Rightarrow> g
           | Some es \<Rightarrow>
               g\<lparr>outgoing_map := (outgoing_map g)(node \<mapsto> filter (\<lambda>e. cached_pool e \<noteq> pool) es)\<rparr>))"

definition remove_pool_edges ::
  "('g, 'p) stable_graph_ops \<Rightarrow> 'p \<Rightarrow> ('g, 'p) amm_graph \<Rightarrow> ('g, 'p) amm_graph \<times> nat \<times> address list" where
  "remove_pool_edges G pool g =
     (let tokens = (case pool_tokens g pool of None \<Rightarrow> [] | Some ts \<Rightarrow> ts);
          g1 = remove_pool_pairs pool tokens (g\<lparr>pool_tokens := (pool_tokens g)(pool := None)\<rparr>)
      in case edge_map g1 pool of
           None \<Rightarrow> (g1, 0, tokens)
         | Some edges \<Rightarrow>
             (let g2 = g1\<lparr>edge_map := (edge_map g1)(pool := None),
                          graph := fold (\<lambda>e gr. sg_remove_edge G gr e) edges (graph g1)\<rparr>
              in (fold (retain_other_pools pool) tokens g2, length edges, tokens)))"

text \<open>Removing a token's node when no edge touches it.\<close>

definition prune_token ::
  "('g, 'p) stable_graph_ops \<Rightarrow> address \<Rightarrow> ('g, 'p) amm_graph \<Rightarrow> ('g, 'p) amm_graph" where
  "prune_token G token g =
     (case node_map g token of
        None \<Rightarrow> g
      | Some node \<Rightarrow>
          (if sg_edges_directed G (graph g) node Outgoing \<noteq> [] \<or>
              sg_edges_directed G (graph g) node Incoming \<noteq> []
           then g
           else g\<lparr>graph := sg_remove_node G (graph g) node,
                  outgoing_map := (outgoing_map g)(node := None),
                  node_map := (node_map g)(token := None)\<rparr>))"

definition prune_orphan_tokens ::
  "('g, 'p) stable_graph_ops \<Rightarrow> address list \<Rightarrow> ('g, 'p) amm_graph \<Rightarrow> ('g, 'p) amm_graph" where
  "prune_orphan_tokens G tokens g = fold (prune_token G) tokens g"

definition advance_version :: "('g, 'p) amm_graph \<Rightarrow> ('g, 'p) amm_graph option" where
  "advance_version g = do { v \<leftarrow> checked_next (version g); Some (g\<lparr>version := v\<rparr>) }"

definition remove_pool ::
  "('g, 'p) stable_graph_ops \<Rightarrow> 'p \<Rightarrow> ('g, 'p) amm_graph \<Rightarrow> (('g, 'p) amm_graph \<times> nat) option" where
  "remove_pool G pool g =
     (let (g1, removed, _) = remove_pool_edges G pool g
      in if removed > 0
         then do { g2 \<leftarrow> advance_version g1; Some (g2, removed) }
         else Some (g1, removed))"

definition remove_pool_compacting ::
  "('g, 'p) stable_graph_ops \<Rightarrow> 'p \<Rightarrow> ('g, 'p) amm_graph \<Rightarrow>
     (('g, 'p) amm_graph \<times> graph_pool_mutation) option" where
  "remove_pool_compacting G pool g =
     (let (g1, directed_edges, tokens) = remove_pool_edges G pool g
      in if directed_edges = 0 then Some (g1, Unchanged)
         else do {
           g2 \<leftarrow> advance_version (prune_orphan_tokens G tokens g1);
           Some (g2, Removed directed_edges)
         })"

definition remove_or_skip ::
  "('g, 'p) stable_graph_ops \<Rightarrow> 'p \<Rightarrow> skipped_pool_reason \<Rightarrow> ('g, 'p) amm_graph \<Rightarrow>
     (('g, 'p) amm_graph \<times> graph_pool_mutation) option" where
  "remove_or_skip G pool reason g =
     do {
       (g1, mutation) \<leftarrow> remove_pool_compacting G pool g;
       (case mutation of
          Removed n \<Rightarrow> Some (g1, Removed n)
        | Unchanged \<Rightarrow> Some (g1, Skipped reason)
        | _ \<Rightarrow> None)
     }"

definition apply_pool ::
  "('g, 'p) stable_graph_ops \<Rightarrow> 'p pool_registration \<Rightarrow> graph_build_options \<Rightarrow> ('g, 'p) amm_graph \<Rightarrow>
     (('g, 'p) amm_graph \<times> graph_pool_mutation) option" where
  "apply_pool G reg options g =
     (if \<not> is_indexable_status (reg_status reg) options
      then remove_or_skip G (reg_key reg) (SkipStatus (reg_status reg)) g
      else case tokens_for_pool reg of
             Inl reason \<Rightarrow> remove_or_skip G (reg_key reg) reason g
           | Inr tokens \<Rightarrow>
               (case pool_tokens g (reg_key reg) of
                  Some current \<Rightarrow>
                    (if current = tokens then Some (g, Unchanged)
                     else
                       (let (g1, removed_edges, old_tokens) = remove_pool_edges G (reg_key reg) g;
                            g2 = prune_orphan_tokens G old_tokens g1;
                            g3 = add_pool_edges G (reg_key reg) tokens g2
                        in do {
                             g4 \<leftarrow> advance_version g3;
                             Some (g4, Updated removed_edges (directed_edge_count (length tokens)))
                           }))
                | None \<Rightarrow>
                    do {
                      g1 \<leftarrow> advance_version (add_pool_edges G (reg_key reg) tokens g);
                      Some (g1, Added (directed_edge_count (length tokens)))
                    }))"

text \<open>The loop of \<^verbatim>\<open>from_registry\<close>, over the registrations sorted by the debug rendering of
  their keys (\<open>debug\<close> stands for the third-party \<^verbatim>\<open>Debug\<close> instance of \<^verbatim>\<open>PoolKey\<close>).\<close>

fun index_pools ::
  "('g, 'p) stable_graph_ops \<Rightarrow> graph_build_options \<Rightarrow> 'p pool_registration list \<Rightarrow>
     ('g, 'p) amm_graph \<Rightarrow> ('g, 'p) amm_graph \<times> 'p list \<times> 'p skipped_pool list" where
  "index_pools G options [] g = (g, [], [])"
| "index_pools G options (pool # pools) g =
     (if \<not> is_indexable_status (reg_status pool) options
      then (let (g', indexed, skipped) = index_pools G options pools g
            in (g', indexed,
                \<lparr>skipped_key = reg_key pool, skipped_reason = SkipStatus (reg_status pool)\<rparr> # skipped))
      else case tokens_for_pool pool of
             Inl reason \<Rightarrow>
               (let (g', indexed, skipped) = index_pools G options pools g
                in (g', indexed, \<lparr>skipped_key = reg_key pool, skipped_reason = reason\<rparr> # skipped))
           | Inr tokens \<Rightarrow>
               (let (g', indexed, skipped) =
                      index_pools G options pools (add_pool_edges G (reg_key pool) tokens g)
                in (g', reg_key pool # indexed, skipped)))"

definition from_registry ::
  "('g, 'p) stable_graph_ops \<Rightarrow> ('p \<Rightarrow> string) \<Rightarrow> 'p pool_registration list \<Rightarrow> graph_build_options \<Rightarrow>
     u64 \<Rightarrow> (('g, 'p) amm_graph \<times> 'p graph_build_summary \<times> u64) option" where
  "from_registry G debug registered options counter =
     do {
       (g, counter') \<leftarrow> new_graph G counter;
       (let (g', indexed, skipped) =
              index_pools G options (sort_key (\<lambda>pool. debug (reg_key pool)) registered) g
        in Some (g', \<lparr>indexed_pools = indexed, skipped_pools = skipped\<rparr>, counter'))
     }"

definition rebuild_from_registry ::
  "('g, 'p) stable_graph_ops \<Rightarrow> ('p \<Rightarrow> string) \<Rightarrow> 'p pool_registration list \<Rightarrow> graph_build_options \<Rightarrow>
     u64 \<Rightarrow> ('g, 'p) amm_graph \<Rightarrow> (('g, 'p) amm_graph \<times> 'p graph_build_summary \<times> u64) option" where
  "rebuild_from_registry G debug registered options counter g =
     do {
       (built, summary, counter') \<leftarrow> from_registry G debug registered options counter;
       (if pool_tokens g = pool_tokens built \<and>
           card (dom (node_map g)) = card (dom (node_map built)) \<and>
           dom (node_map g) \<subseteq> dom (node_map built)
        then Some (built\<lparr>version := version g\<rparr>, summary, counter')
        else do {
          v \<leftarrow> checked_next (version g);
          Some (built\<lparr>version := v\<rparr>, summary, counter')
        })
     }"

text \<open>Tokens of a pool whose balances the liquidity index tracks, and the pools sharing a
  token pair with a pool.\<close>

definition tracked_tokens_for_pool :: "('g, 'p) amm_graph \<Rightarrow> 'p \<Rightarrow> bool \<Rightarrow> address set" where
  "tracked_tokens_for_pool g pool parallel_only =
     (case pool_tokens g pool of
        None \<Rightarrow> {}
      | Some tokens \<Rightarrow>
          (if \<not> parallel_only then set tokens
           else fold (\<lambda>pair tracked.
                  if (case pair_pools g pair of None \<Rightarrow> False | Some pools \<Rightarrow> card pools \<ge> 2)
                  then insert (snd pair) (insert (fst pair) tracked) else tracked)
                (token_pairs tokens) {}))"

definition parallel_neighbors :: "('g, 'p) amm_graph \<Rightarrow> 'p \<Rightarrow> 'p set" where
  "parallel_neighbors g pool =
     (case pool_tokens g pool of
        None \<Rightarrow> {}
      | Some tokens \<Rightarrow>
          fold (\<lambda>pair neighbors.
                  case pair_pools g pair of None \<Rightarrow> neighbors | Some pools \<Rightarrow> neighbors \<union> pools)
            (token_pairs tokens) {})"

end
