(* ===== verification/Enumerate.thy ===== *)
theory Enumerate
  imports SearchConfig AmmGraph
begin

text \<open>
  Breadth-first route enumeration, \<^verbatim>\<open>AmmSearcher::enumerate_routes_filtered\<close> of
  \<^verbatim>\<open>src/search.rs\<close>: the worklist loop with its continuation poll, its connector filter, its
  exclusion set and its limit on new paths. The optional poll \<^verbatim>\<open>should_continue\<close> is a
  function of the number of polls made so far, so that a callback that changes its mind is
  covered. The loop is a total function; its termination measure is the multiset of the
  remaining hops of the queued prefixes.
\<close>

section \<open>The loop\<close>

definition connector_allowed_with_tokens ::
  "address \<Rightarrow> address \<Rightarrow> address \<Rightarrow> address set option \<Rightarrow> bool" where
  "connector_allowed_with_tokens token token_in token_out allowed \<longleftrightarrow>
     token = token_in \<or> token = token_out \<or>
     (case allowed of None \<Rightarrow> True | Some tokens \<Rightarrow> token \<in> tokens)"

definition connector_allowed :: "address \<Rightarrow> address \<Rightarrow> address \<Rightarrow> search_config \<Rightarrow> bool" where
  "connector_allowed token token_in token_out config =
     connector_allowed_with_tokens token token_in token_out (connector_tokens config)"

record 'p search_state =
  ss_node :: nat
  ss_path :: "'p route_path"
  visited_tokens :: "address set"
  used_pools :: "'p set"

record 'p route_enumeration =
  enum_paths :: "'p route_path list"
  duplicates_skipped :: nat
  enum_stopped :: bool

text \<open>What the loop reads.\<close>

record 'p enum_env =
  env_out :: "nat \<Rightarrow> 'p cached_outgoing_edge list"
  env_source :: nat
  env_target :: nat
  env_in :: address
  env_to :: address
  env_config :: search_config
  env_revisit :: bool
  env_excluded :: "'p route_path set"
  env_limit :: "nat option"
  env_continue :: "(nat \<Rightarrow> bool) option"

text \<open>What the loop writes: its locals, and the number of polls made.\<close>

record 'p enum_locals =
  el_paths :: "'p route_path list"
  el_queue :: "'p search_state list"
  el_duplicates :: nat
  el_found :: bool
  el_stopped :: bool
  el_polls :: nat

definition poll_stops :: "'p enum_env \<Rightarrow> 'p enum_locals \<Rightarrow> bool" where
  "poll_stops env l \<longleftrightarrow> (case env_continue env of None \<Rightarrow> False | Some f \<Rightarrow> \<not> f (el_polls l))"

definition polled :: "'p enum_env \<Rightarrow> 'p enum_locals \<Rightarrow> 'p enum_locals" where
  "polled env l = (if env_continue env = None then l else l\<lparr>el_polls := Suc (el_polls l)\<rparr>)"

definition edge_hop :: "'p cached_outgoing_edge \<Rightarrow> 'p hop" where
  "edge_hop e = \<lparr>hop_pool = cached_pool e, hop_in = edge_token_in e, hop_out = edge_token_out e\<rparr>"

definition limit_reached :: "'p enum_env \<Rightarrow> nat \<Rightarrow> bool" where
  "limit_reached env n \<longleftrightarrow> (case env_limit env of None \<Rightarrow> False | Some limit \<Rightarrow> limit \<le> n)"

text \<open>The filters an edge must pass before its hop extends the path.\<close>

definition edge_usable :: "'p enum_env \<Rightarrow> 'p search_state \<Rightarrow> 'p cached_outgoing_edge \<Rightarrow> bool" where
  "edge_usable env s e \<longleftrightarrow>
     cached_pool e \<notin> used_pools s \<and>
     (let closes_target = edge_target e = env_target env;
          closes_source_cycle =
            env_revisit env \<and> env_source env = env_target env \<and> edge_target e = env_source env
      in (edge_token_out e \<notin> visited_tokens s \<or> closes_source_cycle) \<and>
         (closes_target \<or>
          connector_allowed (edge_token_out e) (env_in env) (env_to env) (env_config env)))"

text \<open>A path that reaches the target; the flag says whether the search breaks off.\<close>

definition record_path :: "'p enum_env \<Rightarrow> 'p route_path \<Rightarrow> 'p enum_locals \<Rightarrow> bool \<times> 'p enum_locals" where
  "record_path env path l =
     (if min_hops (env_config env) \<le> length path
      then (let l1 = (if path \<in> env_excluded env
                      then l\<lparr>el_found := True, el_duplicates := saturating_add (el_duplicates l) 1\<rparr>
                      else l\<lparr>el_found := True, el_paths := el_paths l @ [path]\<rparr>)
            in (limit_reached env (length (el_paths l1)), l1))
      else (False, l))"

definition push_state ::
  "'p enum_env \<Rightarrow> 'p search_state \<Rightarrow> 'p cached_outgoing_edge \<Rightarrow> 'p enum_locals \<Rightarrow> 'p enum_locals" where
  "push_state env s e l =
     (let path = ss_path s @ [edge_hop e]
      in if length path < max_hops (env_config env)
         then l\<lparr>el_queue := el_queue l @
                [\<lparr>ss_node = edge_target e, ss_path = path,
                  visited_tokens = insert (edge_token_out e) (visited_tokens s),
                  used_pools = insert (cached_pool e) (used_pools s)\<rparr>]\<rparr>
         else l)"

fun expand_edges ::
  "'p enum_env \<Rightarrow> 'p search_state \<Rightarrow> 'p cached_outgoing_edge list \<Rightarrow> 'p enum_locals \<Rightarrow>
     bool \<times> 'p enum_locals" where
  "expand_edges env s [] l = (False, l)"
| "expand_edges env s (e # es) l =
     (let l1 = polled env l
      in if poll_stops env l then (True, l1\<lparr>el_stopped := True\<rparr>)
         else if \<not> edge_usable env s e then expand_edges env s es l1
         else if edge_target e = env_target env
         then (let (fin, l2) = record_path env (ss_path s @ [edge_hop e]) l1
               in if fin then (True, l2) else expand_edges env s es l2)
         else expand_edges env s es (push_state env s e l1))"

section \<open>Termination\<close>

definition remaining_hops :: "'p enum_env \<Rightarrow> 'p search_state \<Rightarrow> nat" where
  "remaining_hops env s = max_hops (env_config env) - length (ss_path s)"

definition queue_measure :: "'p enum_env \<Rightarrow> 'p search_state list \<Rightarrow> nat multiset" where
  "queue_measure env q = mset (map (remaining_hops env) q)"

lemma polled_queue [simp]: "el_queue (polled env l) = el_queue l"
  by (simp add: polled_def)

lemma record_path_queue: "record_path env p l = (d, l') \<Longrightarrow> el_queue l' = el_queue l"
  by (auto simp: record_path_def Let_def split: if_splits)

lemma push_state_queue:
  "\<exists>new. el_queue (push_state env s e l) = el_queue l @ new \<and>
         (\<forall>t \<in> set new. length (ss_path t) = Suc (length (ss_path s)))"
  by (simp add: push_state_def Let_def)

lemma expand_edges_queue:
  "expand_edges env s es l = (d, l') \<Longrightarrow>
     \<exists>new. el_queue l' = el_queue l @ new \<and>
           (\<forall>t \<in> set new. length (ss_path t) = Suc (length (ss_path s)))"
proof (induction es arbitrary: l)
  case (Cons e es)
  let ?l1 = "polled env l"
  show ?case
  proof (cases "poll_stops env l \<or> \<not> edge_usable env s e")
    case True
    with Cons show ?thesis by (fastforce simp: Let_def split: if_splits)
  next
    case ok: False
    show ?thesis
    proof (cases "edge_target e = env_target env")
      case True
      obtain d2 l2 where r: "record_path env (ss_path s @ [edge_hop e]) ?l1 = (d2, l2)" by fastforce
      with Cons.prems ok True have "if d2 then l' = l2 else expand_edges env s es l2 = (d, l')"
        by (auto simp: Let_def split: if_splits)
      with Cons.IH [of l2] record_path_queue [OF r] show ?thesis by (auto split: if_splits)
    next
      case False
      with Cons.prems ok have "expand_edges env s es (push_state env s e ?l1) = (d, l')"
        by (simp add: Let_def)
      with Cons.IH [of "push_state env s e ?l1"] push_state_queue [of env s e ?l1] show ?thesis
        by fastforce
    qed
  qed
qed simp

lemma queue_measure_step:
  assumes "\<forall>t \<in> set new. length (ss_path t) = Suc (length (ss_path s))"
    and "length (ss_path s) < max_hops (env_config env)"
  shows "(queue_measure env (q @ new), queue_measure env (s # q)) \<in> mult less_than"
proof -
  let ?m = "remaining_hops env"
  have "(image_mset ?m (mset q) + image_mset ?m (mset new),
      image_mset ?m (mset q) + {#?m s#}) \<in> mult less_than"
    using assms by (intro one_step_implies_mult) (auto simp: remaining_hops_def)
  then show ?thesis by (simp add: queue_measure_def)
qed

lemma queue_measure_pop: "(queue_measure env q, queue_measure env (s # q)) \<in> mult less_than"
proof -
  have "(image_mset (remaining_hops env) (mset q) + {#},
      image_mset (remaining_hops env) (mset q) + {#remaining_hops env s#}) \<in> mult less_than"
    by (intro one_step_implies_mult) auto
  then show ?thesis by (simp add: queue_measure_def)
qed

function search_loop :: "'p enum_env \<Rightarrow> 'p enum_locals \<Rightarrow> 'p enum_locals" where
  "search_loop env l =
     (case el_queue l of
        [] \<Rightarrow> l
      | s # rest \<Rightarrow>
          (let l1 = polled env (l\<lparr>el_queue := rest\<rparr>)
           in if poll_stops env l then l1\<lparr>el_stopped := True\<rparr>
              else if max_hops (env_config env) \<le> length (ss_path s) then search_loop env l1
              else case expand_edges env s (env_out env (ss_node s)) l1 of
                     (fin, l2) \<Rightarrow> if fin then l2 else search_loop env l2))"
  by pat_completeness auto

termination
proof (relation "inv_image (mult less_than) (\<lambda>(env, l). queue_measure env (el_queue l))", goal_cases)
  case 1
  show ?case by (intro wf_inv_image wf_mult) simp
next
  case (2 env l s rest l1)
  then show ?case by (simp add: queue_measure_pop)
next
  case (3 env l s rest l1 fin l2)
  have "expand_edges env s (env_out env (ss_node s)) l1 = (fin, l2)" using 3 by simp
  then obtain new where "el_queue l2 = rest @ new"
    "\<forall>t \<in> set new. length (ss_path t) = Suc (length (ss_path s))"
    using expand_edges_queue [of env s "env_out env (ss_node s)" l1 fin l2] 3 by auto
  with queue_measure_step [of new s env rest] 3 show ?case by simp
qed

declare search_loop.simps [simp del]

section \<open>Entry points\<close>

definition initial_state :: "'p enum_env \<Rightarrow> 'p search_state" where
  "initial_state env = \<lparr>ss_node = env_source env, ss_path = [], visited_tokens = {env_in env}, used_pools = {}\<rparr>"

definition initial_locals :: "'p enum_env \<Rightarrow> 'p enum_locals" where
  "initial_locals env = \<lparr>el_paths = [], el_queue = [initial_state env], el_duplicates = 0,
     el_found = False, el_stopped = False, el_polls = 0\<rparr>"

definition enumerate_env ::
  "('g, 'p) amm_graph \<Rightarrow> nat \<Rightarrow> nat \<Rightarrow> address \<Rightarrow> address \<Rightarrow> search_config \<Rightarrow> bool \<Rightarrow>
     'p route_path set \<Rightarrow> nat option \<Rightarrow> (nat \<Rightarrow> bool) option \<Rightarrow> 'p enum_env" where
  "enumerate_env g source target token_in token_out config revisit excluded limit continue =
     \<lparr>env_out = outgoing_edges g, env_source = source, env_target = target,
      env_in = token_in, env_to = token_out, env_config = config, env_revisit = revisit,
      env_excluded = excluded, env_limit = limit, env_continue = continue\<rparr>"

definition enumerate_routes_filtered ::
  "('g, 'p) amm_graph \<Rightarrow> address \<Rightarrow> address \<Rightarrow> search_config \<Rightarrow> bool \<Rightarrow>
     'p route_path set \<Rightarrow> nat option \<Rightarrow> (nat \<Rightarrow> bool) option \<Rightarrow>
     ('p, 'e) search_error + 'p route_enumeration" where
  "enumerate_routes_filtered g token_in token_out config revisit excluded max_new_paths continue =
     and_then (validate_search config) (\<lambda>_.
       case node_index g token_in of
         None \<Rightarrow> Inl (TokenNotFound token_in)
       | Some source \<Rightarrow>
           (case node_index g token_out of
              None \<Rightarrow> Inl (TokenNotFound token_out)
            | Some target \<Rightarrow>
                (if max_new_paths = Some 0
                 then Inr \<lparr>enum_paths = [], duplicates_skipped = 0, enum_stopped = False\<rparr>
                 else
                   (let env = enumerate_env g source target token_in token_out config revisit
                                excluded max_new_paths continue;
                        l = search_loop env (initial_locals env)
                    in if \<not> el_found l \<and> \<not> el_stopped l then Inl (NoPath token_in token_out)
                       else Inr \<lparr>enum_paths = el_paths l, duplicates_skipped = el_duplicates l,
                                 enum_stopped = el_stopped l\<rparr>))))"

definition enumerate_routes ::
  "('g, 'p) amm_graph \<Rightarrow> address \<Rightarrow> address \<Rightarrow> search_config \<Rightarrow> bool \<Rightarrow>
     ('p, 'e) search_error + 'p route_path list" where
  "enumerate_routes g token_in token_out config revisit =
     and_then (enumerate_routes_filtered g token_in token_out config revisit {} (max_candidates config) None)
       (\<lambda>r. Inr (enum_paths r))"

end
