(* ===== verification/EnumerateSpec.thy ===== *)
theory EnumerateSpec
  imports Enumerate
begin

text \<open>
  The worklist loop of route enumeration, seen from outside: it visits the prefixes in
  breadth-first order and tallies the complete paths each visited prefix yields. \<open>bfs\<close> is
  that order, \<open>tally\<close> the bookkeeping of found, excluded and counted paths; the loop computes
  the tally over the breadth-first list of complete paths, or over a prefix of it when the
  continuation poll stops the search.
\<close>

section \<open>Complete paths and pushed prefixes of a state\<close>

definition child_state :: "'p search_state \<Rightarrow> 'p cached_outgoing_edge \<Rightarrow> 'p search_state" where
  "child_state s e = \<lparr>ss_node = edge_target e, ss_path = ss_path s @ [edge_hop e],
     visited_tokens = insert (edge_token_out e) (visited_tokens s),
     used_pools = insert (cached_pool e) (used_pools s)\<rparr>"

definition hits :: "'p enum_env \<Rightarrow> 'p search_state \<Rightarrow> 'p cached_outgoing_edge list \<Rightarrow> 'p route_path list" where
  "hits env s es = map (\<lambda>e. ss_path s @ [edge_hop e])
     (filter (\<lambda>e. edge_usable env s e \<and> edge_target e = env_target env \<and>
                  min_hops (env_config env) \<le> Suc (length (ss_path s))) es)"

definition pushes :: "'p enum_env \<Rightarrow> 'p search_state \<Rightarrow> 'p cached_outgoing_edge list \<Rightarrow> 'p search_state list" where
  "pushes env s es = map (child_state s)
     (filter (\<lambda>e. edge_usable env s e \<and> edge_target e \<noteq> env_target env \<and>
                  Suc (length (ss_path s)) < max_hops (env_config env)) es)"

definition state_hits :: "'p enum_env \<Rightarrow> 'p search_state \<Rightarrow> 'p route_path list" where
  "state_hits env s =
     (if length (ss_path s) < max_hops (env_config env) then hits env s (env_out env (ss_node s)) else [])"

definition state_pushes :: "'p enum_env \<Rightarrow> 'p search_state \<Rightarrow> 'p search_state list" where
  "state_pushes env s =
     (if length (ss_path s) < max_hops (env_config env) then pushes env s (env_out env (ss_node s)) else [])"

lemma length_pushes:
  "t \<in> set (state_pushes env s) \<Longrightarrow> length (ss_path t) = Suc (length (ss_path s))"
  by (auto simp: state_pushes_def pushes_def child_state_def split: if_splits)

function bfs :: "'p enum_env \<Rightarrow> 'p search_state list \<Rightarrow> 'p search_state list" where
  "bfs env [] = []"
| "bfs env (s # q) = s # bfs env (q @ state_pushes env s)"
  by pat_completeness auto

termination
proof (relation "inv_image (mult less_than) (\<lambda>(env, q). queue_measure env q)", goal_cases)
  case 1
  show ?case by (intro wf_inv_image wf_mult) simp
next
  case (2 env s q)
  show ?case
  proof (cases "length (ss_path s) < max_hops (env_config env)")
    case True
    then show ?thesis using queue_measure_step [of "state_pushes env s" s env q] length_pushes by auto
  next
    case False
    then show ?thesis by (simp add: state_pushes_def queue_measure_pop)
  qed
qed

section \<open>Bookkeeping\<close>

type_synonym 'p tally_state = "'p route_path list \<times> nat \<times> bool"

fun tally :: "'p enum_env \<Rightarrow> 'p route_path list \<Rightarrow> 'p tally_state \<Rightarrow> bool \<times> 'p tally_state" where
  "tally env [] c = (False, c)"
| "tally env (p # ps) (P, d, f) =
     (let (P', d') = (if p \<in> env_excluded env then (P, saturating_add d 1) else (P @ [p], d))
      in if limit_reached env (length P') then (True, P', d', True)
         else tally env ps (P', d', True))"

definition core :: "'p enum_locals \<Rightarrow> 'p tally_state" where
  "core l = (el_paths l, el_duplicates l, el_found l)"

lemma tally_append:
  "tally env (xs @ ys) c =
     (case tally env xs c of (fin, c') \<Rightarrow> if fin then (True, c') else tally env ys c')"
  by (induction env xs c rule: tally.induct) (auto simp: Let_def split: prod.splits if_splits)

lemma tally_cons_prefix:
  "tally env [p] c = (False, c') \<Longrightarrow> tally env (take n ps) c' = r \<Longrightarrow> tally env (take (Suc n) (p # ps)) c = r"
  using tally_append [of env "[p]" "take n ps" c] by simp

lemma core_frame [simp]:
  "core (polled env l) = core l" "core (l\<lparr>el_queue := q\<rparr>) = core l" "core (l\<lparr>el_stopped := b\<rparr>) = core l"
  "core (push_state env s e l) = core l"
  by (simp_all add: core_def polled_def push_state_def Let_def)

lemma stopped_frame [simp]:
  "el_stopped (polled env l) = el_stopped l" "el_stopped (push_state env s e l) = el_stopped l"
  by (simp_all add: polled_def push_state_def Let_def)

lemma record_path_tally:
  assumes "min_hops (env_config env) \<le> length p" and "record_path env p l = (fin, l')"
  shows "tally env [p] (core l) = (fin, core l')" and "el_stopped l' = el_stopped l"
    and "el_queue l' = el_queue l"
  using assms by (auto simp: record_path_def core_def Let_def split: if_splits)

lemma record_path_short:
  "\<not> min_hops (env_config env) \<le> length p \<Longrightarrow> record_path env p l = (False, l)"
  by (simp add: record_path_def)

text \<open>One step of the inner loop, by what its edge contributes.\<close>

lemma hits_Cons:
  "hits env s (e # es) =
     (if edge_usable env s e \<and> edge_target e = env_target env \<and>
         min_hops (env_config env) \<le> Suc (length (ss_path s))
      then (ss_path s @ [edge_hop e]) # hits env s es else hits env s es)"
  by (simp add: hits_def)

lemma pushes_Cons:
  "pushes env s (e # es) =
     (if edge_usable env s e \<and> edge_target e \<noteq> env_target env \<and>
         Suc (length (ss_path s)) < max_hops (env_config env)
      then child_state s e # pushes env s es else pushes env s es)"
  by (simp add: pushes_def)

lemma push_state_child:
  "el_queue (push_state env s e l) =
     el_queue l @ (if Suc (length (ss_path s)) < max_hops (env_config env) then [child_state s e] else [])"
  by (simp add: push_state_def child_state_def Let_def)

definition expand_result ::
  "'p enum_env \<Rightarrow> 'p search_state \<Rightarrow> 'p cached_outgoing_edge list \<Rightarrow> 'p enum_locals \<Rightarrow>
     bool \<Rightarrow> 'p enum_locals \<Rightarrow> bool" where
  "expand_result env s es l fin l' \<longleftrightarrow>
     (if el_stopped l'
      then fin \<and> env_continue env \<noteq> None \<and>
           (\<exists>n. tally env (take n (hits env s es)) (core l) = (False, core l'))
      else tally env (hits env s es) (core l) = (fin, core l')) \<and>
     (\<not> fin \<longrightarrow> el_queue l' = el_queue l @ pushes env s es)"

lemma expand_edges_result:
  assumes "\<not> el_stopped l" and "expand_edges env s es l = (fin, l')"
  shows "expand_result env s es l fin l'"
  using assms
proof (induction es arbitrary: l)
  case Nil
  then show ?case by (simp add: expand_result_def hits_def pushes_def)
next
  case (Cons e es)
  let ?l1 = "polled env l"
  have st: "\<not> el_stopped ?l1" using Cons.prems(1) by simp
  show ?case
  proof (cases "poll_stops env l")
    case True
    then have "fin" "l' = ?l1\<lparr>el_stopped := True\<rparr>" "env_continue env \<noteq> None"
      using Cons.prems(2) by (auto simp: Let_def poll_stops_def split: option.splits)
    then show ?thesis by (auto simp: expand_result_def intro!: exI [of _ 0])
  next
    case go: False
    show ?thesis
    proof (cases "edge_usable env s e")
      case False
      then have "expand_edges env s es ?l1 = (fin, l')" using Cons.prems(2) go by (simp add: Let_def)
      from Cons.IH [OF st this] False show ?thesis
        by (auto simp: expand_result_def hits_Cons pushes_Cons split: if_splits)
    next
      case use: True
      show ?thesis
      proof (cases "edge_target e = env_target env")
        case False
        have "\<not> el_stopped (push_state env s e ?l1)" using st by simp
        moreover have "expand_edges env s es (push_state env s e ?l1) = (fin, l')"
          using Cons.prems(2) go use False by (simp add: Let_def)
        ultimately have "expand_result env s es (push_state env s e ?l1) fin l'" by (rule Cons.IH)
        then show ?thesis using use False
          by (auto simp: expand_result_def hits_Cons pushes_Cons push_state_child)
      next
        case close: True
        let ?p = "ss_path s @ [edge_hop e]"
        obtain fin2 l2 where r: "record_path env ?p ?l1 = (fin2, l2)" by fastforce
        have rest: "if fin2 then fin \<and> l' = l2 else expand_edges env s es l2 = (fin, l')"
          using Cons.prems(2) go use close r by (auto simp: Let_def split: if_splits)
        show ?thesis
        proof (cases "min_hops (env_config env) \<le> Suc (length (ss_path s))")
          case False
          then have "fin2 = False" "l2 = ?l1" using r record_path_short [of env ?p ?l1] by auto
          with rest Cons.IH [OF st] False use close show ?thesis
            by (auto simp: expand_result_def hits_Cons pushes_Cons split: if_splits)
        next
          case True
          then have lp: "min_hops (env_config env) \<le> length ?p" by simp
          note t = record_path_tally [OF lp r]
          have h: "hits env s (e # es) = ?p # hits env s es" using use close True by (simp add: hits_Cons)
          show ?thesis
          proof (cases fin2)
            case True
            then have "fin" "l' = l2" using rest by auto
            then show ?thesis
              using t True st tally_append [of env "[?p]" "hits env s es" "core l"] h
              by (simp add: expand_result_def)
          next
            case False
            then have "expand_edges env s es l2 = (fin, l')" using rest by simp
            then have res: "expand_result env s es l2 fin l'" using t(2) st by (intro Cons.IH) simp
            have one: "tally env [?p] (core l) = (False, core l2)" using t(1) False by simp
            have "tally env (?p # hits env s es) (core l) = tally env (hits env s es) (core l2)"
              using tally_append [of env "[?p]" "hits env s es" "core l"] one by simp
            moreover have "\<exists>m. tally env (take m (?p # hits env s es)) (core l) = (False, core l')"
              if "\<exists>n. tally env (take n (hits env s es)) (core l2) = (False, core l')"
              using that tally_cons_prefix [OF one] by blast
            ultimately show ?thesis
              using res use close t(3) by (auto simp: expand_result_def h pushes_Cons)
          qed
        qed
      qed
    qed
  qed
qed

section \<open>The loop computes the tally\<close>

definition bfs_hits :: "'p enum_env \<Rightarrow> 'p search_state list \<Rightarrow> 'p route_path list" where
  "bfs_hits env q = concat (map (state_hits env) (bfs env q))"

lemma bfs_hits_simps [simp]:
  "bfs_hits env [] = []"
  "bfs_hits env (s # q) = state_hits env s @ bfs_hits env (q @ state_pushes env s)"
  by (simp_all add: bfs_hits_def)

definition loop_result :: "'p enum_env \<Rightarrow> 'p enum_locals \<Rightarrow> 'p enum_locals \<Rightarrow> bool" where
  "loop_result env l l' \<longleftrightarrow>
     (if el_stopped l'
      then env_continue env \<noteq> None \<and>
           (\<exists>n. tally env (take n (bfs_hits env (el_queue l))) (core l) = (False, core l'))
      else snd (tally env (bfs_hits env (el_queue l)) (core l)) = core l')"

lemma loop_result_append:
  assumes "tally env (state_hits env s) (core l) = (False, core l2)"
    and "bfs_hits env (el_queue l) = state_hits env s @ bfs_hits env (el_queue l2)"
    and "loop_result env l2 l'"
  shows "loop_result env l l'"
proof -
  have "tally env (state_hits env s @ ys) (core l) = tally env ys (core l2)" for ys
    using assms(1) by (simp add: tally_append)
  moreover have "take (length (state_hits env s) + n) (state_hits env s @ ys) = state_hits env s @ take n ys"
    for n ys by simp
  ultimately show ?thesis
    using assms(2,3) unfolding loop_result_def by metis
qed

lemma search_loop_result: "\<not> el_stopped l \<Longrightarrow> loop_result env l (search_loop env l)"
proof (induction env l rule: search_loop.induct)
  case (1 env l)
  show ?case
  proof (cases "el_queue l")
    case Nil
    then show ?thesis using "1.prems" by (simp add: search_loop.simps loop_result_def)
  next
    case (Cons s rest)
    let ?l1 = "polled env (l\<lparr>el_queue := rest\<rparr>)"
    have st: "\<not> el_stopped ?l1" using "1.prems" by simp
    show ?thesis
    proof (cases "poll_stops env l")
      case True
      then have "search_loop env l = ?l1\<lparr>el_stopped := True\<rparr>" "env_continue env \<noteq> None"
        using Cons by (auto simp: search_loop.simps poll_stops_def split: option.splits)
      then show ?thesis by (auto simp: loop_result_def intro!: exI [of _ 0])
    next
      case go: False
      show ?thesis
      proof (cases "max_hops (env_config env) \<le> length (ss_path s)")
        case True
        then have l: "search_loop env l = search_loop env ?l1"
          using Cons go by (simp add: search_loop.simps [of env l])
        have "loop_result env ?l1 (search_loop env ?l1)"
          using "1.IH"(1) [OF Cons refl go True] st by blast
        moreover have "tally env (state_hits env s) (core l) = (False, core ?l1)"
          "bfs_hits env (el_queue l) = state_hits env s @ bfs_hits env (el_queue ?l1)"
          using Cons True by (simp_all add: state_hits_def state_pushes_def)
        ultimately show ?thesis unfolding l by (metis loop_result_append)
      next
        case False
        obtain fin l2 where e: "expand_edges env s (env_out env (ss_node s)) ?l1 = (fin, l2)" by fastforce
        note r = expand_edges_result [OF st e]
        have h: "state_hits env s = hits env s (env_out env (ss_node s))"
          "state_pushes env s = pushes env s (env_out env (ss_node s))"
          using False by (simp_all add: state_hits_def state_pushes_def)
        show ?thesis
        proof (cases fin)
          case True
          then have l: "search_loop env l = l2"
            using Cons go False e by (simp add: search_loop.simps [of env l])
          have "\<exists>n. tally env (take n (bfs_hits env (el_queue l))) (core l) = (False, core l2)"
            if "\<exists>n. tally env (take n (hits env s (env_out env (ss_node s)))) (core l) = (False, core l2)"
          proof -
            from that obtain n where n: "tally env (take n (state_hits env s)) (core l) = (False, core l2)"
              using h by auto
            have "take (min n (length (state_hits env s))) (state_hits env s @ ys) = take n (state_hits env s)" for ys
              by (simp add: min_def)
            then show ?thesis using Cons n by (metis bfs_hits_simps(2))
          qed
          then show ?thesis
            using r True Cons h unfolding l by (auto simp: expand_result_def loop_result_def tally_append)
        next
          case more: False
          then have l: "search_loop env l = search_loop env l2"
            using Cons go False e by (simp add: search_loop.simps [of env l])
          have ns: "\<not> el_stopped l2" using r more by (auto simp: expand_result_def split: if_splits)
          have "loop_result env l2 (search_loop env l2)"
            using "1.IH"(2) [OF Cons refl go False e [symmetric] more ns] .
          moreover have "tally env (state_hits env s) (core l) = (False, core l2)"
            "bfs_hits env (el_queue l) = state_hits env s @ bfs_hits env (el_queue l2)"
            using r more ns h Cons by (auto simp: expand_result_def)
          ultimately show ?thesis unfolding l by (metis loop_result_append)
        qed
      qed
    qed
  qed
qed

section \<open>What the tally keeps\<close>

definition take_opt :: "nat option \<Rightarrow> 'a list \<Rightarrow> 'a list" where
  "take_opt limit xs = (case limit of None \<Rightarrow> xs | Some n \<Rightarrow> take n xs)"

lemma tally_paths:
  assumes "\<not> limit_reached env (length P)"
  shows "fst (snd (tally env ps (P, d, f))) =
    take_opt (env_limit env) (P @ filter (\<lambda>p. p \<notin> env_excluded env) ps)"
  using assms
proof (induction ps arbitrary: P d f)
  case Nil
  then show ?case by (auto simp: take_opt_def limit_reached_def split: option.splits)
next
  case (Cons p ps)
  show ?case
  proof (cases "p \<in> env_excluded env")
    case True
    with Cons.IH [OF Cons.prems, of "saturating_add d 1" True] Cons.prems show ?thesis by simp
  next
    case False
    show ?thesis
    proof (cases "limit_reached env (length (P @ [p]))")
      case True
      then have "env_limit env = Some (Suc (length P))"
        using Cons.prems by (auto simp: limit_reached_def split: option.splits)
      with True False show ?thesis by (simp add: take_opt_def)
    next
      case more: False
      with Cons.IH [OF more, of d True] False show ?thesis by simp
    qed
  qed
qed

lemma tally_found: "snd (snd (snd (tally env ps (P, d, f)))) = (f \<or> ps \<noteq> [])"
  by (induction ps arbitrary: P d f) (auto simp: Let_def split: prod.splits if_splits)

lemma saturating_add_assoc: "saturating_add (saturating_add a b) c = saturating_add a (b + c)"
  by (simp add: saturating_add_def)

lemma tally_duplicates:
  assumes "env_limit env = None"
  shows "tally env ps (P, d, f) =
    (False, P @ filter (\<lambda>p. p \<notin> env_excluded env) ps,
     (if filter (\<lambda>p. p \<in> env_excluded env) ps = [] then d
      else saturating_add d (length (filter (\<lambda>p. p \<in> env_excluded env) ps))), f \<or> ps \<noteq> [])"
  using assms
  by (induction ps arbitrary: P d f) (auto simp: limit_reached_def saturating_add_assoc)

end
