(* ===== verification/AmmGraphInv.thy ===== *)
theory AmmGraphInv
  imports AmmGraph
begin

text \<open>
  The representation invariant of the token graph and the proof that every operation of
  \<^verbatim>\<open>src/graph.rs\<close> keeps it. The abstract content of a graph is the map \<open>pool_tokens\<close>; the
  invariant says that node map, edge map, cached outgoing edges, pair index and the stored
  stable graph all describe exactly that map. The proofs are done once inside the locale
  of the stable graph.
\<close>

section \<open>Invariant\<close>

definition directed_pairs :: "address list \<Rightarrow> (address \<times> address) list" where
  "directed_pairs ts = concat (map (\<lambda>t. map (Pair t) (filter (\<lambda>u. u \<noteq> t) ts)) ts)"

definition token_used :: "('g, 'p) amm_graph \<Rightarrow> address \<Rightarrow> bool" where
  "token_used g t \<longleftrightarrow> (\<exists>p ts. pool_tokens g p = Some ts \<and> t \<in> set ts)"

definition wf_tokens :: "address list \<Rightarrow> bool" where
  "wf_tokens ts \<longleftrightarrow> sorted_wrt (<) ts \<and> 2 \<le> length ts"

text \<open>The cached outgoing edges a node must have.\<close>

definition out_spec :: "('g, 'p) amm_graph \<Rightarrow> nat \<Rightarrow> 'p cached_outgoing_edge set" where
  "out_spec g n =
     {e. \<exists>ts. pool_tokens g (cached_pool e) = Some ts \<and>
         edge_token_in e \<in> set ts \<and> edge_token_out e \<in> set ts \<and>
         edge_token_in e \<noteq> edge_token_out e \<and>
         node_map g (edge_token_in e) = Some n \<and>
         node_map g (edge_token_out e) = Some (edge_target e)}"

definition inv_nodes :: "('g, 'p) stable_graph_ops \<Rightarrow> ('g, 'p) amm_graph \<Rightarrow> bool" where
  "inv_nodes G g \<longleftrightarrow>
     finite (dom (node_map g)) \<and>
     (\<forall>t n. node_map g t = Some n \<longleftrightarrow> sg_node_weight G (graph g) n = Some t)"

definition inv_edges :: "('g, 'p) stable_graph_ops \<Rightarrow> ('g, 'p) amm_graph \<Rightarrow> bool" where
  "inv_edges G g \<longleftrightarrow>
     (\<forall>e p. sg_edge_weight G (graph g) e = Some (EdgeData p) \<longleftrightarrow>
            (\<exists>es. edge_map g p = Some es \<and> e \<in> set es)) \<and>
     dom (edge_map g) = dom (pool_tokens g)"

definition node_pair :: "('g, 'p) amm_graph \<Rightarrow> address \<times> address \<Rightarrow> (nat \<times> nat) option" where
  "node_pair g tu = Some (the (node_map g (fst tu)), the (node_map g (snd tu)))"

definition inv_pools ::
  "('g \<Rightarrow> nat \<Rightarrow> (nat \<times> nat) option) \<Rightarrow> ('g, 'p) amm_graph \<Rightarrow> bool" where
  "inv_pools ends g \<longleftrightarrow>
     finite (dom (pool_tokens g)) \<and>
     (\<forall>p ts. pool_tokens g p = Some ts \<longrightarrow>
        wf_tokens ts \<and> set ts \<subseteq> dom (node_map g) \<and>
        (\<exists>es. edge_map g p = Some es \<and> distinct es \<and>
              map (ends (graph g)) es = map (node_pair g) (directed_pairs ts)))"

definition inv_out :: "('g, 'p) amm_graph \<Rightarrow> bool" where
  "inv_out g \<longleftrightarrow>
     (\<forall>n. distinct (outgoing_edges g n) \<and> set (outgoing_edges g n) = out_spec g n)"

definition inv_pairs :: "('g, 'p) amm_graph \<Rightarrow> bool" where
  "inv_pairs g \<longleftrightarrow>
     multi_tight (pair_pools g) \<and>
     (\<forall>pair. multi_get (pair_pools g) pair =
        {p. \<exists>ts. pool_tokens g p = Some ts \<and> pair \<in> set (token_pairs ts)})"

definition graph_inv ::
  "('g, 'p) stable_graph_ops \<Rightarrow> ('g \<Rightarrow> nat \<Rightarrow> (nat \<times> nat) option) \<Rightarrow> ('g, 'p) amm_graph \<Rightarrow> bool" where
  "graph_inv G ends g \<longleftrightarrow>
     inv_nodes G g \<and> inv_edges G g \<and> inv_pools ends g \<and> inv_out g \<and> inv_pairs g"

text \<open>A graph without orphan tokens: every token node belongs to an indexed pool.\<close>

definition compact :: "('g, 'p) amm_graph \<Rightarrow> bool" where
  "compact g \<longleftrightarrow> dom (node_map g) = {t. token_used g t}"

lemmas inv_defs = inv_nodes_def inv_edges_def inv_pools_def inv_out_def inv_pairs_def graph_inv_def

lemma graph_inv_pool:
  assumes "graph_inv G ends g" and "pool_tokens g p = Some ts"
  obtains es where "wf_tokens ts" and "set ts \<subseteq> dom (node_map g)" and "edge_map g p = Some es"
    and "distinct es" and "map (ends (graph g)) es = map (node_pair g) (directed_pairs ts)"
  using assms unfolding graph_inv_def inv_pools_def by blast

lemma graph_inv_tokens:
  assumes "graph_inv G ends g" and "pool_tokens g p = Some ts"
  shows "wf_tokens ts" and "set ts \<subseteq> dom (node_map g)"
  using graph_inv_pool [OF assms] by blast+

lemma graph_inv_edge:
  "graph_inv G ends g \<Longrightarrow> edge_map g p = Some es \<Longrightarrow> e \<in> set es \<Longrightarrow>
     sg_edge_weight G (graph g) e = Some (EdgeData p)"
  unfolding graph_inv_def inv_edges_def by blast

lemma graph_inv_no_pool:
  "graph_inv G ends g \<Longrightarrow> edge_map g p = None \<longleftrightarrow> pool_tokens g p = None"
  unfolding graph_inv_def inv_edges_def by (metis domIff)

lemma token_used_remove:
  assumes "pool_tokens g1 = (pool_tokens g)(p := None)"
  shows "token_used g t \<longleftrightarrow> token_used g1 t \<or> (\<exists>us. pool_tokens g p = Some us \<and> t \<in> set us)"
proof
  assume "token_used g t"
  then obtain q us where q: "pool_tokens g q = Some us" "t \<in> set us" by (auto simp: token_used_def)
  then show "token_used g1 t \<or> (\<exists>us. pool_tokens g p = Some us \<and> t \<in> set us)"
    using assms by (cases "q = p") (auto simp: token_used_def)
qed (auto simp: token_used_def assms split: if_splits)

section \<open>Token lists\<close>

lemma wf_tokens_distinct: "wf_tokens ts \<Longrightarrow> distinct ts"
  by (auto simp: wf_tokens_def strict_sorted_iff)

lemma set_directed_pairs:
  "set (directed_pairs ts) = {(t, u). t \<in> set ts \<and> u \<in> set ts \<and> t \<noteq> u}"
  by (auto simp: directed_pairs_def)

lemma distinct_directed_pairs: "distinct ts \<Longrightarrow> distinct (directed_pairs ts)"
proof -
  assume d: "distinct ts"
  have "distinct (concat (map (\<lambda>t. map (Pair t) (filter (\<lambda>u. u \<noteq> t) ts)) us))"
    if "distinct us" for us
    using that d by (induction us) (auto simp: distinct_map inj_on_def)
  with d show ?thesis by (simp add: directed_pairs_def)
qed

lemma length_directed_pairs:
  assumes "distinct ts"
  shows "length (directed_pairs ts) = length ts * (length ts - 1)"
proof -
  have "length (filter (\<lambda>u. u \<noteq> t) ts) = length ts - 1" if "t \<in> set ts" for t
  proof -
    have "length (filter (\<lambda>u. u \<noteq> t) ts) = card (set ts - {t})"
      using assms by (simp add: distinct_card [symmetric] set_diff_eq)
    with that assms show ?thesis by (simp add: distinct_card)
  qed
  then have "map (\<lambda>t. length (filter (\<lambda>u. u \<noteq> t) ts)) ts = map (\<lambda>t. length ts - 1) ts"
    by simp
  then have "sum_list (map (\<lambda>t. length (filter (\<lambda>u. u \<noteq> t) ts)) ts) = length ts * (length ts - 1)"
    by (simp only: sum_list_triv of_nat_id)
  then show ?thesis
    by (simp add: directed_pairs_def length_concat comp_def)
qed

lemma wf_tokens_other:
  assumes "wf_tokens ts" and "t \<in> set ts"
  obtains u where "u \<in> set ts" and "u \<noteq> t"
proof -
  have "card (set ts) \<ge> 2"
    using assms(1) wf_tokens_distinct [of ts] by (simp add: wf_tokens_def distinct_card)
  then have "\<not> set ts \<subseteq> {t}"
    using card_mono [of "{t}" "set ts"] by auto
  then show ?thesis using that by blast
qed

lemma sort_remdups_adj_distinct:
  fixes ts :: "address list"
  shows "sorted ts \<Longrightarrow> distinct (remdups_adj ts)"
  by (induction ts rule: remdups_adj.induct) auto

lemma normalize_tokens_wf: "normalize_tokens ts = Inr us \<Longrightarrow> wf_tokens us \<and> set us = set ts"
  by (auto simp: normalize_tokens_def wf_tokens_def Let_def strict_sorted_iff
      intro: sorted_remdups_adj sort_remdups_adj_distinct split: if_splits)

section \<open>Adding a pool\<close>

lemma inv_nodes_inj:
  "inv_nodes G g \<Longrightarrow> node_map g t = Some n \<Longrightarrow> node_map g u = Some n \<Longrightarrow> t = u"
  unfolding inv_nodes_def by (metis option.inject)

text \<open>What creating nodes may change, and how.\<close>

definition nodes_extend ::
  "('g, 'p) stable_graph_ops \<Rightarrow> ('g \<Rightarrow> nat \<Rightarrow> (nat \<times> nat) option) \<Rightarrow> ('g, 'p) amm_graph \<Rightarrow>
     ('g, 'p) amm_graph \<Rightarrow> bool" where
  "nodes_extend G ends g g' \<longleftrightarrow>
     node_map g \<subseteq>\<^sub>m node_map g' \<and>
     sg_edge_weight G (graph g') = sg_edge_weight G (graph g) \<and>
     ends (graph g') = ends (graph g) \<and>
     edge_map g' = edge_map g \<and> pool_tokens g' = pool_tokens g \<and> pair_pools g' = pair_pools g \<and>
     outgoing_map g' = outgoing_map g \<and> version g' = version g"

lemma nodes_extend_trans:
  "nodes_extend G ends g1 g2 \<Longrightarrow> nodes_extend G ends g2 g3 \<Longrightarrow> nodes_extend G ends g1 g3"
  unfolding nodes_extend_def by (auto intro: map_le_trans)

text \<open>The nested index loop of \<^verbatim>\<open>add_pool_edges\<close> visits the directed pairs in order.\<close>

lemma fold_nth: "fold (\<lambda>i. h (xs ! i)) [0..<length xs] = fold h xs"
proof -
  have "fold h (map (nth xs) [0..<length xs]) = fold (\<lambda>i. h (xs ! i)) [0..<length xs]"
    by (simp add: fold_map comp_def)
  then show ?thesis by (simp add: map_nth)
qed

lemma fold_skip: "fold (\<lambda>x s. if P x then s else f x s) xs = fold f (filter (\<lambda>x. \<not> P x) xs)"
  by (induction xs) (auto simp: fun_eq_iff)

lemma fold_concat_map:
  "fold f (concat (map g xs)) = fold (\<lambda>x. fold f (g x)) xs"
  by (induction xs) (auto simp: fun_eq_iff)

lemma fold_directed_pairs:
  assumes "distinct ts"
  shows "fold (\<lambda>i. fold (\<lambda>j g. if i = j then g else f (ts ! i) (ts ! j) g) [0..<length ts])
           [0..<length ts]
       = fold (\<lambda>tu. f (fst tu) (snd tu)) (directed_pairs ts)"
proof -
  have inner: "fold (\<lambda>j g. if i = j then g else f (ts ! i) (ts ! j) g) [0..<length ts]
      = fold (f (ts ! i)) (filter (\<lambda>u. u \<noteq> ts ! i) ts)" if "i \<in> set [0..<length ts]" for i
  proof -
    have "fold (\<lambda>j g. if i = j then g else f (ts ! i) (ts ! j) g) [0..<length ts]
        = fold (\<lambda>j. (\<lambda>u g. if u = ts ! i then g else f (ts ! i) u g) (ts ! j)) [0..<length ts]"
      using that assms by (intro ext fold_cong) (auto simp: fun_eq_iff nth_eq_iff_index_eq)
    also have "\<dots> = fold (\<lambda>u g. if u = ts ! i then g else f (ts ! i) u g) ts"
      by (rule fold_nth)
    finally show ?thesis by (simp only: fold_skip)
  qed
  have "fold (\<lambda>i. fold (\<lambda>j g. if i = j then g else f (ts ! i) (ts ! j) g) [0..<length ts])
          [0..<length ts]
      = fold (\<lambda>i. (\<lambda>t. fold (f t) (filter (\<lambda>u. u \<noteq> t) ts)) (ts ! i)) [0..<length ts]"
    using inner by (intro ext fold_cong) simp_all
  also have "\<dots> = fold (\<lambda>t. fold (f t) (filter (\<lambda>u. u \<noteq> t) ts)) ts"
    by (rule fold_nth)
  finally show ?thesis
    by (simp add: directed_pairs_def fold_concat_map fold_map comp_def)
qed

definition cached_edge :: "('g, 'p) amm_graph \<Rightarrow> 'p \<Rightarrow> address \<times> address \<Rightarrow> 'p cached_outgoing_edge" where
  "cached_edge g p tu =
     \<lparr>edge_target = the (node_map g (snd tu)), edge_token_in = fst tu, edge_token_out = snd tu,
      cached_pool = p\<rparr>"

text \<open>What adding the edges \<open>es\<close> for the pairs \<open>ds\<close> of pool \<open>p\<close> changes.\<close>

definition edges_extend ::
  "('g, 'p) stable_graph_ops \<Rightarrow> ('g \<Rightarrow> nat \<Rightarrow> (nat \<times> nat) option) \<Rightarrow> 'p \<Rightarrow>
     (address \<times> address) list \<Rightarrow> nat list \<Rightarrow> ('g, 'p) amm_graph \<Rightarrow> ('g, 'p) amm_graph \<Rightarrow> bool" where
  "edges_extend G ends p ds es g g' \<longleftrightarrow>
     node_map g' = node_map g \<and> pool_tokens g' = pool_tokens g \<and>
     pair_pools g' = pair_pools g \<and> version g' = version g \<and>
     sg_node_weight G (graph g') = sg_node_weight G (graph g) \<and>
     edge_map g' = (if ds = [] then edge_map g else (edge_map g)(p \<mapsto> es)) \<and>
     (ds = [] \<longrightarrow> es = []) \<and> distinct es \<and>
     (\<forall>e \<in> set es. sg_edge_weight G (graph g) e = None) \<and>
     sg_edge_weight G (graph g') =
       (\<lambda>e. if e \<in> set es then Some (EdgeData p) else sg_edge_weight G (graph g) e) \<and>
     map (ends (graph g')) es = map (node_pair g) ds \<and>
     (\<forall>e. e \<notin> set es \<longrightarrow> ends (graph g') e = ends (graph g) e) \<and>
     (\<forall>n. outgoing_edges g' n =
            rev (map (cached_edge g p) (filter (\<lambda>tu. the (node_map g (fst tu)) = n) ds))
            @ outgoing_edges g n)"

context stable_digraph
begin

lemma get_or_create_node_spec:
  assumes "get_or_create_node G t g = (g', n)" and "inv_nodes G g"
  shows "inv_nodes G g' \<and> nodes_extend G ends g g' \<and> node_map g' t = Some n \<and>
         dom (node_map g') = insert t (dom (node_map g))"
proof (cases "node_map g t")
  case (Some m)
  with assms show ?thesis by (auto simp: get_or_create_node_def nodes_extend_def)
next
  case None
  obtain gr m where a: "sg_add_node G (graph g) t = (gr, m)" by fastforce
  from None assms a have g': "g' = g\<lparr>graph := gr, node_map := (node_map g)(t \<mapsto> n)\<rparr>" "m = n"
    by (auto simp: get_or_create_node_def)
  have "sg_node_weight G (graph g) k \<noteq> Some t" for k
    using None assms(2) unfolding inv_nodes_def by (metis option.distinct(1))
  moreover have "node_map g u \<noteq> Some n" for u
    using add_node [OF a] assms(2) g'(2) unfolding inv_nodes_def by auto
  ultimately show ?thesis
    using add_node [OF a] None assms(2) g'
    by (simp add: nodes_extend_def inv_nodes_def map_le_def) (auto simp: domIff)
qed

lemma create_nodes_spec:
  assumes "create_nodes G ts g = (g', ns)" and "inv_nodes G g"
  shows "inv_nodes G g' \<and> nodes_extend G ends g g' \<and> ns = map (\<lambda>t. the (node_map g' t)) ts \<and>
         dom (node_map g') = set ts \<union> dom (node_map g)"
  using assms
proof (induction ts arbitrary: g g' ns)
  case Nil
  then show ?case by (auto simp: nodes_extend_def)
next
  case (Cons t ts)
  obtain g1 n where s: "get_or_create_node G t g = (g1, n)" by fastforce
  obtain g2 ms where r: "create_nodes G ts g1 = (g2, ms)" by fastforce
  from Cons.prems s r have eq: "g' = g2" "ns = n # ms" by auto
  note h = get_or_create_node_spec [OF s Cons.prems(2)]
  with Cons.IH [OF r] have i: "inv_nodes G g2" "nodes_extend G ends g1 g2"
    "ms = map (\<lambda>t. the (node_map g2 t)) ts" "dom (node_map g2) = set ts \<union> dom (node_map g1)"
    by auto
  moreover from h i(2) have "node_map g2 t = Some n"
    by (auto simp: nodes_extend_def map_le_def dom_def)
  ultimately show ?case
    using h eq by (auto intro: nodes_extend_trans)
qed

text \<open>The effect of the edge loop on a graph whose nodes exist.\<close>

lemma add_edges_spec:
  assumes "\<forall>tu \<in> set ds. fst tu \<in> dom (node_map g) \<and> snd tu \<in> dom (node_map g)"
    and nodes: "inv_nodes G g" and fresh: "edge_map g p = None"
    and "g' = fold (\<lambda>tu. add_directed_edge G p (fst tu, the (node_map g (fst tu)))
                       (snd tu, the (node_map g (snd tu)))) ds g"
  shows "\<exists>es. edges_extend G ends p ds es g g'"
  using assms(1,4)
proof (induction ds arbitrary: g' rule: rev_induct)
  case Nil
  then show ?case by (auto simp: edges_extend_def intro!: exI [of _ "[]"])
next
  case (snoc tu ds)
  let ?step = "\<lambda>tu. add_directed_edge G p (fst tu, the (node_map g (fst tu)))
                       (snd tu, the (node_map g (snd tu)))"
  define h where "h = fold ?step ds g"
  have g': "g' = ?step tu h"
    using snoc.prems(2) by (simp add: h_def)
  obtain es where es: "edges_extend G ends p ds es g h"
    using snoc.IH [of h] snoc.prems(1) by (auto simp: h_def)
  obtain a b where ab: "node_map g (fst tu) = Some a" "node_map g (snd tu) = Some b"
    using snoc.prems(1) by auto
  obtain gr e where s: "sg_add_edge G (graph h) a b (EdgeData p) = (gr, e)" by fastforce
  have live: "sg_node_weight G (graph h) a \<noteq> None" "sg_node_weight G (graph h) b \<noteq> None"
    using es ab nodes by (auto simp: edges_extend_def inv_nodes_def)
  note ae = add_edge [OF live s]
  then have new: "e \<notin> set es" using es by (auto simp: edges_extend_def)
  have old: "(case edge_map h p of None \<Rightarrow> [] | Some es \<Rightarrow> es) = es"
    using es fresh by (auto simp: edges_extend_def split: if_splits)
  have f: "graph g' = gr" "edge_map g' = (edge_map h)(p \<mapsto> es @ [e])"
    using g' ab s old by (simp_all add: add_directed_edge_def)
  have out: "outgoing_edges g' n =
      (if n = a then [cached_edge g p tu] else []) @ outgoing_edges h n" for n
    using g' ab s by (simp add: add_directed_edge_def outgoing_edges_def cached_edge_def)
  have frame: "node_map g' = node_map h" "pool_tokens g' = pool_tokens h"
    "pair_pools g' = pair_pools h" "version g' = version h"
    using g' ab s by (simp_all add: add_directed_edge_def)
  have "map (ends gr) es = map (ends (graph h)) es"
    using ae new by auto
  also have "\<dots> = map (node_pair g) ds"
    using es by (simp add: edges_extend_def)
  finally have m: "map (ends gr) (es @ [e]) = map (node_pair g) (ds @ [tu])"
    using ae ab by (simp add: node_pair_def)
  have w: "sg_edge_weight G gr =
      (\<lambda>x. if x \<in> set (es @ [e]) then Some (EdgeData p) else sg_edge_weight G (graph g) x)"
    using ae es by (auto simp: edges_extend_def fun_eq_iff)
  have "sg_edge_weight G (graph g) e = None" and "\<forall>x. x \<notin> set (es @ [e]) \<longrightarrow> ends gr x = ends (graph g) x"
    using ae es new by (auto simp: edges_extend_def)
  moreover have "edge_map g' = (edge_map g)(p \<mapsto> es @ [e])"
    using f es by (simp add: edges_extend_def)
  ultimately have "edges_extend G ends p (ds @ [tu]) (es @ [e]) g g'"
    unfolding edges_extend_def f(1) w m using es ae new frame out ab
    by (simp add: edges_extend_def)
  then show ?case by blast
qed

lemma add_pool_edges_unfold:
  assumes nodes: "inv_nodes G g" and wf: "wf_tokens ts" and fresh: "edge_map g p = None"
  obtains h g2 es where "inv_nodes G h" and "nodes_extend G ends g h"
    and "dom (node_map h) = set ts \<union> dom (node_map g)"
    and "edges_extend G ends p (directed_pairs ts) es h g2"
    and "add_pool_edges G p ts g =
           (add_pool_pairs p ts g2)\<lparr>pool_tokens := (pool_tokens g)(p \<mapsto> ts)\<rparr>"
proof -
  obtain h ns where c: "create_nodes G ts g = (h, ns)" by fastforce
  note hs = create_nodes_spec [OF c nodes]
  let ?f = "\<lambda>t u. add_directed_edge G p (t, the (node_map h t)) (u, the (node_map h u))"
  define g2 where "g2 = fold (\<lambda>tu. ?f (fst tu) (snd tu)) (directed_pairs ts) h"
  have len: "length ns = length ts" using hs by simp
  have "fold (\<lambda>i. fold (\<lambda>j g. if i = j then g
               else add_directed_edge G p (ts ! i, ns ! i) (ts ! j, ns ! j) g) [0..<length ns])
          [0..<length ns] h
      = fold (\<lambda>i. fold (\<lambda>j g. if i = j then g else ?f (ts ! i) (ts ! j) g) [0..<length ts])
          [0..<length ts] h"
    using hs by (intro fold_cong ext) (auto simp: len)
  also have "\<dots> = g2"
    unfolding g2_def by (rule fun_cong [OF fold_directed_pairs [OF wf_tokens_distinct [OF wf], of ?f]])
  finally have loop: "fold (\<lambda>i. fold (\<lambda>j g. if i = j then g
               else add_directed_edge G p (ts ! i, ns ! i) (ts ! j, ns ! j) g) [0..<length ns])
          [0..<length ns] h = g2" .
  have "edge_map h p = None" using hs fresh by (simp add: nodes_extend_def)
  then obtain es where es: "edges_extend G ends p (directed_pairs ts) es h g2"
    using add_edges_spec [of "directed_pairs ts" h p g2] hs
    by (auto simp: g2_def set_directed_pairs)
  have "pool_tokens g2 = pool_tokens g"
    using es hs by (simp add: edges_extend_def nodes_extend_def)
  then have "add_pool_edges G p ts g =
      (add_pool_pairs p ts g2)\<lparr>pool_tokens := (pool_tokens g)(p \<mapsto> ts)\<rparr>"
    by (simp add: add_pool_edges_def c loop Let_def add_pool_pairs_def)
  with es hs show thesis by (intro that [of h es g2]) auto
qed

text \<open>The parts of the invariant after adding a pool.\<close>

lemma pools_after_add:
  assumes inv: "graph_inv G ends g" and new: "pool_tokens g p = None" and wf: "wf_tokens ts"
    and h: "nodes_extend G ends g h" "dom (node_map h) = set ts \<union> dom (node_map g)"
    and e: "edges_extend G ends p (directed_pairs ts) es h g2"
    and g': "pool_tokens g' = (pool_tokens g)(p \<mapsto> ts)" "edge_map g' = edge_map g2"
      "node_map g' = node_map g2" "graph g' = graph g2"
  shows "inv_pools ends g'"
proof -
  have np: "node_pair g' = node_pair h"
    using g' e by (simp add: edges_extend_def node_pair_def fun_eq_iff)
  have nonempty: "directed_pairs ts \<noteq> []"
    using length_directed_pairs [OF wf_tokens_distinct [OF wf]] wf by (auto simp: wf_tokens_def)
  have other: "\<exists>es. edge_map g' q = Some es \<and> distinct es \<and>
      map (ends (graph g')) es = map (node_pair g') (directed_pairs us)"
    if q: "q \<noteq> p" and us: "pool_tokens g q = Some us" for q us
  proof -
    from inv us obtain fs where fs: "edge_map g q = Some fs" "distinct fs"
      "map (ends (graph g)) fs = map (node_pair g) (directed_pairs us)" and sub: "set us \<subseteq> dom (node_map g)"
      using graph_inv_pool [OF inv us] by blast
    have "x \<notin> set es" if "x \<in> set fs" for x
      using graph_inv_edge [OF inv fs(1) that] e h by (auto simp: edges_extend_def nodes_extend_def)
    then have "map (ends (graph g2)) fs = map (ends (graph g)) fs"
      using e h by (auto simp: edges_extend_def nodes_extend_def)
    moreover have "map (node_pair g) (directed_pairs us) = map (node_pair h) (directed_pairs us)"
      using sub h(1) by (auto simp: set_directed_pairs node_pair_def nodes_extend_def map_le_def subset_iff)
    ultimately show ?thesis
      using fs q e h g' np nonempty by (auto simp: edges_extend_def nodes_extend_def)
  qed
  show ?thesis
    unfolding inv_pools_def
  proof (intro conjI allI impI)
    show "finite (dom (pool_tokens g'))" using inv g' by (simp add: inv_defs)
  next
    fix q us assume a: "pool_tokens g' q = Some us"
    show "wf_tokens us"
      using a wf g' graph_inv_tokens(1) [OF inv] by (auto split: if_splits)
    have "dom (node_map g') = set ts \<union> dom (node_map g)"
      using g' e h by (simp add: edges_extend_def)
    then show "set us \<subseteq> dom (node_map g')"
      using a g' graph_inv_tokens(2) [OF inv] by (auto split: if_splits)
    show "\<exists>es. edge_map g' q = Some es \<and> distinct es \<and>
        map (ends (graph g')) es = map (node_pair g') (directed_pairs us)"
    proof (cases "q = p")
      case True
      with a g' have "us = ts" by simp
      with True e g' np nonempty show ?thesis by (auto simp: edges_extend_def)
    qed (use a g' other in auto)
  qed
qed

lemma out_after_add:
  assumes inv: "graph_inv G ends g" and new: "pool_tokens g p = None" and wf: "wf_tokens ts"
    and h: "inv_nodes G h" "nodes_extend G ends g h" "dom (node_map h) = set ts \<union> dom (node_map g)"
    and e: "edges_extend G ends p (directed_pairs ts) es h g2"
    and g': "pool_tokens g' = (pool_tokens g)(p \<mapsto> ts)" "outgoing_map g' = outgoing_map g2"
      "node_map g' = node_map g2"
  shows "inv_out g'"
  unfolding inv_out_def
proof (intro allI conjI)
  fix n
  let ?new = "map (cached_edge h p) (filter (\<lambda>tu. the (node_map h (fst tu)) = n) (directed_pairs ts))"
  have og: "outgoing_edges g' n = rev ?new @ outgoing_edges g n"
    using e h(2) g' by (simp add: edges_extend_def nodes_extend_def outgoing_edges_def)
  have nm: "node_map g' = node_map h" using e g' by (simp add: edges_extend_def)
  have old: "set (outgoing_edges g n) = out_spec g n" "distinct (outgoing_edges g n)"
    using inv by (simp_all add: inv_defs)
  have "cached_pool x \<noteq> p" if "x \<in> out_spec g n" for x
    using that new by (auto simp: out_spec_def)
  moreover have "cached_pool x = p" if "x \<in> set ?new" for x
    using that by (auto simp: cached_edge_def)
  moreover have "distinct ?new"
    using distinct_directed_pairs [OF wf_tokens_distinct [OF wf]]
    by (auto simp: distinct_map inj_on_def cached_edge_def)
  ultimately show "distinct (outgoing_edges g' n)"
    using og old by (simp only: distinct_append distinct_rev set_rev) blast
  have mono: "node_map h t = Some m" if "node_map g t = Some m" for t m
    using that h(2) by (auto simp: nodes_extend_def map_le_def dom_def)
  have same: "node_map h t = node_map g t" if "pool_tokens g q = Some us" and "t \<in> set us" for t q us
  proof -
    have "t \<in> dom (node_map g)" using graph_inv_tokens(2) [OF inv that(1)] that(2) by blast
    then show ?thesis using mono by force
  qed
  have live: "node_map h t = Some (the (node_map h t))" if "t \<in> set ts" for t
  proof -
    have "t \<in> dom (node_map h)" using h(3) that by blast
    then show ?thesis by force
  qed
  have "out_spec g' n = out_spec g n \<union> set ?new"
  proof (rule set_eqI)
    fix x
    show "x \<in> out_spec g' n \<longleftrightarrow> x \<in> out_spec g n \<union> set ?new"
    proof (cases "cached_pool x = p")
      case True
      have "x \<in> set ?new" if "x \<in> out_spec g' n"
      proof -
        have "x = cached_edge h p (edge_token_in x, edge_token_out x)"
          using that True nm by (cases x) (auto simp: out_spec_def cached_edge_def)
        moreover have "(edge_token_in x, edge_token_out x) \<in> set (directed_pairs ts)"
          and "the (node_map h (edge_token_in x)) = n"
          using that True nm g'(1) by (simp_all add: out_spec_def set_directed_pairs)
        ultimately show ?thesis by fastforce
      qed
      moreover have "x \<in> out_spec g' n" if "x \<in> set ?new"
      proof -
        from that obtain t u where "t \<in> set ts" "u \<in> set ts" "t \<noteq> u" "the (node_map h t) = n"
          "x = cached_edge h p (t, u)" by (auto simp: set_directed_pairs)
        with live [of t] live [of u] show ?thesis
          using nm g'(1) by (simp add: out_spec_def cached_edge_def)
      qed
      ultimately have "x \<in> out_spec g' n \<longleftrightarrow> x \<in> set ?new" by blast
      with True new show ?thesis by (auto simp: out_spec_def)
    next
      case False
      then have "x \<in> out_spec g' n \<longleftrightarrow> x \<in> out_spec g n"
        by (auto simp: out_spec_def nm g'(1) same)
      with False show ?thesis by (auto simp: cached_edge_def)
    qed
  qed
  with og old show "set (outgoing_edges g' n) = out_spec g' n"
    by (simp only: set_append set_rev) blast
qed

lemma add_pool_edges_spec:
  assumes inv: "graph_inv G ends g" and new: "pool_tokens g p = None" and wf: "wf_tokens ts"
  defines "g' \<equiv> add_pool_edges G p ts g"
  shows "graph_inv G ends g'" and "pool_tokens g' = (pool_tokens g)(p \<mapsto> ts)"
    and "dom (node_map g') = set ts \<union> dom (node_map g)" and "version g' = version g"
proof -
  have none: "edge_map g p = None" using graph_inv_no_pool [OF inv] new by blast
  have inn: "inv_nodes G g" using inv by (simp add: graph_inv_def)
  obtain h g2 es where h: "inv_nodes G h" "nodes_extend G ends g h"
      "dom (node_map h) = set ts \<union> dom (node_map g)"
    and e: "edges_extend G ends p (directed_pairs ts) es h g2"
    and eq: "add_pool_edges G p ts g =
           (add_pool_pairs p ts g2)\<lparr>pool_tokens := (pool_tokens g)(p \<mapsto> ts)\<rparr>"
    by (rule add_pool_edges_unfold [OF inn wf none])
  have f: "pool_tokens g' = (pool_tokens g)(p \<mapsto> ts)" "edge_map g' = edge_map g2"
      "node_map g' = node_map g2" "graph g' = graph g2" "outgoing_map g' = outgoing_map g2"
      "version g' = version g2"
      "pair_pools g' = fold (\<lambda>pair m. multi_insert m pair p) (token_pairs ts) (pair_pools g2)"
    unfolding g'_def eq by (simp_all add: add_pool_pairs_def)
  show "pool_tokens g' = (pool_tokens g)(p \<mapsto> ts)" by fact
  show "dom (node_map g') = set ts \<union> dom (node_map g)" and "version g' = version g"
    using f h e by (simp_all add: edges_extend_def nodes_extend_def)
  have nonempty: "directed_pairs ts \<noteq> []"
    using length_directed_pairs [OF wf_tokens_distinct [OF wf]] wf by (auto simp: wf_tokens_def)
  have "inv_nodes G g'"
    using h(1) e f by (simp add: inv_nodes_def edges_extend_def)
  moreover have "inv_edges G g'"
  proof -
    have em: "edge_map g' = (edge_map g)(p \<mapsto> es)"
      and w: "sg_edge_weight G (graph g') =
        (\<lambda>e. if e \<in> set es then Some (EdgeData p) else sg_edge_weight G (graph g) e)"
      and fr: "\<forall>e \<in> set es. sg_edge_weight G (graph g) e = None"
      using nonempty h(2) e f by (auto simp: edges_extend_def nodes_extend_def)
    have "e \<notin> set es" if "edge_map g q = Some fs" and "e \<in> set fs" for e q fs
      using graph_inv_edge [OF inv that] fr by auto
    moreover have "dom (edge_map g') = dom (pool_tokens g')"
      using inv em f(1) by (simp add: graph_inv_def inv_edges_def)
    ultimately show ?thesis
      using inv none by (auto simp: graph_inv_def inv_edges_def em w split: if_splits)
  qed
  moreover have "inv_pools ends g'"
    by (rule pools_after_add [OF inv new wf h(2,3) e f(1-4)])
  moreover have "inv_out g'"
    by (rule out_after_add [OF inv new wf h e f(1,5,3)])
  moreover have "inv_pairs g'"
  proof -
    have "pair_pools g2 = pair_pools g" using e h by (simp add: edges_extend_def nodes_extend_def)
    then show ?thesis
      using inv new f by (auto simp: graph_inv_def inv_pairs_def multi_tight_fold_insert
          multi_get_fold_insert)
  qed
  ultimately show "graph_inv G ends g'" by (simp add: graph_inv_def)
qed

end

section \<open>Removing a pool\<close>

text \<open>What one successful mutation of a graph by a pool does: the abstract content changes at
  that pool only, the invariant is kept, and the version advances exactly when the content
  changes.\<close>

definition pool_step ::
  "('g, 'p) amm_graph \<Rightarrow> ('g, 'p) amm_graph \<Rightarrow> 'p \<Rightarrow> address list option \<Rightarrow> graph_pool_mutation \<Rightarrow> bool" where
  "pool_step g g' p ts mutation \<longleftrightarrow>
     pool_tokens g' = (pool_tokens g)(p := ts) \<and>
     (topology_changed mutation \<longleftrightarrow> pool_tokens g p \<noteq> ts) \<and>
     (if topology_changed mutation then checked_next (version g) = Some (version g') else g' = g) \<and>
     (compact g \<longrightarrow> compact g')"

lemma retain_frame:
  "node_map (fold (retain_other_pools p) ts g) = node_map g"
  "graph (fold (retain_other_pools p) ts g) = graph g"
  "edge_map (fold (retain_other_pools p) ts g) = edge_map g"
  "pool_tokens (fold (retain_other_pools p) ts g) = pool_tokens g"
  "pair_pools (fold (retain_other_pools p) ts g) = pair_pools g"
  "version (fold (retain_other_pools p) ts g) = version g"
  by (induction ts arbitrary: g) (auto simp: retain_other_pools_def split: option.splits)

lemma outgoing_retain:
  "outgoing_edges (fold (retain_other_pools p) ts g) n =
     (if \<exists>t \<in> set ts. node_map g t = Some n
      then filter (\<lambda>e. cached_pool e \<noteq> p) (outgoing_edges g n) else outgoing_edges g n)"
proof (induction ts arbitrary: g)
  case (Cons t ts)
  have step: "outgoing_edges (retain_other_pools p t g) n =
      (if node_map g t = Some n then filter (\<lambda>e. cached_pool e \<noteq> p) (outgoing_edges g n)
       else outgoing_edges g n)"
    by (auto simp: retain_other_pools_def outgoing_edges_def split: option.splits)
  have "node_map (retain_other_pools p t g) = node_map g"
    by (simp add: retain_other_pools_def split: option.splits)
  then show ?case using Cons.IH [of "retain_other_pools p t g"] step by auto
qed simp

context stable_digraph
begin

lemma remove_absent_pool:
  assumes "graph_inv G ends g" and "pool_tokens g p = None"
  shows "remove_pool_edges G p g = (g, 0, [])"
proof -
  have "edge_map g p = None" using graph_inv_no_pool [OF assms(1)] assms(2) by blast
  moreover have "(pool_tokens g)(p := None) = pool_tokens g"
    using assms(2) by (simp add: fun_upd_idem)
  ultimately show ?thesis
    using assms(2) by (simp add: remove_pool_edges_def remove_pool_pairs_def)
qed

text \<open>Removing an indexed pool, with the fields of the result spelled out.\<close>

lemma remove_present_pool:
  assumes inv: "graph_inv G ends g" and p: "pool_tokens g p = Some ts"
    and es: "edge_map g p = Some es"
    and r: "remove_pool_edges G p g = (g', removed, tokens)"
  shows "tokens = ts" and "removed = length es" and "version g' = version g"
    and "pool_tokens g' = (pool_tokens g)(p := None)"
    and "edge_map g' = (edge_map g)(p := None)" and "node_map g' = node_map g"
    and "pair_pools g' = fold (\<lambda>pair m. multi_remove m pair p) (token_pairs ts) (pair_pools g)"
    and "sg_node_weight G (graph g') = sg_node_weight G (graph g)"
    and "sg_edge_weight G (graph g') = (\<lambda>e. if e \<in> set es then None else sg_edge_weight G (graph g) e)"
    and "ends (graph g') = (\<lambda>e. if e \<in> set es then None else ends (graph g) e)"
    and "outgoing_edges g' n = filter (\<lambda>e. cached_pool e \<noteq> p) (outgoing_edges g n)"
proof -
  let ?g2 = "g\<lparr>pool_tokens := (pool_tokens g)(p := None),
      pair_pools := fold (\<lambda>pair m. multi_remove m pair p) (token_pairs ts) (pair_pools g),
      edge_map := (edge_map g)(p := None),
      graph := fold (\<lambda>e gr. sg_remove_edge G gr e) es (graph g)\<rparr>"
  have eq: "g' = fold (retain_other_pools p) ts ?g2" and "tokens = ts" and "removed = length es"
    using r p es by (auto simp: remove_pool_edges_def remove_pool_pairs_def Let_def)
  then show "tokens = ts" and "removed = length es" by simp_all
  show "version g' = version g" "pool_tokens g' = (pool_tokens g)(p := None)"
    "edge_map g' = (edge_map g)(p := None)" "node_map g' = node_map g"
    "pair_pools g' = fold (\<lambda>pair m. multi_remove m pair p) (token_pairs ts) (pair_pools g)"
    "sg_node_weight G (graph g') = sg_node_weight G (graph g)"
    "sg_edge_weight G (graph g') = (\<lambda>e. if e \<in> set es then None else sg_edge_weight G (graph g) e)"
    "ends (graph g') = (\<lambda>e. if e \<in> set es then None else ends (graph g) e)"
    unfolding eq retain_frame by (simp_all add: remove_edges)
  have "set (outgoing_edges g n) = out_spec g n" using inv by (simp add: inv_defs)
  then have "cached_pool e \<noteq> p" if "e \<in> set (outgoing_edges g n)"
      and "\<not> (\<exists>t \<in> set ts. node_map g t = Some n)" for e
    using that p by (auto simp: out_spec_def)
  then show "outgoing_edges g' n = filter (\<lambda>e. cached_pool e \<noteq> p) (outgoing_edges g n)"
    unfolding eq outgoing_retain by (auto simp: outgoing_edges_def intro!: filter_True [symmetric])
qed

lemma remove_pool_edges_inv:
  assumes inv: "graph_inv G ends g" and r: "remove_pool_edges G p g = (g', removed, tokens)"
  shows "graph_inv G ends g'"
proof (cases "pool_tokens g p")
  case None
  with remove_absent_pool [OF inv] r inv show ?thesis by simp
next
  case (Some ts)
  obtain es where wf: "wf_tokens ts" and es: "edge_map g p = Some es" "distinct es"
    by (rule graph_inv_pool [OF inv Some])
  note f = remove_present_pool [OF inv Some es(1) r]
  have keep: "e \<notin> set es" if "edge_map g q = Some fs" and "e \<in> set fs" and "q \<noteq> p" for e q fs
    using graph_inv_edge [OF inv that(1,2)] graph_inv_edge [OF inv es(1)] that(3) by auto
  have "inv_nodes G g'" using inv f by (simp add: graph_inv_def inv_nodes_def)
  moreover have "inv_edges G g'"
    using inv es(1) keep by (auto simp: graph_inv_def inv_edges_def f split: if_splits)
  moreover have "inv_pools ends g'"
    unfolding inv_pools_def
  proof (intro conjI allI impI)
    show "finite (dom (pool_tokens g'))" using inv f(4) by (simp add: inv_defs)
    fix q us assume "pool_tokens g' q = Some us"
    then have q: "q \<noteq> p" "pool_tokens g q = Some us" by (auto simp: f(4) split: if_splits)
    obtain fs where fs: "wf_tokens us" "set us \<subseteq> dom (node_map g)" "edge_map g q = Some fs"
      "distinct fs" "map (ends (graph g)) fs = map (node_pair g) (directed_pairs us)"
      by (rule graph_inv_pool [OF inv q(2)])
    show "wf_tokens us" and "set us \<subseteq> dom (node_map g')" using fs f(6) by simp_all
    have "map (ends (graph g')) fs = map (ends (graph g)) fs"
      using keep [OF fs(3) _ q(1)] by (simp add: f(10))
    moreover have "node_pair g' = node_pair g" by (simp add: node_pair_def fun_eq_iff f(6))
    ultimately show "\<exists>es. edge_map g' q = Some es \<and> distinct es \<and>
        map (ends (graph g')) es = map (node_pair g') (directed_pairs us)"
      using fs q(1) f(5) by auto
  qed
  moreover have "inv_out g'"
    unfolding inv_out_def
  proof (intro allI conjI)
    fix n
    show "distinct (outgoing_edges g' n)" using inv by (simp add: f(11) inv_defs)
    have "set (outgoing_edges g n) = out_spec g n" using inv by (simp add: inv_defs)
    then show "set (outgoing_edges g' n) = out_spec g' n"
      by (auto simp: f(4,6,11) out_spec_def)
  qed
  moreover have "inv_pairs g'"
    using inv Some by (auto simp: graph_inv_def inv_pairs_def f(4,7) multi_tight_fold_remove
        multi_get_fold_remove)
  ultimately show ?thesis by (simp add: graph_inv_def)
qed

lemma remove_pool_edges_spec:
  assumes inv: "graph_inv G ends g" and r: "remove_pool_edges G p g = (g', removed, tokens)"
  shows "pool_tokens g' = (pool_tokens g)(p := None)" and "node_map g' = node_map g"
    and "version g' = version g"
    and "tokens = (case pool_tokens g p of None \<Rightarrow> [] | Some ts \<Rightarrow> ts)"
    and "removed = length tokens * (length tokens - 1)"
    and "removed = 0 \<longleftrightarrow> pool_tokens g p = None"
proof -
  have "pool_tokens g' = (pool_tokens g)(p := None) \<and> node_map g' = node_map g \<and>
    version g' = version g \<and> tokens = (case pool_tokens g p of None \<Rightarrow> [] | Some ts \<Rightarrow> ts) \<and>
    removed = length tokens * (length tokens - 1) \<and> (removed = 0 \<longleftrightarrow> pool_tokens g p = None)"
  proof (cases "pool_tokens g p")
    case None
    with remove_absent_pool [OF inv] r show ?thesis by (simp add: fun_upd_idem)
  next
    case (Some ts)
    obtain es where wf: "wf_tokens ts" and es: "edge_map g p = Some es"
      "map (ends (graph g)) es = map (node_pair g) (directed_pairs ts)"
      by (rule graph_inv_pool [OF inv Some])
    from es(2) have "length es = length (directed_pairs ts)" by (metis length_map)
    then have "length es = length ts * (length ts - 1)"
      using wf by (simp add: length_directed_pairs wf_tokens_distinct)
    with remove_present_pool [OF inv Some es(1) r] Some wf show ?thesis
      by (auto simp: wf_tokens_def)
  qed
  then show "pool_tokens g' = (pool_tokens g)(p := None)" and "node_map g' = node_map g"
    and "version g' = version g"
    and "tokens = (case pool_tokens g p of None \<Rightarrow> [] | Some ts \<Rightarrow> ts)"
    and "removed = length tokens * (length tokens - 1)"
    and "removed = 0 \<longleftrightarrow> pool_tokens g p = None"
    by blast+
qed

section \<open>Pruning orphan tokens\<close>

lemma incident_iff_used:
  assumes inv: "graph_inv G ends g" and n: "node_map g t = Some n"
  shows "sg_edges_directed G (graph g) n Outgoing \<noteq> [] \<or> sg_edges_directed G (graph g) n Incoming \<noteq> []
     \<longleftrightarrow> token_used g t"
proof
  assume "token_used g t"
  then obtain p ts where p: "pool_tokens g p = Some ts" and t: "t \<in> set ts"
    by (auto simp: token_used_def)
  obtain es where wf: "wf_tokens ts" and es: "map (ends (graph g)) es = map (node_pair g) (directed_pairs ts)"
    by (rule graph_inv_pool [OF inv p])
  obtain u where "u \<in> set ts" "u \<noteq> t" by (rule wf_tokens_other [OF wf t])
  then have "(t, u) \<in> set (directed_pairs ts)" using t by (auto simp: set_directed_pairs)
  then have "node_pair g (t, u) \<in> set (map (ends (graph g)) es)" unfolding es by auto
  then obtain e where "ends (graph g) e = Some (n, the (node_map g u))"
    using n by (auto simp: node_pair_def)
  then show "sg_edges_directed G (graph g) n Outgoing \<noteq> [] \<or> sg_edges_directed G (graph g) n Incoming \<noteq> []"
    using no_incident_edges by blast
next
  assume "sg_edges_directed G (graph g) n Outgoing \<noteq> [] \<or> sg_edges_directed G (graph g) n Incoming \<noteq> []"
  then obtain e a b where e: "ends (graph g) e = Some (a, b)" and ab: "a = n \<or> b = n"
    using no_incident_edges by blast
  then obtain d where "sg_edge_weight G (graph g) e = Some d"
    using ends_live [of "graph g" e] by (cases "sg_edge_weight G (graph g) e") auto
  then obtain p es where es: "edge_map g p = Some es" "e \<in> set es"
    using inv by (cases d) (auto simp: graph_inv_def inv_edges_def)
  then obtain ts where p: "pool_tokens g p = Some ts"
    using graph_inv_no_pool [OF inv, of p] by fastforce
  obtain es' where es': "edge_map g p = Some es'" "set ts \<subseteq> dom (node_map g)"
    "map (ends (graph g)) es' = map (node_pair g) (directed_pairs ts)"
    by (rule graph_inv_pool [OF inv p])
  have "ends (graph g) e \<in> set (map (node_pair g) (directed_pairs ts))"
    unfolding es'(3) [symmetric] using es es'(1) by simp
  then obtain tu where tu: "tu \<in> set (directed_pairs ts)" "Some (a, b) = node_pair g tu"
    unfolding e by auto
  then have tt: "fst tu \<in> set ts" "snd tu \<in> set ts"
    "a = the (node_map g (fst tu))" "b = the (node_map g (snd tu))"
    by (auto simp: set_directed_pairs node_pair_def)
  have "u = t" if "u \<in> set ts" and "the (node_map g u) = n" for u
  proof -
    from that(1) es'(2) obtain m where "node_map g u = Some m" by blast
    with that(2) have "node_map g u = Some n" by simp
    then show ?thesis
      using inv_nodes_inj [of G g u n t] n inv by (simp add: graph_inv_def)
  qed
  then have "fst tu = t \<or> snd tu = t" using ab tt by auto
  then show "token_used g t" using tt p by (auto simp: token_used_def)
qed

lemma prune_token_fields:
  assumes inv: "graph_inv G ends g"
  shows "pool_tokens (prune_token G t g) = pool_tokens g"
    and "version (prune_token G t g) = version g"
    and "node_map (prune_token G t g) = (if token_used g t then node_map g else (node_map g)(t := None))"
proof -
  show "pool_tokens (prune_token G t g) = pool_tokens g" "version (prune_token G t g) = version g"
    by (simp_all add: prune_token_def split: option.splits)
  show "node_map (prune_token G t g) = (if token_used g t then node_map g else (node_map g)(t := None))"
    using incident_iff_used [OF inv, of t] by (auto simp: prune_token_def fun_upd_idem split: option.splits)
qed

lemma prune_token_inv:
  assumes inv: "graph_inv G ends g"
  shows "graph_inv G ends (prune_token G t g)"
proof (cases "node_map g t = None \<or> token_used g t")
  case True
  then have "prune_token G t g = g"
    using incident_iff_used [OF inv, of t] by (auto simp: prune_token_def split: option.splits)
  with inv show ?thesis by simp
next
  case False
  then obtain n where n: "node_map g t = Some n" and unused: "\<not> token_used g t" by auto
  have iso: "sg_edges_directed G (graph g) n Outgoing = []" "sg_edges_directed G (graph g) n Incoming = []"
    using incident_iff_used [OF inv n] unused by auto
  let ?g = "prune_token G t g"
  have eq: "?g = g\<lparr>graph := sg_remove_node G (graph g) n,
      outgoing_map := (outgoing_map g)(n := None), node_map := (node_map g)(t := None)\<rparr>"
    using n iso by (simp add: prune_token_def)
  note rm = remove_isolated_node [OF iso]
  have inn: "inv_nodes G g" using inv by (simp add: graph_inv_def)
  have other: "((node_map g)(t := None)) u = node_map g u" if "pool_tokens g p = Some ts" and "u \<in> set ts" for p ts u
    using that unused by (auto simp: token_used_def)
  have w: "sg_node_weight G (graph ?g) = (sg_node_weight G (graph g))(n := None)"
    by (simp add: eq remove_node)
  have uniq: "m = n" if "sg_node_weight G (graph g) m = Some t" for m
    using that inn n unfolding inv_nodes_def by (metis option.inject)
  have "inv_nodes G ?g"
    using inn uniq inv_nodes_inj [OF inn n] unfolding inv_nodes_def w by (auto simp: eq)
  moreover have "inv_edges G ?g" using inv by (simp add: graph_inv_def inv_edges_def eq rm)
  moreover have "inv_pools ends ?g"
    unfolding inv_pools_def
  proof (intro conjI allI impI)
    show "finite (dom (pool_tokens ?g))" using inv by (simp add: inv_defs eq)
    fix p ts assume "pool_tokens ?g p = Some ts"
    then have p: "pool_tokens g p = Some ts" by (simp add: eq)
    obtain es where es: "wf_tokens ts" "set ts \<subseteq> dom (node_map g)" "edge_map g p = Some es"
      "distinct es" "map (ends (graph g)) es = map (node_pair g) (directed_pairs ts)"
      by (rule graph_inv_pool [OF inv p])
    show "wf_tokens ts" by fact
    show "set ts \<subseteq> dom (node_map ?g)" using es(2) unused p by (auto simp: eq token_used_def)
    have "t \<notin> set ts" using unused p by (auto simp: token_used_def)
    then have "map (node_pair ?g) (directed_pairs ts) = map (node_pair g) (directed_pairs ts)"
      by (auto simp: node_pair_def eq set_directed_pairs)
    then show "\<exists>es. edge_map ?g p = Some es \<and> distinct es \<and>
        map (ends (graph ?g)) es = map (node_pair ?g) (directed_pairs ts)"
      using es by (auto simp: eq rm)
  qed
  moreover have "inv_out ?g"
    unfolding inv_out_def
  proof (intro allI conjI)
    fix m
    have old: "set (outgoing_edges g k) = out_spec g k" "distinct (outgoing_edges g k)" for k
      using inv by (simp_all add: inv_defs)
    have out: "outgoing_edges ?g m = (if m = n then [] else outgoing_edges g m)"
      by (simp add: eq outgoing_edges_def)
    then show "distinct (outgoing_edges ?g m)" using old by simp
    have "out_spec g n = {}"
      using unused inv_nodes_inj [OF inn n] by (auto simp: out_spec_def token_used_def)
    moreover have "out_spec ?g m = out_spec g m" if "m \<noteq> n"
      using other by (auto simp: out_spec_def eq simp del: fun_upd_apply)
    moreover have "out_spec ?g n = {}"
      using inv_nodes_inj [OF inn n] by (auto simp: out_spec_def eq split: if_splits)
    ultimately show "set (outgoing_edges ?g m) = out_spec ?g m"
      using out old by auto
  qed
  moreover have "inv_pairs ?g" using inv by (simp add: graph_inv_def inv_pairs_def eq)
  ultimately show ?thesis by (simp add: graph_inv_def)
qed

lemma prune_orphan_tokens_spec:
  assumes "graph_inv G ends g"
  shows "graph_inv G ends (prune_orphan_tokens G ts g) \<and>
         pool_tokens (prune_orphan_tokens G ts g) = pool_tokens g \<and>
         version (prune_orphan_tokens G ts g) = version g \<and>
         dom (node_map (prune_orphan_tokens G ts g)) =
           dom (node_map g) - {t \<in> set ts. \<not> token_used g t}"
  using assms
proof (induction ts arbitrary: g)
  case Nil
  then show ?case by (simp add: prune_orphan_tokens_def)
next
  case (Cons t ts)
  note f = prune_token_fields [OF Cons.prems, of t]
  have "token_used (prune_token G t g) u = token_used g u" for u
    by (simp add: token_used_def f)
  with Cons.IH [OF prune_token_inv [OF Cons.prems, of t]] f show ?case
    by (auto simp: prune_orphan_tokens_def split: if_splits)
qed

section \<open>Public operations\<close>

lemma graph_inv_version: "graph_inv G ends (g\<lparr>version := v\<rparr>) \<longleftrightarrow> graph_inv G ends g"
proof -
  have "out_spec (g\<lparr>version := v\<rparr>) = out_spec g" "outgoing_edges (g\<lparr>version := v\<rparr>) = outgoing_edges g"
    "node_pair (g\<lparr>version := v\<rparr>) = node_pair g"
    by (auto simp: fun_eq_iff out_spec_def outgoing_edges_def node_pair_def)
  then show ?thesis by (simp add: inv_defs)
qed

lemma advance_version_Some:
  "advance_version g = Some g' \<longleftrightarrow>
     (\<exists>v. checked_next (version g) = Some v \<and> g' = g\<lparr>version := v\<rparr>)"
  by (auto simp: advance_version_def split: Option.bind_splits)

lemma remove_pool_compacting_spec:
  assumes inv: "graph_inv G ends g" and r: "remove_pool_compacting G p g = Some (g', m)"
  shows "graph_inv G ends g'" and "pool_step g g' p None m"
    and "m = (case pool_tokens g p of None \<Rightarrow> Unchanged
              | Some ts \<Rightarrow> Removed (length ts * (length ts - 1)))"
proof -
  obtain g1 k ts where e: "remove_pool_edges G p g = (g1, k, ts)" by (metis prod_cases3)
  note f = remove_pool_edges_spec [OF inv e] and inv1 = remove_pool_edges_inv [OF inv e]
  have "graph_inv G ends g' \<and> pool_step g g' p None m \<and>
      m = (case pool_tokens g p of None \<Rightarrow> Unchanged
           | Some ts \<Rightarrow> Removed (length ts * (length ts - 1)))"
  proof (cases "pool_tokens g p")
    case None
    then have "g1 = g" "k = 0" using remove_absent_pool [OF inv] e by auto
    with None r e inv show ?thesis
      by (simp add: remove_pool_compacting_def pool_step_def fun_upd_idem)
  next
    case (Some us)
    then have k: "k \<noteq> 0" "ts = us" using f by auto
    note pr = prune_orphan_tokens_spec [OF inv1, of ts]
    from r e k obtain v where v: "checked_next (version g) = Some v"
      "g' = (prune_orphan_tokens G ts g1)\<lparr>version := v\<rparr>" "m = Removed k"
      using f(3) pr by (auto simp: remove_pool_compacting_def advance_version_Some split: Option.bind_splits)
    have used: "token_used g t \<longleftrightarrow> token_used g1 t \<or> t \<in> set us" for t
      unfolding token_used_remove [OF f(1)] by (simp add: Some)
    have "compact g'" if "compact g"
      using that pr used f(2) k(2) unfolding compact_def
      by (auto simp: v token_used_def)
    with v pr f k Some show ?thesis
      by (simp add: pool_step_def graph_inv_version)
  qed
  then show "graph_inv G ends g'" and "pool_step g g' p None m"
    and "m = (case pool_tokens g p of None \<Rightarrow> Unchanged
              | Some ts \<Rightarrow> Removed (length ts * (length ts - 1)))"
    by blast+
qed

text \<open>Pruning the tokens of a removed pool keeps a compact graph compact.\<close>

lemma remove_and_prune_compact:
  assumes inv: "graph_inv G ends g" and e: "remove_pool_edges G p g = (g1, k, ts)" and "compact g"
  shows "compact (prune_orphan_tokens G ts g1)"
proof -
  note f = remove_pool_edges_spec [OF inv e]
  note pr = prune_orphan_tokens_spec [OF remove_pool_edges_inv [OF inv e], of ts]
  have "token_used g t \<longleftrightarrow> token_used g1 t \<or> t \<in> set ts" for t
    unfolding token_used_remove [OF f(1)] f(4) by (auto split: option.splits)
  then show ?thesis
    using assms(3) pr f(2) by (auto simp: compact_def token_used_def)
qed

lemma add_pool_edges_compact:
  assumes inv: "graph_inv G ends g" and "pool_tokens g p = None" and "wf_tokens ts" and "compact g"
  shows "compact (add_pool_edges G p ts g)"
proof -
  note f = add_pool_edges_spec [OF assms(1-3)]
  have "token_used (add_pool_edges G p ts g) t \<longleftrightarrow> token_used g t \<or> t \<in> set ts" for t
    using assms(2) unfolding token_used_def f(2) fun_upd_apply
    by (metis option.distinct(1) option.inject)
  then show ?thesis using assms(4) f(3) by (auto simp: compact_def)
qed

end

text \<open>The token list a registration is indexed with, if it is indexable at all.\<close>

definition indexed_tokens :: "'p pool_registration \<Rightarrow> graph_build_options \<Rightarrow> address list option" where
  "indexed_tokens reg options =
     (if is_indexable_status (reg_status reg) options
      then (case tokens_for_pool reg of Inr ts \<Rightarrow> Some ts | Inl _ \<Rightarrow> None) else None)"

lemma indexed_tokens_wf: "indexed_tokens reg options = Some ts \<Longrightarrow> wf_tokens ts"
  by (auto simp: indexed_tokens_def tokens_for_pool_def dest: normalize_tokens_wf
      split: if_splits sum.splits)

text \<open>The pools a build reports as skipped, with the reason.\<close>

definition skip_reason :: "graph_build_options \<Rightarrow> 'p pool_registration \<Rightarrow> skipped_pool_reason option" where
  "skip_reason options reg =
     (if \<not> is_indexable_status (reg_status reg) options then Some (SkipStatus (reg_status reg))
      else case tokens_for_pool reg of Inl reason \<Rightarrow> Some reason | Inr _ \<Rightarrow> None)"

text \<open>The mutation an application reports, in terms of the abstract content.\<close>

fun edge_total :: "address list \<Rightarrow> nat" where
  "edge_total ts = length ts * (length ts - 1)"

definition expected_mutation ::
  "address list option \<Rightarrow> address list option \<Rightarrow> skipped_pool_reason \<Rightarrow> graph_pool_mutation" where
  "expected_mutation before after reason =
     (case (before, after) of
        (None, None) \<Rightarrow> Skipped reason
      | (Some old, None) \<Rightarrow> Removed (edge_total old)
      | (None, Some ts) \<Rightarrow> Added (directed_edge_count (length ts))
      | (Some old, Some ts) \<Rightarrow>
          (if old = ts then Unchanged
           else Updated (edge_total old) (directed_edge_count (length ts))))"

context stable_digraph
begin

lemma remove_or_skip_spec:
  assumes inv: "graph_inv G ends g" and r: "remove_or_skip G p reason g = Some (g', m)"
  shows "graph_inv G ends g' \<and> pool_step g g' p None m \<and>
         m = expected_mutation (pool_tokens g p) None reason"
proof -
  obtain m0 where c: "remove_pool_compacting G p g = Some (g', m0)"
    and m: "m = (case m0 of Unchanged \<Rightarrow> Skipped reason | _ \<Rightarrow> m0)"
    using r by (auto simp: remove_or_skip_def split: Option.bind_splits graph_pool_mutation.splits)
  note f = remove_pool_compacting_spec [OF inv c]
  show ?thesis
    using f m by (auto simp: pool_step_def expected_mutation_def split: option.splits)
qed

lemma apply_pool_spec:
  assumes inv: "graph_inv G ends g" and r: "apply_pool G reg options g = Some (g', m)"
  shows "graph_inv G ends g' \<and> pool_step g g' (reg_key reg) (indexed_tokens reg options) m \<and>
         m = expected_mutation (pool_tokens g (reg_key reg)) (indexed_tokens reg options)
               (the (skip_reason options reg))"
proof (cases "indexed_tokens reg options")
  case None
  then have "remove_or_skip G (reg_key reg) (the (skip_reason options reg)) g = Some (g', m)"
    using r by (auto simp: apply_pool_def indexed_tokens_def skip_reason_def split: if_splits sum.splits)
  from remove_or_skip_spec [OF inv this] None show ?thesis by auto
next
  case (Some ts)
  note wf = indexed_tokens_wf [OF Some]
  have ix: "is_indexable_status (reg_status reg) options" "tokens_for_pool reg = Inr ts"
    using Some by (auto simp: indexed_tokens_def split: if_splits sum.splits)
  show ?thesis
  proof (cases "pool_tokens g (reg_key reg)")
    case None
    note a = add_pool_edges_spec [OF inv None wf]
    from r ix None obtain v where "checked_next (version g) = Some v"
      "g' = (add_pool_edges G (reg_key reg) ts g)\<lparr>version := v\<rparr>"
      "m = Added (directed_edge_count (length ts))"
      using a(4) by (auto simp: apply_pool_def advance_version_Some split: Option.bind_splits)
    with a Some None add_pool_edges_compact [OF inv None wf] show ?thesis
      by (auto simp: pool_step_def graph_inv_version expected_mutation_def compact_def token_used_def)
  next
    case old: (Some us)
    show ?thesis
    proof (cases "us = ts")
      case True
      with r ix old inv Some show ?thesis
        by (auto simp: apply_pool_def pool_step_def expected_mutation_def fun_upd_idem)
    next
      case False
      obtain g1 k ots where e: "remove_pool_edges G (reg_key reg) g = (g1, k, ots)" by (metis prod_cases3)
      note f = remove_pool_edges_spec [OF inv e]
      note pr = prune_orphan_tokens_spec [OF remove_pool_edges_inv [OF inv e], of ots]
      let ?g2 = "prune_orphan_tokens G ots g1"
      have n: "pool_tokens ?g2 (reg_key reg) = None" using pr f(1) by simp
      have inv2: "graph_inv G ends ?g2" using pr by blast
      note a = add_pool_edges_spec [OF inv2 n wf]
      from r ix old False e obtain v where "checked_next (version g) = Some v"
        "g' = (add_pool_edges G (reg_key reg) ts ?g2)\<lparr>version := v\<rparr>"
        "m = Updated k (directed_edge_count (length ts))"
        using a(4) pr f(3) by (auto simp: apply_pool_def advance_version_Some split: Option.bind_splits)
      moreover have "compact (add_pool_edges G (reg_key reg) ts ?g2)" if "compact g"
        using add_pool_edges_compact [OF inv2 n wf] remove_and_prune_compact [OF inv e that] by blast
      ultimately show ?thesis
        using a Some old False f(1,4,5) pr
        by (auto simp: pool_step_def graph_inv_version expected_mutation_def compact_def token_used_def)
    qed
  qed
qed

end

end
