(* ===== verification/GraphProps.thy ===== *)
theory GraphProps
  imports AmmGraphInv
begin

text \<open>
  What the token graph of \<^verbatim>\<open>src/graph.rs\<close> promises to the rest of the program, over any
  implementation of the stable graph that satisfies \<open>stable_digraph\<close>: mutations refine
  updates of the pool-to-tokens map, a full build indexes exactly the indexable
  registrations, incremental maintenance and rebuilding agree, and the cached adjacency is
  complete.
\<close>

section \<open>Full builds\<close>

fun index_of :: "graph_build_options \<Rightarrow> 'p pool_registration list \<Rightarrow> 'p \<rightharpoonup> address list" where
  "index_of options [] = Map.empty"
| "index_of options (r # rs) = (index_of options rs)(reg_key r := indexed_tokens r options)"

lemma index_of_Some:
  assumes "distinct (map reg_key rs)"
  shows "index_of options rs p = Some ts \<longleftrightarrow>
    (\<exists>r \<in> set rs. reg_key r = p \<and> indexed_tokens r options = Some ts)"
  using assms by (induction rs) (auto simp: rev_image_eqI)

lemma index_of_absent: "p \<notin> reg_key ` set rs \<Longrightarrow> index_of options rs p = None"
  by (induction rs) auto

lemma index_of_perm:
  assumes "distinct (map reg_key rs)" and "set qs = set rs" and "distinct (map reg_key qs)"
  shows "index_of options qs = index_of options rs"
proof
  fix p
  have "index_of options qs p = Some ts \<longleftrightarrow> index_of options rs p = Some ts" for ts
    using assms by (simp add: index_of_Some)
  then show "index_of options qs p = index_of options rs p"
    by (metis option.exhaust)
qed

lemma index_pools_summary:
  "index_pools G options rs g = (g', indexed, skipped) \<Longrightarrow>
     indexed = map reg_key (filter (\<lambda>r. skip_reason options r = None) rs) \<and>
     skipped = map (\<lambda>r. \<lparr>skipped_key = reg_key r, skipped_reason = the (skip_reason options r)\<rparr>)
                 (filter (\<lambda>r. skip_reason options r \<noteq> None) rs)"
proof (induction rs arbitrary: g g' indexed skipped)
  case (Cons r rs)
  show ?case
  proof (cases "skip_reason options r")
    case (Some reason)
    then obtain k where "index_pools G options rs g = (g', indexed, k)"
      "skipped = \<lparr>skipped_key = reg_key r, skipped_reason = reason\<rparr> # k"
      using Cons.prems by (auto simp: skip_reason_def split: if_splits sum.splits prod.splits)
    with Cons.IH Some show ?thesis by auto
  next
    case None
    then obtain ts i where "index_pools G options rs (add_pool_edges G (reg_key r) ts g) = (g', i, skipped)"
      "indexed = reg_key r # i"
      using Cons.prems by (auto simp: skip_reason_def split: if_splits sum.splits prod.splits)
    with Cons.IH None show ?thesis by auto
  qed
qed simp

context stable_digraph
begin

lemma new_graph_inv:
  assumes "new_graph G counter = Some (g, counter')"
  shows "graph_inv G ends g" and "compact g" and "pool_tokens g = Map.empty"
proof -
  have g: "graph g = sg_empty G" "node_map g = Map.empty" "edge_map g = Map.empty"
    "pool_tokens g = Map.empty" "pair_pools g = Map.empty" "outgoing_map g = Map.empty"
    using assms by (auto simp: new_graph_def split: Option.bind_splits)
  then show "pool_tokens g = Map.empty" and "compact g"
    by (simp_all add: compact_def token_used_def)
  show "graph_inv G ends g"
    by (simp add: inv_defs g empty_nodes empty_edges out_spec_def outgoing_edges_def)
qed

lemma index_pools_spec:
  assumes "graph_inv G ends g" and "compact g" and "distinct (map reg_key rs)"
    and "\<forall>r \<in> set rs. pool_tokens g (reg_key r) = None"
    and "index_pools G options rs g = (g', indexed, skipped)"
  shows "graph_inv G ends g' \<and> compact g' \<and> version g' = version g \<and>
         pool_tokens g' = pool_tokens g ++ index_of options rs"
  using assms
proof (induction rs arbitrary: g indexed skipped)
  case Nil
  then show ?case by simp
next
  case (Cons r rs)
  have absent: "index_of options rs (reg_key r) = None"
    using Cons.prems(3) by (intro index_of_absent) auto
  show ?case
  proof (cases "indexed_tokens r options")
    case None
    then obtain i k where "index_pools G options rs g = (g', i, k)"
      using Cons.prems(5) by (auto simp: indexed_tokens_def split: if_splits sum.splits prod.splits)
    moreover have "(index_of options rs)(reg_key r := None) = index_of options rs"
      using absent by (simp add: fun_upd_idem)
    ultimately show ?thesis
      using Cons.IH [of g i k] Cons.prems None by simp
  next
    case (Some ts)
    let ?g1 = "add_pool_edges G (reg_key r) ts g"
    obtain i k where "index_pools G options rs ?g1 = (g', i, k)"
      using Cons.prems(5) Some by (auto simp: indexed_tokens_def split: if_splits sum.splits prod.splits)
    moreover have new: "pool_tokens g (reg_key r) = None" using Cons.prems(4) by simp
    note wf = indexed_tokens_wf [OF Some]
    note a = add_pool_edges_spec [OF Cons.prems(1) new wf]
    have upd: "pool_tokens g ++ (index_of options rs)(reg_key r \<mapsto> ts) =
        (pool_tokens g)(reg_key r \<mapsto> ts) ++ index_of options rs"
      using absent by (auto simp: fun_eq_iff map_add_def split: option.splits)
    moreover have "\<forall>q \<in> set rs. pool_tokens ?g1 (reg_key q) = None"
      using a(2) Cons.prems(3,4) by (auto simp: image_iff)
    moreover have "compact ?g1" using add_pool_edges_compact [OF Cons.prems(1) new wf] Cons.prems(2) by blast
    moreover have "distinct (map reg_key rs)" using Cons.prems(3) by simp
    ultimately have "graph_inv G ends g' \<and> compact g' \<and> version g' = version ?g1 \<and>
        pool_tokens g' = pool_tokens ?g1 ++ index_of options rs"
      using Cons.IH [of ?g1 i k] a(1) by blast
    then show ?thesis by (simp only: index_of.simps Some a(2,4) upd simp_thms)
  qed
qed

lemma from_registry_spec:
  assumes "distinct (map reg_key rs)"
    and "from_registry G debug rs options counter = Some (g, summary, counter')"
  shows "graph_inv G ends g \<and> compact g \<and> pool_tokens g = index_of options rs"
proof -
  let ?rs = "sort_key (\<lambda>pool. debug (reg_key pool)) rs"
  obtain g0 i k where n: "new_graph G counter = Some (g0, counter')"
    and ip: "index_pools G options ?rs g0 = (g, i, k)"
    using assms(2) by (auto simp: from_registry_def split: Option.bind_splits prod.splits)
  note g0 = new_graph_inv [OF n]
  have d: "distinct (map reg_key ?rs)"
    using assms(1) by (metis distinct_map distinct_sort set_sort)
  have "index_of options ?rs = index_of options rs"
    using assms(1) d by (intro index_of_perm) simp_all
  with index_pools_spec [OF g0(1,2) d _ ip] g0(3) show ?thesis by simp
qed

lemma rebuild_spec:
  assumes "distinct (map reg_key rs)" and inv: "graph_inv G ends g"
    and "rebuild_from_registry G debug rs options counter g = Some (g', summary, counter')"
  shows "graph_inv G ends g'" and "compact g'" and "pool_tokens g' = index_of options rs"
    and "if pool_tokens g = index_of options rs \<and> compact g then version g' = version g
         else checked_next (version g) = Some (version g')"
proof -
  obtain b w where b: "from_registry G debug rs options counter = Some (b, summary, counter')"
    and g': "g' = b\<lparr>version := w\<rparr>"
    and v: "if pool_tokens g = pool_tokens b \<and> card (dom (node_map g)) = card (dom (node_map b)) \<and>
          dom (node_map g) \<subseteq> dom (node_map b)
        then w = version g else checked_next (version g) = Some w"
    using assms(3) by (auto simp: rebuild_from_registry_def split: Option.bind_splits if_splits)
  note fb = from_registry_spec [OF assms(1) b]
  show "graph_inv G ends g'" "pool_tokens g' = index_of options rs" "compact g'"
    using fb by (simp_all add: g' graph_inv_version compact_def token_used_def)
  have fin: "finite (dom (node_map b))" using fb by (simp add: inv_defs)
  have "card (dom (node_map g)) = card (dom (node_map b)) \<and> dom (node_map g) \<subseteq> dom (node_map b) \<longleftrightarrow>
      compact g" if "pool_tokens g = index_of options rs"
  proof -
    have "dom (node_map b) = {t. token_used g t}"
      using fb that by (simp add: compact_def token_used_def)
    then show ?thesis
      using card_subset_eq [OF fin] unfolding compact_def by auto
  qed
  then show "if pool_tokens g = index_of options rs \<and> compact g then version g' = version g
         else checked_next (version g) = Some (version g')"
    using v fb by (cases "pool_tokens g = index_of options rs") (auto simp: g' split: if_splits)
qed

end

section \<open>Sequences of mutations\<close>

text \<open>The mutations a client issues against a graph, and their abstract effect.\<close>

datatype 'p graph_op =
    ApplyOp "'p pool_registration"
  | CompactOp 'p

fun run_op ::
  "('g, 'p) stable_graph_ops \<Rightarrow> graph_build_options \<Rightarrow> 'p graph_op \<Rightarrow> ('g, 'p) amm_graph \<Rightarrow>
     (('g, 'p) amm_graph \<times> graph_pool_mutation) option" where
  "run_op G options (ApplyOp reg) g = apply_pool G reg options g"
| "run_op G options (CompactOp p) g = remove_pool_compacting G p g"

fun run_ops ::
  "('g, 'p) stable_graph_ops \<Rightarrow> graph_build_options \<Rightarrow> 'p graph_op list \<Rightarrow> ('g, 'p) amm_graph \<Rightarrow>
     ('g, 'p) amm_graph option" where
  "run_ops G options [] g = Some g"
| "run_ops G options (x # xs) g =
     do { (g1, _) \<leftarrow> run_op G options x g; run_ops G options xs g1 }"

fun abs_op :: "graph_build_options \<Rightarrow> 'p graph_op \<Rightarrow> ('p \<rightharpoonup> address list) \<Rightarrow> ('p \<rightharpoonup> address list)" where
  "abs_op options (ApplyOp reg) m = m(reg_key reg := indexed_tokens reg options)"
| "abs_op options (CompactOp p) m = m(p := None)"

context stable_digraph
begin

lemma run_op_spec:
  assumes "graph_inv G ends g" and "run_op G options x g = Some (g', m)"
  shows "graph_inv G ends g' \<and> pool_tokens g' = abs_op options x (pool_tokens g) \<and>
         (compact g \<longrightarrow> compact g') \<and>
         (if pool_tokens g' = pool_tokens g then version g' = version g
          else checked_next (version g) = Some (version g'))"
proof (cases x)
  case (ApplyOp reg)
  then have "graph_inv G ends g' \<and> pool_step g g' (reg_key reg) (indexed_tokens reg options) m"
    using apply_pool_spec [OF assms(1)] assms(2) by auto
  then show ?thesis
    using ApplyOp by (cases "topology_changed m") (auto simp: pool_step_def fun_upd_idem_iff)
next
  case (CompactOp p)
  then have "graph_inv G ends g' \<and> pool_step g g' p None m"
    using remove_pool_compacting_spec [OF assms(1)] assms(2) by auto
  then show ?thesis
    using CompactOp by (cases "topology_changed m") (auto simp: pool_step_def fun_upd_idem_iff)
qed

lemma run_ops_spec:
  assumes "graph_inv G ends g" and "run_ops G options xs g = Some g'"
  shows "graph_inv G ends g' \<and> pool_tokens g' = fold (abs_op options) xs (pool_tokens g) \<and>
         (compact g \<longrightarrow> compact g')"
  using assms
proof (induction xs arbitrary: g)
  case (Cons x xs)
  then obtain g1 m where s: "run_op G options x g = Some (g1, m)" "run_ops G options xs g1 = Some g'"
    by (auto split: Option.bind_splits)
  from run_op_spec [OF Cons.prems(1) s(1)] Cons.IH [OF _ s(2)] show ?case by simp
qed simp

end

section \<open>Derived facts\<close>

lemma set_token_pairs:
  "sorted_wrt (<) ts \<Longrightarrow> set (token_pairs ts) = {(a, b). a \<in> set ts \<and> b \<in> set ts \<and> a < b}"
  by (induction ts) auto

lemma fold_union_option:
  "fold (\<lambda>k s. case m k of None \<Rightarrow> s | Some v \<Rightarrow> s \<union> v) ks s = s \<union> (\<Union>k \<in> set ks. multi_get m k)"
  by (induction ks arbitrary: s) (auto simp: multi_get_def split: option.splits)

lemma fold_insert_pairs:
  "fold (\<lambda>pair s. if P pair then insert (snd pair) (insert (fst pair) s) else s) ps s =
     s \<union> (\<Union>pair \<in> {x \<in> set ps. P x}. {fst pair, snd pair})"
  by (induction ps arbitrary: s) auto

text \<open>Two pools are parallel when they share two tokens.\<close>

definition shares_pair :: "('g, 'p) amm_graph \<Rightarrow> 'p \<Rightarrow> 'p \<Rightarrow> address \<Rightarrow> address \<Rightarrow> bool" where
  "shares_pair g p q a b \<longleftrightarrow>
     a \<noteq> b \<and> (\<exists>ts us. pool_tokens g p = Some ts \<and> pool_tokens g q = Some us \<and>
                     {a, b} \<subseteq> set ts \<and> {a, b} \<subseteq> set us)"

lemma shares_pair_commute: "shares_pair g p q a b \<longleftrightarrow> shares_pair g p q b a"
  by (auto simp: shares_pair_def)

lemma pair_index_shares:
  assumes inv: "graph_inv G ends g" and p: "pool_tokens g p = Some ts"
    and ab: "(a, b) \<in> set (token_pairs ts)"
  shows "q \<in> multi_get (pair_pools g) (a, b) \<longleftrightarrow> shares_pair g p q a b"
proof -
  have tp: "set (token_pairs us) = {(a, b). a \<in> set us \<and> b \<in> set us \<and> a < b}"
    if "pool_tokens g r = Some us" for r us
    using graph_inv_tokens(1) [OF inv that] by (simp add: wf_tokens_def set_token_pairs)
  have "multi_get (pair_pools g) (a, b) =
      {q. \<exists>us. pool_tokens g q = Some us \<and> (a, b) \<in> set (token_pairs us)}"
    using inv by (simp add: inv_defs)
  then show ?thesis
    using p ab tp by (auto simp: shares_pair_def)
qed

lemma shares_pair_ordered:
  assumes inv: "graph_inv G ends g" and p: "pool_tokens g p = Some ts" and "shares_pair g p q a b"
  shows "(a, b) \<in> set (token_pairs ts) \<or> (b, a) \<in> set (token_pairs ts)"
  using assms(3) graph_inv_tokens(1) [OF inv p] p
  by (auto simp: shares_pair_def wf_tokens_def set_token_pairs)

lemma parallel_neighbors_iff:
  assumes inv: "graph_inv G ends g"
  shows "q \<in> parallel_neighbors g p \<longleftrightarrow> (\<exists>a b. shares_pair g p q a b)"
proof (cases "pool_tokens g p")
  case None
  then show ?thesis by (simp add: parallel_neighbors_def shares_pair_def)
next
  case (Some ts)
  have "parallel_neighbors g p = (\<Union>k \<in> set (token_pairs ts). multi_get (pair_pools g) k)"
    by (simp add: parallel_neighbors_def Some fold_union_option)
  then have "q \<in> parallel_neighbors g p \<longleftrightarrow>
      (\<exists>x \<in> set (token_pairs ts). q \<in> multi_get (pair_pools g) x)"
    by simp
  also have "\<dots> \<longleftrightarrow> (\<exists>x \<in> set (token_pairs ts). shares_pair g p q (fst x) (snd x))"
    using pair_index_shares [OF inv Some] by (intro bex_cong) auto
  finally have "q \<in> parallel_neighbors g p \<longleftrightarrow>
      (\<exists>a b. (a, b) \<in> set (token_pairs ts) \<and> shares_pair g p q a b)"
    by force
  then show ?thesis
    using shares_pair_ordered [OF inv Some] shares_pair_commute [of g p q] by blast
qed

lemma two_elements: "finite S \<Longrightarrow> p \<in> S \<Longrightarrow> 2 \<le> card S \<longleftrightarrow> (\<exists>q \<in> S. q \<noteq> p)"
proof -
  assume "finite S" and "p \<in> S"
  then have "card S = Suc (card (S - {p}))" by (metis card.remove)
  moreover have "card (S - {p}) \<noteq> 0 \<longleftrightarrow> (\<exists>q \<in> S. q \<noteq> p)" using \<open>finite S\<close> by auto
  ultimately show ?thesis by linarith
qed

lemma tracked_parallel_iff:
  assumes inv: "graph_inv G ends g"
  shows "t \<in> tracked_tokens_for_pool g p True \<longleftrightarrow> (\<exists>q u. q \<noteq> p \<and> shares_pair g p q t u)"
proof (cases "pool_tokens g p")
  case None
  then show ?thesis by (simp add: tracked_tokens_for_pool_def shares_pair_def)
next
  case (Some ts)
  let ?P = "\<lambda>pair. case pair_pools g pair of None \<Rightarrow> False | Some pools \<Rightarrow> card pools \<ge> 2"
  have P: "?P (a, b) \<longleftrightarrow> (\<exists>q. q \<noteq> p \<and> shares_pair g p q a b)" if ab: "(a, b) \<in> set (token_pairs ts)" for a b
  proof -
    let ?S = "multi_get (pair_pools g) (a, b)"
    have "?S = {q. \<exists>us. pool_tokens g q = Some us \<and> (a, b) \<in> set (token_pairs us)}"
      using inv by (simp add: inv_defs)
    then have S: "p \<in> ?S" "?S \<subseteq> dom (pool_tokens g)" using Some ab by auto
    then have "finite ?S" using inv finite_subset by (auto simp: inv_defs)
    moreover have "pair_pools g (a, b) = Some ?S"
      using multi_tight_lookup [of "pair_pools g" "(a, b)"] S(1) inv by (auto simp: inv_defs)
    ultimately show ?thesis
      using two_elements [of ?S p] S(1) pair_index_shares [OF inv Some ab] by auto
  qed
  have "tracked_tokens_for_pool g p True = (\<Union>pair \<in> {x \<in> set (token_pairs ts). ?P x}. {fst pair, snd pair})"
    by (simp add: tracked_tokens_for_pool_def Some fold_insert_pairs)
  then have "t \<in> tracked_tokens_for_pool g p True \<longleftrightarrow>
      (\<exists>a b. (a, b) \<in> set (token_pairs ts) \<and> ?P (a, b) \<and> (t = a \<or> t = b))"
    by auto
  also have "\<dots> \<longleftrightarrow> (\<exists>q u. q \<noteq> p \<and> shares_pair g p q t u)"
    using P shares_pair_ordered [OF inv Some] shares_pair_commute [of g p] by blast
  finally show ?thesis .
qed

section \<open>When a mutation panics\<close>

lemma checked_next_Some:
  "checked_next v = Some w \<Longrightarrow> unat (revision w) = Suc (unat (revision v)) \<and> lineage w = lineage v"
  by (auto simp: checked_next_def dest: checked_succ_Some split: option.splits)

lemma advance_version_None: "advance_version g = None \<longleftrightarrow> revision (version g) = - 1"
  by (simp add: advance_version_def checked_next_def checked_succ_def)

context stable_digraph
begin

lemma remove_pool_compacting_None:
  assumes inv: "graph_inv G ends g"
  shows "remove_pool_compacting G p g = None \<longleftrightarrow>
    pool_tokens g p \<noteq> None \<and> revision (version g) = - 1"
proof -
  obtain g1 k ts where e: "remove_pool_edges G p g = (g1, k, ts)" by (metis prod_cases3)
  note f = remove_pool_edges_spec [OF inv e] and inv1 = remove_pool_edges_inv [OF inv e]
  note pr = prune_orphan_tokens_spec [OF inv1, of ts]
  have "advance_version (prune_orphan_tokens G ts g1) = None \<longleftrightarrow> revision (version g) = - 1"
    using pr f(3) by (simp add: advance_version_None)
  moreover have "k = 0 \<longleftrightarrow> pool_tokens g p = None" using f by auto
  ultimately show ?thesis
    by (cases "advance_version (prune_orphan_tokens G ts g1)")
      (simp_all add: remove_pool_compacting_def e)
qed

lemma remove_or_skip_None:
  assumes inv: "graph_inv G ends g"
  shows "remove_or_skip G p reason g = None \<longleftrightarrow>
    pool_tokens g p \<noteq> None \<and> revision (version g) = - 1"
proof (cases "remove_pool_compacting G p g")
  case None
  then show ?thesis using remove_pool_compacting_None [OF inv, of p]
    by (simp add: remove_or_skip_def)
next
  case (Some r)
  obtain g' m where r: "r = (g', m)" by fastforce
  note f = remove_pool_compacting_spec [OF inv, of p g' m]
  have "remove_or_skip G p reason g \<noteq> None"
    using f(3) Some r by (auto simp: remove_or_skip_def split: option.splits)
  then show ?thesis using Some remove_pool_compacting_None [OF inv, of p] by auto
qed

lemma apply_pool_None:
  assumes inv: "graph_inv G ends g"
  shows "apply_pool G reg options g = None \<longleftrightarrow>
    pool_tokens g (reg_key reg) \<noteq> indexed_tokens reg options \<and> revision (version g) = - 1"
proof (cases "indexed_tokens reg options")
  case None
  then obtain reason where "apply_pool G reg options g = remove_or_skip G (reg_key reg) reason g"
    by (auto simp: apply_pool_def indexed_tokens_def split: if_splits sum.splits)
  with None remove_or_skip_None [OF inv] show ?thesis by simp
next
  case (Some ts)
  have ix: "is_indexable_status (reg_status reg) options" "tokens_for_pool reg = Inr ts"
    using Some by (auto simp: indexed_tokens_def split: if_splits sum.splits)
  note wf = indexed_tokens_wf [OF Some]
  have bind: "(do { h \<leftarrow> advance_version g'; Some (h, m) }) = None \<longleftrightarrow> advance_version g' = None" for g' :: "('g, 'p) amm_graph" and m :: graph_pool_mutation
    by (cases "advance_version g'") simp_all
  obtain g1 k ots where e: "remove_pool_edges G (reg_key reg) g = (g1, k, ots)" by (metis prod_cases3)
  note f = remove_pool_edges_spec [OF inv e]
  note pr = prune_orphan_tokens_spec [OF remove_pool_edges_inv [OF inv e], of ots]
  have n: "pool_tokens (prune_orphan_tokens G ots g1) (reg_key reg) = None" using pr f(1) by simp
  have inv2: "graph_inv G ends (prune_orphan_tokens G ots g1)" using pr by blast
  have v: "version (add_pool_edges G (reg_key reg) ts (prune_orphan_tokens G ots g1)) = version g"
    using add_pool_edges_spec(4) [OF inv2 n wf] pr f(3) by simp
  show ?thesis
  proof (cases "pool_tokens g (reg_key reg)")
    case None
    note a = add_pool_edges_spec [OF inv None wf]
    show ?thesis using ix None Some a(4) by (simp add: apply_pool_def bind advance_version_None)
  next
    case (Some us)
    show ?thesis using ix Some \<open>indexed_tokens reg options = Some ts\<close> v
      by (simp add: apply_pool_def e bind advance_version_None)
  qed
qed

text \<open>A client cannot see a panic before \<open>2 ^ 64\<close> mutations.\<close>

lemma run_ops_total:
  assumes "graph_inv G ends g" and "unat (revision (version g)) + length xs < 2 ^ 64"
  shows "\<exists>g'. run_ops G options xs g = Some g'"
  using assms
proof (induction xs arbitrary: g)
  case (Cons x xs)
  have "unat (revision (version g)) < 2 ^ 64 - 1" using Cons.prems(2) by simp
  then have nmax: "revision (version g) \<noteq> - 1"
    by (auto simp: unsigned_minus_1_eq_mask mask_eq_exp_minus_1)
  then have "run_op G options x g \<noteq> None"
    by (cases x) (simp_all add: apply_pool_None [OF Cons.prems(1)]
        remove_pool_compacting_None [OF Cons.prems(1)] del: not_None_eq)
  then obtain g1 m where r: "run_op G options x g = Some (g1, m)" by auto
  note f = run_op_spec [OF Cons.prems(1) r]
  have "unat (revision (version g1)) \<le> Suc (unat (revision (version g)))"
    using f checked_next_Some [of "version g" "version g1"] by (auto split: if_splits)
  then show ?case using Cons.IH [of g1] f r Cons.prems(2) by simp
qed simp

end

section \<open>Properties\<close>

text \<open>The routing content of a graph at a token: what the search layer can leave it by.\<close>

definition token_edges :: "('g, 'p) amm_graph \<Rightarrow> address \<Rightarrow> (address \<times> 'p) set" where
  "token_edges g t =
     (case node_index g t of
        None \<Rightarrow> {}
      | Some n \<Rightarrow> (\<lambda>e. (edge_token_out e, cached_pool e)) ` set (outgoing_edges g n))"

lemma token_edges_inv:
  assumes "graph_inv G ends g"
  shows "token_edges g t =
    {(u, p). \<exists>ts. pool_tokens g p = Some ts \<and> t \<in> set ts \<and> u \<in> set ts \<and> t \<noteq> u}" (is "_ = ?R")
proof (cases "node_index g t")
  case None
  then have "t \<notin> set ts" if "pool_tokens g p = Some ts" for p ts
    using graph_inv_tokens(2) [OF assms that] by (auto simp: node_index_def)
  then show ?thesis using None by (auto simp: token_edges_def)
next
  case (Some n)
  have out: "set (outgoing_edges g n) = out_spec g n" using assms by (simp add: inv_defs)
  have inj: "edge_token_in e = t" if "node_map g (edge_token_in e) = Some n" for e :: "'b cached_outgoing_edge"
    using that Some assms inv_nodes_inj [of G g] by (auto simp: graph_inv_def node_index_def)
  show ?thesis
  proof
    show "token_edges g t \<subseteq> ?R"
      using inj by (auto simp: token_edges_def Some out out_spec_def)
    show "?R \<subseteq> token_edges g t"
    proof
      fix x assume "x \<in> ?R"
      then obtain u p ts where x: "x = (u, p)" "pool_tokens g p = Some ts" "t \<in> set ts" "u \<in> set ts" "t \<noteq> u"
        by auto
      then obtain m where m: "node_map g u = Some m" using graph_inv_tokens(2) [OF assms x(2)] by auto
      let ?e = "\<lparr>edge_target = m, edge_token_in = t, edge_token_out = u, cached_pool = p\<rparr>"
      have "?e \<in> out_spec g n" using x m Some by (simp add: out_spec_def node_index_def)
      then show "x \<in> token_edges g t" using x(1) by (force simp: token_edges_def Some out)
    qed
  qed
qed

text \<open>A three-token pool and a two-token pool sharing a pair, used to instantiate the
  properties.\<close>

definition demo_options :: graph_build_options where
  "demo_options = \<lparr>include_degraded = False\<rparr>"

definition demo_curve :: "nat pool_registration" where
  "demo_curve = \<lparr>reg_key = 1, reg_status = Ready, reg_metadata = MetaCurve [3, 1, 2, 1]\<rparr>"

definition demo_pair :: "nat pool_registration" where
  "demo_pair = \<lparr>reg_key = 2, reg_status = Ready,
     reg_metadata = MetaUniswapV2 \<lparr>token0 = Some 2, token1 = Some 1, pair_fee = Some 30\<rparr>\<rparr>"

definition demo_new :: "(nat slot_graph, nat) amm_graph" where
  "demo_new = fst (the (new_graph slot_graph_ops 0))"

lemma demo_new: "new_graph slot_graph_ops 0 = Some (demo_new, 1)"
  by (simp add: demo_new_def new_graph_def initial_version_def checked_succ_def)

lemma demo_new_inv: "graph_inv slot_graph_ops slot_ends demo_new" "pool_tokens demo_new = Map.empty"
  using slots.new_graph_inv [OF demo_new] by simp_all

lemma demo_tokens:
  "indexed_tokens demo_curve demo_options = Some [1, 2, 3]"
  "indexed_tokens demo_pair demo_options = Some [1, 2]"
  "reg_key demo_curve = 1" "reg_key demo_pair = 2"
  by (simp_all add: indexed_tokens_def demo_curve_def demo_pair_def demo_options_def
      is_indexable_status_def tokens_for_pool_def pair_tokens_def normalize_tokens_def word_le_def)

definition demo_graph :: "(nat slot_graph, nat) amm_graph" where
  "demo_graph = the (run_ops slot_graph_ops demo_options [ApplyOp demo_curve, ApplyOp demo_pair] demo_new)"

lemma demo_graph_run:
  "run_ops slot_graph_ops demo_options [ApplyOp demo_curve, ApplyOp demo_pair] demo_new = Some demo_graph"
proof -
  have "revision (version demo_new) = 0"
    by (simp add: demo_new_def new_graph_def initial_version_def checked_succ_def)
  then show ?thesis
    using slots.run_ops_total [OF demo_new_inv(1), of "[ApplyOp demo_curve, ApplyOp demo_pair]" demo_options]
    by (auto simp: demo_graph_def)
qed

lemma demo_graph_inv:
  "graph_inv slot_graph_ops slot_ends demo_graph" "pool_tokens demo_graph = [1 \<mapsto> [1, 2, 3], 2 \<mapsto> [1, 2]]"
  using slots.run_ops_spec [OF demo_new_inv(1) demo_graph_run]
  by (simp_all add: demo_new_inv(2) demo_tokens)





text \<open>C3. A full build over registrations with distinct keys indexes exactly the indexable ones,
  each under its own key; its summary lists every registration once, in the order of the
  rendered keys, as indexed or as skipped with the reason.\<close>

theorem from_registry_exact:
  assumes "stable_digraph G ends" and "distinct (map reg_key rs)"
    and "from_registry G debug rs options counter = Some (g, summary, counter')"
  shows "graph_inv G ends g \<and> compact g \<and>
    (\<forall>p ts. pool_tokens g p = Some ts \<longleftrightarrow>
       (\<exists>r \<in> set rs. reg_key r = p \<and> indexed_tokens r options = Some ts)) \<and>
    indexed_pools summary =
      map reg_key (filter (\<lambda>r. skip_reason options r = None) (sort_key (debug \<circ> reg_key) rs)) \<and>
    skipped_pools summary =
      map (\<lambda>r. \<lparr>skipped_key = reg_key r, skipped_reason = the (skip_reason options r)\<rparr>)
        (filter (\<lambda>r. skip_reason options r \<noteq> None) (sort_key (debug \<circ> reg_key) rs))"
proof -
  note f = stable_digraph.from_registry_spec [OF assms]
  obtain g0 i k where "index_pools G options (sort_key (\<lambda>r. debug (reg_key r)) rs) g0 = (g, i, k)"
    "summary = \<lparr>indexed_pools = i, skipped_pools = k\<rparr>"
    using assms(3) by (auto simp: from_registry_def split: Option.bind_splits prod.splits)
  with index_pools_summary f show ?thesis
    by (simp add: index_of_Some [OF assms(2)] comp_def)
qed

theorem from_registry_exact_witness:
  "\<exists>g s. from_registry slot_graph_ops (\<lambda>p. replicate p CHR ''x'') [demo_pair, demo_curve] demo_options 7
           = Some (g, s, 8) \<and>
         pool_tokens g 1 = Some [1, 2, 3] \<and> indexed_pools s = [1, 2]"
proof -
  have "\<exists>g s. from_registry slot_graph_ops (\<lambda>p. replicate p CHR ''x'') [demo_pair, demo_curve]
      demo_options 7 = Some (g, s, 8)"
    by (simp add: from_registry_def new_graph_def initial_version_def checked_succ_def split_def Let_def)
  then obtain g s where f: "from_registry slot_graph_ops (\<lambda>p. replicate p CHR ''x'') [demo_pair, demo_curve]
      demo_options 7 = Some (g, s, 8)" by blast
  have "skip_reason demo_options demo_pair = None" "skip_reason demo_options demo_curve = None"
    by (simp_all add: skip_reason_def demo_curve_def demo_pair_def demo_options_def
      is_indexable_status_def tokens_for_pool_def pair_tokens_def normalize_tokens_def)
  moreover have "distinct (map reg_key [demo_pair, demo_curve])" by (simp add: demo_tokens)
  note from_registry_exact [OF slots.stable_digraph_axioms this f]
  ultimately show ?thesis
    using f by (auto simp: demo_tokens numeral_2_eq_2)
qed

text \<open>C4. Rebuilding in place keeps the version exactly when content and token nodes are what a
  fresh build produces, and otherwise advances it once; a graph maintained incrementally to
  the content of the registrations therefore survives a rebuild with its version, and with
  the same edges to leave each token by.\<close>

theorem rebuild_agrees_with_incremental:
  assumes "stable_digraph G ends" and "distinct (map reg_key rs)"
    and "new_graph G counter = Some (g0, counter')" and "run_ops G options xs g0 = Some g"
    and "rebuild_from_registry G debug rs options counter2 g = Some (g', summary, counter3)"
  shows "pool_tokens g' = index_of options rs \<and>
    (if fold (abs_op options) xs Map.empty = index_of options rs
     then version g' = version g \<and> token_edges g' = token_edges g
     else checked_next (version g) = Some (version g'))"
proof -
  note n = stable_digraph.new_graph_inv [OF assms(1,3)]
  note g = stable_digraph.run_ops_spec [OF assms(1) n(1) assms(4)]
  then have inv: "graph_inv G ends g" by blast
  note r = stable_digraph.rebuild_spec [OF assms(1,2) inv assms(5)]
  have "token_edges g' = token_edges g" if "pool_tokens g' = pool_tokens g"
    using token_edges_inv [OF inv] token_edges_inv [OF r(1)] that by (simp add: fun_eq_iff)
  with r(3,4) g n(2,3) show ?thesis by (auto split: if_splits)
qed

theorem rebuild_agrees_with_incremental_witness:
  "\<exists>g' s. rebuild_from_registry slot_graph_ops (\<lambda>p. []) [demo_curve, demo_pair] demo_options 1 demo_graph
            = Some (g', s, 2) \<and>
          version g' = version demo_graph \<and> token_edges g' 3 = token_edges demo_graph 3"
proof -
  let ?rs = "[demo_curve, demo_pair]"
  have d: "distinct (map reg_key ?rs)" by (simp add: demo_tokens)
  have eq: "fold (abs_op demo_options) [ApplyOp demo_curve, ApplyOp demo_pair] Map.empty =
      index_of demo_options ?rs"
    by (simp add: demo_tokens fun_upd_twist)
  have "\<exists>b s. from_registry slot_graph_ops (\<lambda>p. []) ?rs demo_options 1 = Some (b, s, 2)"
    by (simp add: from_registry_def new_graph_def initial_version_def checked_succ_def split_def Let_def)
  then obtain b s where b: "from_registry slot_graph_ops (\<lambda>p. []) ?rs demo_options 1 = Some (b, s, 2)"
    by blast
  note fb = slots.from_registry_spec [OF d b]
  note g = slots.run_ops_spec [OF demo_new_inv(1) demo_graph_run]
  have "pool_tokens demo_graph = pool_tokens b" "dom (node_map demo_graph) = dom (node_map b)"
    using fb g eq slots.new_graph_inv [OF demo_new] by (simp_all add: compact_def token_used_def)
  then obtain g' where "rebuild_from_registry slot_graph_ops (\<lambda>p. []) ?rs demo_options 1 demo_graph
      = Some (g', s, 2)"
    using b by (auto simp: rebuild_from_registry_def)
  with rebuild_agrees_with_incremental [OF slots.stable_digraph_axioms d demo_new demo_graph_run this] eq
  show ?thesis by auto
qed

text \<open>C5. The cached adjacency of a consistent graph is exact: a token's outgoing edges lead,
  once each, to every other token of every pool that holds it, and nowhere else; tokens of
  indexed pools always have a node.\<close>

theorem outgoing_edges_exact:
  assumes "graph_inv G ends g"
  shows "(\<forall>t. token_edges g t =
      {(u, p). \<exists>ts. pool_tokens g p = Some ts \<and> t \<in> set ts \<and> u \<in> set ts \<and> t \<noteq> u}) \<and>
    (\<forall>n. distinct (outgoing_edges g n)) \<and>
    (\<forall>n. \<forall>e \<in> set (outgoing_edges g n).
       node_token G g n = Some (edge_token_in e) \<and>
       node_token G g (edge_target e) = Some (edge_token_out e))"
proof -
  have "\<forall>n. \<forall>e \<in> set (outgoing_edges g n).
       node_token G g n = Some (edge_token_in e) \<and>
       node_token G g (edge_target e) = Some (edge_token_out e)"
    using assms by (auto simp: inv_defs out_spec_def node_token_def)
  then show ?thesis using token_edges_inv [OF assms] assms by (simp add: inv_defs)
qed

theorem outgoing_edges_exact_witness:
  "token_edges demo_graph 3 = {(1, 1), (2, 1)}"
proof -
  have "token_edges demo_graph 3 =
      {(u, p). \<exists>ts. pool_tokens demo_graph p = Some ts \<and> 3 \<in> set ts \<and> u \<in> set ts \<and> 3 \<noteq> u}"
    using outgoing_edges_exact [OF demo_graph_inv(1)] by blast
  moreover have "pool_tokens demo_graph p = Some ts \<longleftrightarrow> p = 1 \<and> ts = [1, 2, 3] \<or> p = 2 \<and> ts = [1, 2]" for p ts
    by (auto simp: demo_graph_inv(2) split: if_splits)
  ultimately have "token_edges demo_graph 3 = {(u, p). p = 1 \<and> (u = 1 \<or> u = 2)}"
    by auto
  then show ?thesis by auto
qed

text \<open>C6. The parallel neighbours of a pool are the pools that share two tokens with it (itself
  included), and the tokens tracked for its parallel liquidity are those it shares, together
  with a second token, with another pool.\<close>

theorem parallel_pools_exact:
  assumes "graph_inv G ends g"
  shows "parallel_neighbors g p = {q. \<exists>a b. shares_pair g p q a b} \<and>
         tracked_tokens_for_pool g p True = {t. \<exists>q u. q \<noteq> p \<and> shares_pair g p q t u}"
  by (simp add: set_eq_iff parallel_neighbors_iff [OF assms] tracked_parallel_iff [OF assms])

theorem parallel_pools_exact_witness:
  "2 \<in> parallel_neighbors demo_graph 1 \<and> 3 \<notin> tracked_tokens_for_pool demo_graph 1 True"
proof -
  have "shares_pair demo_graph 1 2 1 2" by (simp add: shares_pair_def demo_graph_inv)
  moreover have "\<not> shares_pair demo_graph 1 q 3 u" if "q \<noteq> 1" for q u
    using that by (auto simp: shares_pair_def demo_graph_inv split: if_splits)
  ultimately show ?thesis
    using parallel_pools_exact [OF demo_graph_inv(1), of 1] by blast
qed

end
