(* ===== verification/RouteSpec.thy ===== *)
theory RouteSpec
  imports EnumerateSpec GraphProps "HOL-Library.Sublist"
begin

text \<open>
  What a route is, stated without the search: a chain of hops over linked tokens that reuses
  neither pools nor intermediate tokens. The locale \<open>route_graph\<close> is the interface route
  enumeration needs of the graph; inside it the breadth-first order is shown to produce
  every route exactly once, shortest first. \<open>graph_inv\<close> provides the interface.
\<close>

section \<open>Routes\<close>

fun chain :: "address \<Rightarrow> 'p route_path \<Rightarrow> address \<Rightarrow> bool" where
  "chain t [] u \<longleftrightarrow> t = u"
| "chain t (h # hs) u \<longleftrightarrow> hop_in h = t \<and> chain (hop_out h) hs u"

lemma chain_snoc [simp]: "chain t (hs @ [h]) u \<longleftrightarrow> chain t hs (hop_in h) \<and> hop_out h = u"
  by (induction hs arbitrary: t) auto

definition linked_path :: "('p \<Rightarrow> address \<Rightarrow> address \<Rightarrow> bool) \<Rightarrow> 'p route_path \<Rightarrow> bool" where
  "linked_path linked path \<longleftrightarrow> (\<forall>h \<in> set path. linked (hop_pool h) (hop_in h) (hop_out h))"

text \<open>A prefix the search may extend: it starts at the input token and has not met the
  output token.\<close>

definition open_prefix ::
  "('p \<Rightarrow> address \<Rightarrow> address \<Rightarrow> bool) \<Rightarrow> address \<Rightarrow> address \<Rightarrow> search_config \<Rightarrow> 'p route_path \<Rightarrow> address \<Rightarrow> bool" where
  "open_prefix linked token_in token_out config path t \<longleftrightarrow>
     chain token_in path t \<and> linked_path linked path \<and> distinct (map hop_pool path) \<and>
     distinct (token_in # map hop_out path) \<and> token_out \<notin> hop_out ` set path \<and>
     (\<forall>h \<in> set path. connector_allowed (hop_out h) token_in token_out config)"

text \<open>A route: an open prefix closed by one more hop. A route back to its own input token is
  admitted only when revisiting the source is.\<close>

definition candidate_route ::
  "('p \<Rightarrow> address \<Rightarrow> address \<Rightarrow> bool) \<Rightarrow> address \<Rightarrow> address \<Rightarrow> search_config \<Rightarrow> bool \<Rightarrow> 'p route_path \<Rightarrow> bool" where
  "candidate_route linked token_in token_out config revisit path \<longleftrightarrow>
     path \<noteq> [] \<and> min_hops config \<le> length path \<and> length path \<le> max_hops config \<and>
     chain token_in path token_out \<and> linked_path linked path \<and> distinct (map hop_pool path) \<and>
     distinct (token_in # map hop_out (butlast path)) \<and> token_out \<notin> hop_out ` set (butlast path) \<and>
     (\<forall>h \<in> set (butlast path). connector_allowed (hop_out h) token_in token_out config) \<and>
     (token_in = token_out \<longrightarrow> revisit)"

lemma candidate_route_snoc:
  "candidate_route linked token_in token_out config revisit (path @ [h]) \<longleftrightarrow>
     min_hops config \<le> Suc (length path) \<and> Suc (length path) \<le> max_hops config \<and>
     open_prefix linked token_in token_out config path (hop_in h) \<and>
     hop_out h = token_out \<and> linked (hop_pool h) (hop_in h) (hop_out h) \<and>
     hop_pool h \<notin> hop_pool ` set path \<and> (token_in = token_out \<longrightarrow> revisit)"
  by (auto simp: candidate_route_def open_prefix_def linked_path_def)

lemma open_prefix_snoc:
  "open_prefix linked token_in token_out config (path @ [h]) t \<longleftrightarrow>
     open_prefix linked token_in token_out config path (hop_in h) \<and> hop_out h = t \<and>
     linked (hop_pool h) (hop_in h) (hop_out h) \<and> hop_pool h \<notin> hop_pool ` set path \<and>
     hop_out h \<noteq> token_in \<and> hop_out h \<notin> hop_out ` set path \<and> hop_out h \<noteq> token_out \<and>
     connector_allowed (hop_out h) token_in token_out config"
  by (auto simp: open_prefix_def linked_path_def)

section \<open>Breadth-first order\<close>

lemma sorted_map_const:
  fixes f :: "'a \<Rightarrow> nat"
  shows "(\<And>x. x \<in> set xs \<Longrightarrow> f x = n) \<Longrightarrow> sorted (map f xs)"
  by (induction xs) auto

lemma bfs_start: "set q \<subseteq> set (bfs env q)"
proof (induction env q rule: bfs.induct)
  case (2 env s q)
  then show ?case by auto
qed simp

lemma bfs_closed: "s \<in> set (bfs env q) \<Longrightarrow> t \<in> set (state_pushes env s) \<Longrightarrow> t \<in> set (bfs env q)"
proof (induction env q rule: bfs.induct)
  case (2 env s' q)
  then show ?case using bfs_start [of "q @ state_pushes env s'" env] by auto
qed simp

lemma bfs_invariant:
  assumes "\<And>s t. P s \<Longrightarrow> t \<in> set (state_pushes env s) \<Longrightarrow> P t"
  shows "\<forall>s \<in> set q. P s \<Longrightarrow> \<forall>s \<in> set (bfs env q). P s"
  using assms
proof (induction env q rule: bfs.induct)
  case (2 env s q)
  have "P s" and "\<forall>t \<in> set (q @ state_pushes env s). P t" using "2.prems" by auto
  moreover have "\<forall>t \<in> set (bfs env (q @ state_pushes env s)). P t"
    using "2.IH" [OF calculation(2)] "2.prems"(2) by blast
  ultimately show ?case by simp
qed simp

text \<open>The queue of a breadth-first search holds prefixes of at most two lengths, in order.\<close>

definition level_queue :: "'p search_state list \<Rightarrow> bool" where
  "level_queue q \<longleftrightarrow> sorted (map (length \<circ> ss_path) q) \<and>
     (\<forall>s \<in> set q. length (ss_path s) \<le> Suc (length (ss_path (hd q))))"

lemma level_queue_step:
  assumes "level_queue (s # q)"
  shows "level_queue (q @ state_pushes env s)"
proof -
  let ?n = "length (ss_path s)" and ?new = "state_pushes env s"
  have new: "length (ss_path t) = Suc ?n" if "t \<in> set ?new" for t by (rule length_pushes [OF that])
  have q: "?n \<le> length (ss_path t)" "length (ss_path t) \<le> Suc ?n" if "t \<in> set q" for t
    using assms that by (auto simp: level_queue_def)
  have "sorted (map (length \<circ> ss_path) ?new)"
    using new by (intro sorted_map_const) simp
  then have "sorted (map (length \<circ> ss_path) (q @ ?new))"
    using assms q(2) new by (force simp: level_queue_def sorted_append)
  moreover have "length (ss_path t) \<le> Suc (length (ss_path (hd (q @ ?new))))" if "t \<in> set (q @ ?new)" for t
  proof -
    have "hd (q @ ?new) \<in> set (q @ ?new)" using that by (metis hd_in_set list.set_cases list.distinct(1))
    then have "?n \<le> length (ss_path (hd (q @ ?new)))" using q(1) new by fastforce
    moreover have "length (ss_path t) \<le> Suc ?n" using that q(2) new by fastforce
    ultimately show ?thesis by simp
  qed
  ultimately show ?thesis by (simp add: level_queue_def)
qed

lemma bfs_min_length:
  "\<forall>s \<in> set q. n \<le> length (ss_path s) \<Longrightarrow> \<forall>s \<in> set (bfs env q). n \<le> length (ss_path s)"
  by (rule bfs_invariant) (auto dest: length_pushes)

lemma bfs_sorted: "level_queue q \<Longrightarrow> sorted (map (length \<circ> ss_path) (bfs env q))"
proof (induction env q rule: bfs.induct)
  case (2 env s q)
  have "\<forall>t \<in> set (q @ state_pushes env s). length (ss_path s) \<le> length (ss_path t)"
    using "2.prems" length_pushes by (fastforce simp: level_queue_def)
  from bfs_min_length [OF this] "2.IH" [OF level_queue_step [OF "2.prems"]] show ?case by simp
qed simp

lemma state_hits_length: "p \<in> set (state_hits env s) \<Longrightarrow> length p = Suc (length (ss_path s)) \<and> butlast p = ss_path s"
  by (auto simp: state_hits_def hits_def split: if_splits)

lemma concat_hits_sorted:
  "sorted (map (length \<circ> ss_path) ss) \<Longrightarrow> sorted (map length (concat (map (state_hits env) ss)))"
proof (induction ss)
  case (Cons s ss)
  have "sorted (map length (state_hits env s))"
    using state_hits_length by (intro sorted_map_const) blast
  with Cons show ?case
    by (force simp: sorted_append dest: state_hits_length)
qed simp

lemma bfs_hits_sorted: "level_queue q \<Longrightarrow> sorted (map length (bfs_hits env q))"
  unfolding bfs_hits_def by (intro concat_hits_sorted bfs_sorted)

text \<open>No queued prefix extends another, so no path is produced twice.\<close>

definition prefix_free :: "'p search_state list \<Rightarrow> bool" where
  "prefix_free q \<longleftrightarrow>
     sorted_wrt (\<lambda>s t. \<not> prefix (ss_path s) (ss_path t) \<and> \<not> prefix (ss_path t) (ss_path s)) q"

definition hops_distinct :: "'p enum_env \<Rightarrow> bool" where
  "hops_distinct env \<longleftrightarrow> (\<forall>n. distinct (map edge_hop (env_out env n)))"

lemma distinct_map_filter_hop:
  "distinct (map f xs) \<Longrightarrow> distinct (map f (filter P xs))"
  by (rule distinct_map_filter)

lemma pushes_paths:
  "hops_distinct env \<Longrightarrow> distinct (map ss_path (state_pushes env s))"
proof -
  assume "hops_distinct env"
  then have "distinct (map (\<lambda>e. ss_path s @ [edge_hop e]) (filter P (env_out env n)))" for P n
    using distinct_map_filter [of edge_hop "env_out env n" P]
    by (auto simp: hops_distinct_def distinct_map inj_on_def)
  then show ?thesis
    by (simp add: state_pushes_def pushes_def child_state_def comp_def)
qed

lemma hits_distinct: "hops_distinct env \<Longrightarrow> distinct (state_hits env s)"
proof -
  assume "hops_distinct env"
  then have "distinct (map (\<lambda>e. ss_path s @ [edge_hop e]) (filter P (env_out env n)))" for P n
    using distinct_map_filter [of edge_hop "env_out env n" P]
    by (auto simp: hops_distinct_def distinct_map inj_on_def)
  then show ?thesis by (simp add: state_hits_def hits_def)
qed

lemma pushes_extend: "t \<in> set (state_pushes env s) \<Longrightarrow> \<exists>h. ss_path t = ss_path s @ [h]"
  by (auto simp: state_pushes_def pushes_def child_state_def split: if_splits)

lemma prefix_free_step:
  assumes "hops_distinct env" and "prefix_free (s # q)"
  shows "prefix_free (q @ state_pushes env s)"
proof -
  let ?new = "state_pushes env s"
  have "sorted_wrt (\<lambda>s t. \<not> prefix (ss_path s) (ss_path t) \<and> \<not> prefix (ss_path t) (ss_path s)) ?new"
  proof -
    have "\<not> prefix (ss_path x) (ss_path y)" if "x \<in> set ?new" "y \<in> set ?new" "ss_path x \<noteq> ss_path y" for x y
      using that pushes_extend [of x env s] pushes_extend [of y env s] by auto
    then show ?thesis
      using pushes_paths [OF assms(1), of s] by (fastforce simp: sorted_wrt_iff_nth_less distinct_conv_nth)
  qed
  moreover have "\<not> prefix (ss_path x) (ss_path y) \<and> \<not> prefix (ss_path y) (ss_path x)"
    if xy: "x \<in> set q" "y \<in> set ?new" for x y
  proof -
    obtain h where "ss_path y = ss_path s @ [h]" using pushes_extend [OF xy(2)] by blast
    moreover have "\<not> prefix (ss_path s) (ss_path x)" "\<not> prefix (ss_path x) (ss_path s)"
      using assms(2) xy(1) by (auto simp: prefix_free_def)
    ultimately show ?thesis using append_prefixD [of "ss_path s" "[h]" "ss_path x"] by auto
  qed
  ultimately show ?thesis
    using assms(2) by (auto simp: prefix_free_def sorted_wrt_append)
qed

lemma bfs_extends:
  "\<forall>s \<in> set (bfs env q). \<exists>r \<in> set q. prefix (ss_path r) (ss_path s)"
proof -
  have "\<forall>s \<in> set (bfs env q). (\<lambda>s. \<exists>r \<in> set q. prefix (ss_path r) (ss_path s)) s"
  proof (rule bfs_invariant)
    fix s t
    assume "\<exists>r \<in> set q. prefix (ss_path r) (ss_path s)" and "t \<in> set (state_pushes env s)"
    then show "\<exists>r \<in> set q. prefix (ss_path r) (ss_path t)"
      using pushes_extend [of t env s] by (auto intro: prefix_prefix)
  qed auto
  then show ?thesis by simp
qed

lemma bfs_paths_distinct:
  "hops_distinct env \<Longrightarrow> prefix_free q \<Longrightarrow> distinct (map ss_path (bfs env q))"
proof (induction env q rule: bfs.induct)
  case (2 env s q)
  have "ss_path s \<notin> ss_path ` set (bfs env (q @ state_pushes env s))"
  proof
    assume "ss_path s \<in> ss_path ` set (bfs env (q @ state_pushes env s))"
    then obtain r where "r \<in> set (q @ state_pushes env s)" "prefix (ss_path r) (ss_path s)"
      using bfs_extends [of env "q @ state_pushes env s"] by (metis imageE)
    then show False
      using "2.prems"(2) pushes_extend [of r env s] by (auto simp: prefix_free_def dest: prefix_length_le)
  qed
  with 2 prefix_free_step show ?case by auto
qed simp

lemma bfs_hits_distinct:
  assumes "hops_distinct env" and "prefix_free q"
  shows "distinct (bfs_hits env q)"
proof -
  have "distinct (concat (map (state_hits env) ss))" if "distinct (map ss_path ss)" for ss
    using that
  proof (induction ss)
    case (Cons s ss)
    then show ?case
      using hits_distinct [OF assms(1), of s] by (fastforce dest: state_hits_length)
  qed simp
  then show ?thesis
    using bfs_paths_distinct [OF assms] unfolding bfs_hits_def by blast
qed

end
