(* ===== verification/RouteGraph.thy ===== *)
theory RouteGraph
  imports RouteSpec
begin

text \<open>
  The interface between route enumeration and the token graph, and the correctness of
  enumeration over it: every route within the hop bounds is produced exactly once, shortest
  first, and nothing else. The consistent token graph provides the interface.
\<close>

section \<open>Interface\<close>

locale route_graph =
  fixes out :: "nat \<Rightarrow> 'p cached_outgoing_edge list"
    and node_of :: "address \<Rightarrow> nat option"
    and linked :: "'p \<Rightarrow> address \<Rightarrow> address \<Rightarrow> bool"
  assumes out_distinct: "distinct (out n)"
    and out_exact: "e \<in> set (out n) \<longleftrightarrow>
      linked (cached_pool e) (edge_token_in e) (edge_token_out e) \<and>
      node_of (edge_token_in e) = Some n \<and> node_of (edge_token_out e) = Some (edge_target e)"
    and node_inj: "node_of t = Some n \<Longrightarrow> node_of u = Some n \<Longrightarrow> t = u"
    and linked_nodes: "linked p t u \<Longrightarrow> node_of t \<noteq> None \<and> node_of u \<noteq> None"
begin

text \<open>An environment whose endpoints are the nodes of the requested tokens.\<close>

definition fits :: "'p enum_env \<Rightarrow> bool" where
  "fits env \<longleftrightarrow> env_out env = out \<and> node_of (env_in env) = Some (env_source env) \<and>
     node_of (env_to env) = Some (env_target env) \<and> 1 \<le> max_hops (env_config env)"

definition prefix_of :: "'p enum_env \<Rightarrow> 'p route_path \<Rightarrow> address \<Rightarrow> bool" where
  "prefix_of env = open_prefix linked (env_in env) (env_to env) (env_config env)"

definition route_of :: "'p enum_env \<Rightarrow> 'p route_path \<Rightarrow> bool" where
  "route_of env = candidate_route linked (env_in env) (env_to env) (env_config env) (env_revisit env)"

definition state_ok :: "'p enum_env \<Rightarrow> 'p search_state \<Rightarrow> bool" where
  "state_ok env s \<longleftrightarrow>
     (\<exists>t. prefix_of env (ss_path s) t \<and> node_of t = Some (ss_node s)) \<and>
     visited_tokens s = insert (env_in env) (hop_out ` set (ss_path s)) \<and>
     used_pools s = hop_pool ` set (ss_path s)"

lemma hops_distinct_out: "fits env \<Longrightarrow> hops_distinct env"
proof -
  assume "fits env"
  have "inj_on edge_hop (set (out n))" for n
  proof (rule inj_onI)
    fix e f
    assume "e \<in> set (out n)" "f \<in> set (out n)" and h: "edge_hop e = edge_hop f"
    then have "node_of (edge_token_out e) = Some (edge_target e)"
      "node_of (edge_token_out f) = Some (edge_target f)" by (simp_all add: out_exact)
    with h show "e = f" by (simp add: edge_hop_def)
  qed
  then show ?thesis
    using \<open>fits env\<close> out_distinct by (simp add: hops_distinct_def fits_def distinct_map)
qed

lemma closes_iff:
  "fits env \<Longrightarrow> e \<in> set (out n) \<Longrightarrow> edge_target e = env_target env \<longleftrightarrow> edge_token_out e = env_to env"
  using node_inj by (fastforce simp: fits_def out_exact)

lemma usable_open:
  assumes "fits env" and "state_ok env s" and "e \<in> set (out (ss_node s))"
    and "edge_target e \<noteq> env_target env"
  shows "edge_usable env s e \<longleftrightarrow> prefix_of env (ss_path s @ [edge_hop e]) (edge_token_out e)"
proof -
  obtain t where t: "prefix_of env (ss_path s) t" "node_of t = Some (ss_node s)"
    using assms(2) by (auto simp: state_ok_def)
  have e: "linked (cached_pool e) (edge_token_in e) (edge_token_out e)" "edge_token_in e = t"
    using assms(3) t(2) node_inj by (auto simp: out_exact)
  have "edge_token_out e \<noteq> env_to env" using assms(4) closes_iff [OF assms(1,3)] by simp
  moreover have "\<not> (env_source env = env_target env \<and> edge_target e = env_source env)" using assms(4) by auto
  ultimately show ?thesis
    using e t assms(2,4) unfolding prefix_of_def open_prefix_snoc
    by (auto simp: edge_usable_def state_ok_def edge_hop_def)
qed

lemma usable_closing:
  assumes "fits env" and "state_ok env s" and "e \<in> set (out (ss_node s))"
    and "edge_target e = env_target env"
    and "min_hops (env_config env) \<le> Suc (length (ss_path s))" "length (ss_path s) < max_hops (env_config env)"
  shows "edge_usable env s e \<longleftrightarrow> route_of env (ss_path s @ [edge_hop e])"
proof -
  obtain t where t: "prefix_of env (ss_path s) t" "node_of t = Some (ss_node s)"
    using assms(2) by (auto simp: state_ok_def)
  have e: "linked (cached_pool e) (edge_token_in e) (edge_token_out e)" "edge_token_in e = t"
    using assms(3) t(2) node_inj by (auto simp: out_exact)
  have o2: "edge_token_out e = env_to env" using assms(4) closes_iff [OF assms(1,3)] by simp
  have st: "env_source env = env_target env \<longleftrightarrow> env_in env = env_to env"
    using assms(1) node_inj by (auto simp: fits_def)
  have "env_to env \<notin> hop_out ` set (ss_path s)" using t(1) by (simp add: prefix_of_def open_prefix_def)
  then have "edge_usable env s e \<longleftrightarrow>
      cached_pool e \<notin> hop_pool ` set (ss_path s) \<and> (env_in env = env_to env \<longrightarrow> env_revisit env)"
    unfolding edge_usable_def using o2 st assms(2,4)
    by (cases "env_in env = env_to env") (simp_all add: state_ok_def)
  then show ?thesis
    using e t(1) o2 assms(5,6) unfolding prefix_of_def route_of_def candidate_route_snoc
    by (simp add: edge_hop_def)
qed

lemma pushes_ok:
  assumes "fits env" and "state_ok env s" and "t \<in> set (state_pushes env s)"
  shows "state_ok env t"
proof -
  obtain e where e: "e \<in> set (out (ss_node s))" "edge_usable env s e" "edge_target e \<noteq> env_target env"
    "t = child_state s e"
    using assms(1,3) by (auto simp: state_pushes_def pushes_def fits_def split: if_splits)
  have "prefix_of env (ss_path t) (edge_token_out e)"
    using usable_open [OF assms(1,2) e(1,3)] e(2,4) by (simp add: child_state_def)
  moreover have "node_of (edge_token_out e) = Some (ss_node t)"
    using e(1,4) by (simp add: out_exact child_state_def)
  ultimately show ?thesis
    using assms(2) e(4) by (auto simp: state_ok_def child_state_def edge_hop_def)
qed

lemma initial_ok: "fits env \<Longrightarrow> state_ok env (initial_state env)"
  by (simp add: state_ok_def prefix_of_def initial_state_def fits_def open_prefix_def linked_path_def)

lemma bfs_ok: "fits env \<Longrightarrow> s \<in> set (bfs env [initial_state env]) \<Longrightarrow> state_ok env s"
proof -
  assume f: "fits env" and s: "s \<in> set (bfs env [initial_state env])"
  have "\<forall>s \<in> set (bfs env [initial_state env]). state_ok env s"
    by (rule bfs_invariant [OF pushes_ok [OF f]]) (simp_all add: initial_ok [OF f])
  then show ?thesis using s by blast
qed

lemma hits_sound:
  assumes "fits env" and "p \<in> set (bfs_hits env [initial_state env])"
  shows "route_of env p"
proof -
  obtain s where s: "s \<in> set (bfs env [initial_state env])" "p \<in> set (state_hits env s)"
    using assms(2) by (auto simp: bfs_hits_def)
  then obtain e where "e \<in> set (out (ss_node s))" "edge_usable env s e" "edge_target e = env_target env"
    "min_hops (env_config env) \<le> Suc (length (ss_path s))" "length (ss_path s) < max_hops (env_config env)"
    "p = ss_path s @ [edge_hop e]"
    using assms(1) by (auto simp: state_hits_def hits_def fits_def split: if_splits)
  with usable_closing [OF assms(1) bfs_ok [OF assms(1) s(1)]] show ?thesis by simp
qed

text \<open>The edge a hop of a linked path is stored as.\<close>

lemma hop_edge:
  assumes "linked (hop_pool h) (hop_in h) (hop_out h)" and "node_of (hop_in h) = Some n"
  obtains e where "e \<in> set (out n)" and "edge_hop e = h"
proof -
  obtain m where "node_of (hop_out h) = Some m" using linked_nodes [OF assms(1)] by auto
  then have "\<lparr>edge_target = m, edge_token_in = hop_in h, edge_token_out = hop_out h, cached_pool = hop_pool h\<rparr>
      \<in> set (out n)" using assms by (simp add: out_exact)
  then show thesis by (rule that) (simp add: edge_hop_def)
qed

lemma prefix_visited:
  assumes "fits env" and "prefix_of env path t" and "length path < max_hops (env_config env)"
  shows "\<exists>s \<in> set (bfs env [initial_state env]). ss_path s = path"
  using assms(2,3)
proof (induction path arbitrary: t rule: rev_induct)
  case Nil
  then show ?case using bfs_start [of "[initial_state env]" env] by (auto simp: initial_state_def)
next
  case (snoc h path)
  have p: "prefix_of env path (hop_in h)" "linked (hop_pool h) (hop_in h) (hop_out h)" "hop_out h \<noteq> env_to env" "t = hop_out h"
    using snoc.prems(1) by (auto simp: prefix_of_def open_prefix_snoc)
  obtain s where s: "s \<in> set (bfs env [initial_state env])" "ss_path s = path"
    using snoc.IH [OF p(1)] snoc.prems(2) by auto
  note ok = bfs_ok [OF assms(1) s(1)]
  then obtain u where u: "prefix_of env path u" "node_of u = Some (ss_node s)" using s(2) by (auto simp: state_ok_def)
  have "u = hop_in h"
  proof -
    have "chain (env_in env) path u" "chain (env_in env) path (hop_in h)"
      using u(1) p(1) by (auto simp: prefix_of_def open_prefix_def)
    then show ?thesis by (cases path rule: rev_cases) auto
  qed
  then obtain e where e: "e \<in> set (out (ss_node s))" "edge_hop e = h" using hop_edge [OF p(2)] u(2) by auto
  have "edge_token_out e = hop_out h" using e(2) by (auto simp: edge_hop_def)
  then have ne: "edge_target e \<noteq> env_target env" using closes_iff [OF assms(1) e(1)] p(3) by simp
  have "edge_usable env s e"
    using usable_open [OF assms(1) ok e(1) ne] snoc.prems(1) s(2) e(2) p(4) \<open>edge_token_out e = hop_out h\<close> by simp
  then have "child_state s e \<in> set (state_pushes env s)"
    using assms(1) e ne s(2) snoc.prems(2) by (auto simp: state_pushes_def pushes_def fits_def)
  then have "child_state s e \<in> set (bfs env [initial_state env])" by (rule bfs_closed [OF s(1)])
  then show ?case using s(2) e(2) by (intro bexI [of _ "child_state s e"]) (simp_all add: child_state_def)
qed

lemma hits_complete:
  assumes "fits env" and "route_of env p"
  shows "p \<in> set (bfs_hits env [initial_state env])"
proof -
  obtain path h where p: "p = path @ [h]"
    using assms(2) by (metis candidate_route_def rev_exhaust route_of_def)
  have r: "prefix_of env path (hop_in h)" "linked (hop_pool h) (hop_in h) (hop_out h)" "hop_out h = env_to env"
    "min_hops (env_config env) \<le> Suc (length path)" "length path < max_hops (env_config env)"
    using assms(2) by (auto simp: p route_of_def candidate_route_snoc prefix_of_def)
  obtain s where s: "s \<in> set (bfs env [initial_state env])" "ss_path s = path"
    using prefix_visited [OF assms(1) r(1,5)] by auto
  note ok = bfs_ok [OF assms(1) s(1)]
  then obtain u where u: "prefix_of env path u" "node_of u = Some (ss_node s)" using s(2) by (auto simp: state_ok_def)
  have "chain (env_in env) path u" "chain (env_in env) path (hop_in h)"
    using u(1) r(1) by (auto simp: prefix_of_def open_prefix_def)
  then have "u = hop_in h" by (cases path rule: rev_cases) auto
  then obtain e where e: "e \<in> set (out (ss_node s))" "edge_hop e = h" using hop_edge [OF r(2)] u(2) by auto
  have "edge_target e = env_target env" using closes_iff [OF assms(1) e(1)] r(3) e(2) by (auto simp: edge_hop_def)
  with usable_closing [OF assms(1) ok e(1)] assms e s(2) r p
  have "p \<in> set (state_hits env s)" by (auto simp: state_hits_def hits_def fits_def)
  with s(1) show ?thesis by (auto simp: bfs_hits_def)
qed

text \<open>The breadth-first list of complete paths is the list of routes.\<close>

definition all_routes :: "'p enum_env \<Rightarrow> 'p route_path list" where
  "all_routes env = bfs_hits env [initial_state env]"

lemma all_routes_exact:
  assumes "fits env"
  shows "set (all_routes env) = {p. route_of env p}" and "distinct (all_routes env)"
    and "sorted (map length (all_routes env))"
proof -
  show "set (all_routes env) = {p. route_of env p}"
    using hits_sound [OF assms] hits_complete [OF assms] by (auto simp: all_routes_def)
  show "distinct (all_routes env)"
    unfolding all_routes_def using hops_distinct_out [OF assms]
    by (intro bfs_hits_distinct) (simp_all add: prefix_free_def)
  show "sorted (map length (all_routes env))"
    unfolding all_routes_def by (intro bfs_hits_sorted) (simp add: level_queue_def)
qed

end

section \<open>The token graph provides the interface\<close>

definition pool_links :: "('g, 'p) amm_graph \<Rightarrow> 'p \<Rightarrow> address \<Rightarrow> address \<Rightarrow> bool" where
  "pool_links g p t u \<longleftrightarrow> (\<exists>ts. pool_tokens g p = Some ts \<and> t \<in> set ts \<and> u \<in> set ts \<and> t \<noteq> u)"

locale consistent_graph =
  fixes G :: "('g, 'p) stable_graph_ops"
    and ends :: "'g \<Rightarrow> nat \<Rightarrow> (nat \<times> nat) option"
    and g :: "('g, 'p) amm_graph"
  assumes consistent: "graph_inv G ends g"

sublocale consistent_graph \<subseteq> route_graph "outgoing_edges g" "node_index g" "pool_links g"
proof
  fix n t u e p
  show "distinct (outgoing_edges g n)" using consistent by (simp add: inv_defs)
  have "set (outgoing_edges g n) = out_spec g n" using consistent by (simp add: inv_defs)
  then show "e \<in> set (outgoing_edges g n) \<longleftrightarrow>
      pool_links g (cached_pool e) (edge_token_in e) (edge_token_out e) \<and>
      node_index g (edge_token_in e) = Some n \<and> node_index g (edge_token_out e) = Some (edge_target e)"
    by (auto simp: out_spec_def pool_links_def node_index_def)
  show "node_index g t = Some n \<Longrightarrow> node_index g u = Some n \<Longrightarrow> t = u"
    using consistent inv_nodes_inj by (auto simp: graph_inv_def node_index_def)
  show "pool_links g p t u \<Longrightarrow> node_index g t \<noteq> None \<and> node_index g u \<noteq> None"
    using graph_inv_tokens(2) [OF consistent] by (auto simp: pool_links_def node_index_def dom_def)
qed

interpretation demo: consistent_graph slot_graph_ops slot_ends demo_graph
  by unfold_locales (rule demo_graph_inv)

end
