(* ===== verification/EnumerateProps.thy ===== *)
theory EnumerateProps
  imports RouteGraph
begin

text \<open>
  What callers of route enumeration rely on: the exact set of candidates, their order, the
  effect of the limit, of the exclusion set and of the continuation poll, and every error.
\<close>

definition routes_between ::
  "('g, 'p) amm_graph \<Rightarrow> address \<Rightarrow> address \<Rightarrow> search_config \<Rightarrow> bool \<Rightarrow> 'p route_path set" where
  "routes_between g token_in token_out config revisit =
     {p. candidate_route (pool_links g) token_in token_out config revisit p}"

text \<open>A list of all routes, each once, shortest first.\<close>

definition lists_routes :: "'p route_path list \<Rightarrow> 'p route_path set \<Rightarrow> bool" where
  "lists_routes all R \<longleftrightarrow> set all = R \<and> distinct all \<and> sorted (map length all)"

lemma prefix_take_opt: "prefix (take_opt limit xs) xs"
  by (simp add: take_opt_def take_is_prefix split: option.split)

lemma take_opt_Nil: "limit \<noteq> Some 0 \<Longrightarrow> take_opt limit xs = [] \<longleftrightarrow> xs = []"
  by (cases limit) (auto simp: take_opt_def)

lemma prefix_filter_take: "prefix (filter P (take n xs)) (filter P xs)"
  by (metis append_take_drop_id filter_append prefixI)

lemma tally_run:
  assumes "env_limit env \<noteq> Some 0" and "tally env ps ([], 0, False) = (fin, P, d, f)"
  shows "P = take_opt (env_limit env) (filter (\<lambda>p. p \<notin> env_excluded env) ps)" and "f \<longleftrightarrow> ps \<noteq> []"
    and "env_limit env = None \<Longrightarrow> d = saturating_add 0 (length (filter (\<lambda>p. p \<in> env_excluded env) ps))"
proof -
  have "\<not> limit_reached env (length ([] :: 'a route_path list))"
    using assms(1) by (auto simp: limit_reached_def split: option.split)
  from tally_paths [OF this, of ps 0 False] show "P = take_opt (env_limit env) (filter (\<lambda>p. p \<notin> env_excluded env) ps)"
    using assms(2) by simp
  show "f \<longleftrightarrow> ps \<noteq> []" using tally_found [of env ps "[]" 0 False] assms(2) by simp
  show "d = saturating_add 0 (length (filter (\<lambda>p. p \<in> env_excluded env) ps))" if "env_limit env = None"
    using tally_duplicates [OF that, of ps "[]" 0 False] assms(2)
    by (auto simp: saturating_add_def split: if_splits)
qed

context consistent_graph
begin

lemma search_loop_routes:
  assumes "search_ok config"
    and "node_index g token_in = Some source" and "node_index g token_out = Some target"
    and lim: "limit \<noteq> Some 0"
    and env: "env = enumerate_env g source target token_in token_out config revisit excluded limit continue"
    and l: "l = search_loop env (initial_locals env)"
  shows "lists_routes (all_routes env) (routes_between g token_in token_out config revisit)"
    and "\<not> el_stopped l \<Longrightarrow> el_paths l = take_opt limit (filter (\<lambda>p. p \<notin> excluded) (all_routes env))"
    and "\<not> el_stopped l \<Longrightarrow> el_found l \<longleftrightarrow> all_routes env \<noteq> []"
    and "\<not> el_stopped l \<Longrightarrow> limit = None \<Longrightarrow>
      el_duplicates l = saturating_add 0 (length (filter (\<lambda>p. p \<in> excluded) (all_routes env)))"
    and "el_stopped l \<Longrightarrow> continue \<noteq> None"
    and "prefix (el_paths l) (filter (\<lambda>p. p \<notin> excluded) (all_routes env))"
proof -
  have "fits env" using assms(1-3) by (simp add: fits_def env enumerate_env_def search_ok_def)
  note all = all_routes_exact [OF this]
  show "lists_routes (all_routes env) (routes_between g token_in token_out config revisit)"
    using all by (simp add: lists_routes_def routes_between_def route_of_def env enumerate_env_def)
  have fld: "env_limit env = limit" "env_excluded env = excluded" "env_continue env = continue"
    by (simp_all add: env enumerate_env_def)
  have q: "el_queue (initial_locals env) = [initial_state env]" "core (initial_locals env) = ([], 0, False)"
    "\<not> el_stopped (initial_locals env)"
    by (simp_all add: initial_locals_def core_def)
  have cl: "core l = (el_paths l, el_duplicates l, el_found l)" by (simp add: core_def)
  note r = search_loop_result [OF q(3), of env, folded l]
  note run = tally_run [of env, unfolded fld, OF lim]
  have full: "tally env (all_routes env) ([], 0, False) =
      (fst (tally env (all_routes env) ([], 0, False)), el_paths l, el_duplicates l, el_found l)" if "\<not> el_stopped l"
    using r that by (simp add: loop_result_def q all_routes_def cl prod_eq_iff del: bfs_hits_simps)
  show paths: "el_paths l = take_opt limit (filter (\<lambda>p. p \<notin> excluded) (all_routes env))" if "\<not> el_stopped l"
    by (rule run(1) [OF full [OF that]])
  show "el_found l \<longleftrightarrow> all_routes env \<noteq> []" if "\<not> el_stopped l"
    by (rule run(2) [OF full [OF that]])
  show "el_duplicates l = saturating_add 0 (length (filter (\<lambda>p. p \<in> excluded) (all_routes env)))"
    if "\<not> el_stopped l" "limit = None"
    by (rule run(3) [OF full [OF that(1)] that(2)])
  show "continue \<noteq> None" if "el_stopped l" using r that fld by (simp add: loop_result_def)
  show "prefix (el_paths l) (filter (\<lambda>p. p \<notin> excluded) (all_routes env))"
  proof (cases "el_stopped l")
    case False
    then show ?thesis using paths prefix_take_opt by simp
  next
    case True
    then obtain n where "tally env (take n (all_routes env)) ([], 0, False) =
        (False, el_paths l, el_duplicates l, el_found l)"
      using r by (auto simp: loop_result_def q all_routes_def cl simp del: bfs_hits_simps)
    from run(1) [OF this] show ?thesis
      by (metis prefix_take_opt prefix_filter_take prefix_order.trans)
  qed
qed

end

section \<open>Properties\<close>

lemma enumerate_routes_cases:
  assumes "graph_inv G ends g"
  shows "case (enumerate_routes g token_in token_out config revisit :: ('p, 'e) search_error + 'p route_path list) of
      Inl err \<Rightarrow>
        (if \<not> search_ok config then \<exists>reason. err = InvalidConfig reason
         else if node_index g token_in = None then err = TokenNotFound token_in
         else if node_index g token_out = None then err = TokenNotFound token_out
         else err = NoPath token_in token_out \<and>
              routes_between g token_in token_out config revisit = {})
    | Inr paths \<Rightarrow>
        search_ok config \<and> node_index g token_in \<noteq> None \<and> node_index g token_out \<noteq> None \<and> paths \<noteq> [] \<and>
        (\<exists>all. lists_routes all (routes_between g token_in token_out config revisit) \<and>
               paths = take_opt (max_candidates config) all)"
proof (cases "validate_search config :: ('p, 'e) search_error + unit")
  case (Inl err)
  then have "\<not> search_ok config" using validate_search_ok [where 'p = 'p and 'e = 'e, of config] by simp
  with Inl validate_search_error [OF Inl] show ?thesis
    by (simp add: enumerate_routes_def enumerate_routes_filtered_def)
next
  case (Inr u)
  then have ok: "search_ok config" using validate_search_ok [where 'p = 'p and 'e = 'e, of config] by simp
  show ?thesis
  proof (cases "node_index g token_in = None \<or> node_index g token_out = None")
    case True
    then show ?thesis using Inr ok
      by (cases "node_index g token_in") (auto simp: enumerate_routes_def enumerate_routes_filtered_def)
  next
    case False
    then obtain source target where n: "node_index g token_in = Some source" "node_index g token_out = Some target"
      by auto
    have lim: "max_candidates config \<noteq> Some 0" using ok by (simp add: search_ok_def)
    let ?env = "enumerate_env g source target token_in token_out config revisit {} (max_candidates config) None"
    let ?l = "search_loop ?env (initial_locals ?env)"
    note r = consistent_graph.search_loop_routes [OF consistent_graph.intro [OF assms] ok n lim refl refl,
        where revisit = revisit and excluded = "{}" and continue = None]
    have "\<not> el_stopped ?l" using r(5) by blast
    note r = r(1) r(2,3) [OF this] this
    let ?all = "route_graph.all_routes ?env"
    have e: "(enumerate_routes g token_in token_out config revisit :: ('p, 'e) search_error + 'p route_path list) =
        (if ?all = [] then Inl (NoPath token_in token_out) else Inr (take_opt (max_candidates config) ?all))"
      using Inr n lim r by (simp add: enumerate_routes_def enumerate_routes_filtered_def Let_def)
    have "take_opt (max_candidates config) ?all \<noteq> []" if "?all \<noteq> []"
      using that lim by (simp add: take_opt_Nil)
    then show ?thesis using e r(1) ok n by (auto simp: lists_routes_def)
  qed
qed

text \<open>C7. Route enumeration is exact. On a consistent graph it rejects an invalid
  configuration, reports the first requested token without a node, reports that there is no
  path exactly when no candidate route exists, and otherwise returns the first
  \<^verbatim>\<open>max_candidates\<close> entries of a list of all candidate routes, each once, shortest first.\<close>

theorem enumerate_routes_exact:
  assumes "graph_inv G ends g"
  shows "case (enumerate_routes g token_in token_out config revisit :: ('p, 'e) search_error + 'p route_path list) of
      Inl err \<Rightarrow>
        (if \<not> search_ok config then \<exists>reason. err = InvalidConfig reason
         else if node_index g token_in = None then err = TokenNotFound token_in
         else if node_index g token_out = None then err = TokenNotFound token_out
         else err = NoPath token_in token_out \<and>
              routes_between g token_in token_out config revisit = {})
    | Inr paths \<Rightarrow>
        search_ok config \<and> node_index g token_in \<noteq> None \<and> node_index g token_out \<noteq> None \<and> paths \<noteq> [] \<and>
        (\<exists>all. lists_routes all (routes_between g token_in token_out config revisit) \<and>
               paths = take_opt (max_candidates config) all)"
  by (rule enumerate_routes_cases [OF assms])

lemma demo_nodes: "node_index demo_graph 1 \<noteq> None" "node_index demo_graph 2 \<noteq> None"
proof -
  have "pool_tokens demo_graph 2 = Some [1, 2]" by (simp add: demo_graph_inv(2))
  from graph_inv_tokens(2) [OF demo_graph_inv(1) this]
  show "node_index demo_graph 1 \<noteq> None" "node_index demo_graph 2 \<noteq> None"
    by (auto simp: node_index_def)
qed

lemma demo_default_ok: "search_ok default_config"
  by (simp add: search_ok_def default_config_def)

definition demo_hop :: "nat hop" where
  "demo_hop = \<lparr>hop_pool = 2, hop_in = 1, hop_out = 2\<rparr>"

lemma demo_route: "[demo_hop] \<in> routes_between demo_graph 1 2 default_config False"
  by (simp add: routes_between_def candidate_route_def demo_hop_def default_config_def linked_path_def
      pool_links_def demo_graph_inv(2))

theorem enumerate_routes_exact_witness:
  "\<exists>paths. (enumerate_routes demo_graph 1 2 default_config False :: (nat, unit) search_error + nat route_path list)
             = Inr paths \<and> [demo_hop] \<in> set paths \<and> distinct paths"
proof -
  have "routes_between demo_graph 1 2 default_config False \<noteq> {}" using demo_route by blast
  with enumerate_routes_exact [OF demo_graph_inv(1), where token_in = 1 and token_out = 2 and config = default_config and
      revisit = False and 'e = unit]
    demo_nodes demo_default_ok
  obtain paths all where p: "(enumerate_routes demo_graph 1 2 default_config False ::
      (nat, unit) search_error + nat route_path list) = Inr paths"
    "lists_routes all (routes_between demo_graph 1 2 default_config False)"
    "paths = take_opt (max_candidates default_config) all"
    by (auto split: sum.splits)
  then show ?thesis
    using demo_route by (auto simp: lists_routes_def take_opt_def default_config_def)
qed



end
