(* ===== verification/Quoting.thy ===== *)
theory Quoting
  imports SearchConfig
begin

text \<open>
  Quoting one hop and one path through the protocol adapters. The registry and its adapters
  belong to \<^verbatim>\<open>evm_amm_state\<close>, so their operations are the fields of a record the quoting
  functions take; a simulation may update the adapter cache \<open>'c\<close> it is given. The last field
  is the \<^verbatim>\<open>Display\<close> rendering of errors, which the source turns failures into.
\<close>

record ('p, 'a, 'c, 's, 'e) adapter_registry =
  ar_pool :: "'p \<Rightarrow> 'p pool_registration option"
  ar_protocol :: "'p \<Rightarrow> protocol_id"
  ar_adapter :: "protocol_id \<Rightarrow> 'a option"
  ar_simulate_swap ::
    "'a \<Rightarrow> 'p pool_registration \<Rightarrow> 'c \<Rightarrow> address \<Rightarrow> address \<Rightarrow> u256 \<Rightarrow> 's sim_config_scheme \<Rightarrow> ('e + u256) \<times> 'c"
  ar_render :: "('p, 'e) search_error \<Rightarrow> string"

text \<open>One hop, with the error as a value: what both quoting functions do per hop.\<close>

definition simulate_hop ::
  "('p, 'a, 'c, 's, 'e) adapter_registry \<Rightarrow> 'p hop \<Rightarrow> u256 \<Rightarrow> 'c \<Rightarrow> 's sim_config_scheme \<Rightarrow>
     (('p, 'e) search_error + u256) \<times> 'c" where
  "simulate_hop R h amount cache sim =
     (case ar_pool R (hop_pool h) of
        None \<Rightarrow> (Inl (MissingPool (hop_pool h)), cache)
      | Some pool \<Rightarrow>
          (case ar_adapter R (ar_protocol R (hop_pool h)) of
             None \<Rightarrow> (Inl (MissingAdapter (ar_protocol R (hop_pool h))), cache)
           | Some adapter \<Rightarrow>
               (case ar_simulate_swap R adapter pool cache (hop_in h) (hop_out h) amount sim of
                  (Inl source, cache') \<Rightarrow> (Inl (QuoteFailed h source), cache')
                | (Inr amount_out, cache') \<Rightarrow> (Inr amount_out, cache'))))"

definition quote_hop_uncached ::
  "('p, 'a, 'c, 's, 'e) adapter_registry \<Rightarrow> 'p hop \<Rightarrow> u256 \<Rightarrow> 'c \<Rightarrow> 's sim_config_scheme \<Rightarrow>
     (string + u256) \<times> 'c" where
  "quote_hop_uncached R h amount cache sim =
     (case simulate_hop R h amount cache sim of
        (Inl err, cache') \<Rightarrow> (Inl (ar_render R err), cache')
      | (Inr amount_out, cache') \<Rightarrow> (Inr amount_out, cache'))"

text \<open>The hop loop of \<^verbatim>\<open>quote_path_with_registry\<close>: running amount and the trace so far.\<close>

fun quote_hops ::
  "('p, 'a, 'c, 's, 'e) adapter_registry \<Rightarrow> 's sim_config_scheme \<Rightarrow> 'p hop list \<Rightarrow> u256 \<Rightarrow>
     'p hop_quote list \<Rightarrow> 'c \<Rightarrow> (('p, 'e) search_error + u256 \<times> 'p hop_quote list) \<times> 'c" where
  "quote_hops R sim [] amount trace cache = (Inr (amount, trace), cache)"
| "quote_hops R sim (h # hs) amount trace cache =
     (case simulate_hop R h amount cache sim of
        (Inl err, cache') \<Rightarrow> (Inl err, cache')
      | (Inr amount_out, cache') \<Rightarrow>
          quote_hops R sim hs amount_out
            (trace @ [\<lparr>hq_hop = h, hq_amount_in = amount, hq_amount_out = amount_out\<rparr>]) cache')"

definition quote_path_with_registry ::
  "('p, 'a, 'c, 's, 'e) adapter_registry \<Rightarrow> 'p route_path \<Rightarrow> u256 \<Rightarrow> 'c \<Rightarrow> 's sim_config_scheme \<Rightarrow>
     (('p, 'e) search_error + 'p route_quote) \<times> 'c" where
  "quote_path_with_registry R path amount_in cache sim =
     (if path = [] then (Inl EmptyPath, cache)
      else case quote_hops R sim path amount_in [] cache of
             (Inl err, cache') \<Rightarrow> (Inl err, cache')
           | (Inr (amount, hops), cache') \<Rightarrow>
               (Inr \<lparr>rq_path = path, rq_amount_in = amount_in, rq_amount_out = amount, rq_hops = hops\<rparr>, cache'))"

section \<open>Reference prices\<close>

text \<open>A path priced by a function from hop and input amount to output amount or failure
  reason.\<close>

fun price_hops ::
  "('p hop \<Rightarrow> u256 \<Rightarrow> 'x + u256) \<Rightarrow> u256 \<Rightarrow> 'p hop list \<Rightarrow> 'x + u256 \<times> 'p hop_quote list" where
  "price_hops price amount [] = Inr (amount, [])"
| "price_hops price amount (h # hs) =
     (case price h amount of
        Inl reason \<Rightarrow> Inl reason
      | Inr out \<Rightarrow>
          (case price_hops price out hs of
             Inl reason \<Rightarrow> Inl reason
           | Inr (final, trace) \<Rightarrow>
               Inr (final, \<lparr>hq_hop = h, hq_amount_in = amount, hq_amount_out = out\<rparr> # trace)))"

definition price_path ::
  "('p hop \<Rightarrow> u256 \<Rightarrow> 'x + u256) \<Rightarrow> u256 \<Rightarrow> 'p route_path \<Rightarrow> 'x + 'p route_quote" where
  "price_path price amount_in path =
     (case price_hops price amount_in path of
        Inl reason \<Rightarrow> Inl reason
      | Inr (amount, hops) \<Rightarrow>
          Inr \<lparr>rq_path = path, rq_amount_in = amount_in, rq_amount_out = amount, rq_hops = hops\<rparr>)"

lemma price_hops_append:
  "price_hops price amount (hs @ ks) =
     (case price_hops price amount hs of
        Inl reason \<Rightarrow> Inl reason
      | Inr (mid, trace) \<Rightarrow>
          (case price_hops price mid ks of
             Inl reason \<Rightarrow> Inl reason
           | Inr (final, trace') \<Rightarrow> Inr (final, trace @ trace')))"
  by (induction hs arbitrary: amount) (auto split: sum.splits prod.splits)

text \<open>A trace is the chain of amounts through the hops of the path.\<close>

fun trace_ok :: "u256 \<Rightarrow> 'p hop_quote list \<Rightarrow> u256 \<Rightarrow> bool" where
  "trace_ok amount [] final \<longleftrightarrow> amount = final"
| "trace_ok amount (q # qs) final \<longleftrightarrow> hq_amount_in q = amount \<and> trace_ok (hq_amount_out q) qs final"

lemma price_hops_trace:
  "price_hops price amount hs = Inr (final, trace) \<Longrightarrow>
     map hq_hop trace = hs \<and> trace_ok amount trace final \<and>
     (\<forall>q \<in> set trace. price (hq_hop q) (hq_amount_in q) = Inr (hq_amount_out q))"
  by (induction hs arbitrary: amount trace) (auto split: sum.splits prod.splits)

section \<open>Interface of a hop quoter\<close>

text \<open>
  What path evaluation relies on when it quotes hops through a stateful service: while the
  service's state is good, each answer is the reference price and the state stays good.
\<close>

locale hop_quoter =
  fixes quote :: "'p hop \<Rightarrow> u256 \<Rightarrow> 'w \<Rightarrow> (string + u256) \<times> 'w"
    and price :: "'p hop \<Rightarrow> u256 \<Rightarrow> string + u256"
    and good :: "'w \<Rightarrow> bool"
  assumes quote_price: "good w \<Longrightarrow> fst (quote h amount w) = price h amount"
    and quote_good: "good w \<Longrightarrow> good (snd (quote h amount w))"

text \<open>Adapters whose simulation result does not depend on the state of their cache.\<close>

definition adapters_deterministic ::
  "('p, 'a, 'c, 's, 'e) adapter_registry \<Rightarrow>
     ('p hop \<Rightarrow> u256 \<Rightarrow> 's sim_config_scheme \<Rightarrow> ('p, 'e) search_error + u256) \<Rightarrow> bool" where
  "adapters_deterministic R price \<longleftrightarrow>
     (\<forall>h amount cache sim. fst (simulate_hop R h amount cache sim) = price h amount sim)"

lemma simulate_hop_price:
  assumes "adapters_deterministic R price"
  obtains cache' where "simulate_hop R h amount cache sim = (price h amount sim, cache')"
  using assms unfolding adapters_deterministic_def by (metis prod.exhaust_sel)

lemma quote_hops_price:
  assumes "adapters_deterministic R price"
  shows "fst (quote_hops R sim hs amount trace cache) =
    (case price_hops (\<lambda>h a. price h a sim) amount hs of
       Inl err \<Rightarrow> Inl err
     | Inr (final, trace') \<Rightarrow> Inr (final, trace @ trace'))"
proof (induction hs arbitrary: amount trace cache)
  case (Cons h hs)
  obtain cache' where "simulate_hop R h amount cache sim = (price h amount sim, cache')"
    by (rule simulate_hop_price [OF assms])
  then show ?case
    by (cases "price h amount sim") (auto simp: Cons.IH split: sum.splits prod.splits)
qed simp

lemma quote_path_price:
  assumes "adapters_deterministic R price" and "path \<noteq> []"
  shows "fst (quote_path_with_registry R path amount cache sim) =
    price_path (\<lambda>h a. price h a sim) amount path"
  using quote_hops_price [OF assms(1), of sim path amount "[]" cache] assms(2)
  by (auto simp: quote_path_with_registry_def price_path_def split: sum.splits prod.splits)

end
