(* ===== verification/QuoteCache.thy ===== *)
theory QuoteCache
  imports Quoting
begin

text \<open>
  The exact-hop quote cache shared by the workers of a search, \<^verbatim>\<open>SharedQuoteCache\<close>: keys and
  their pool scopes, the entry map with its in-flight marker, the index from pools to keys,
  the counters, and the operations, each split into the critical sections the source runs
  under the entry lock. Pool state references are a type variable \<open>'l\<close>: in the source a
  reference is the triple of pool instance, revision and state point of a live snapshot.
\<close>

section \<open>Keys\<close>

record sim_config_key =
  key_v3_quoter :: address
  key_v2_router :: address
  key_from :: address

definition sim_config_key_of :: "'s sim_config_scheme \<Rightarrow> sim_config_key" where
  "sim_config_key_of config =
     \<lparr>key_v3_quoter = v3_quoter config, key_v2_router = v2_router config, key_from = sim_from config\<rparr>"

datatype ('p, 'l) quote_pool_scope = ScopeStatic 'p | ScopeVersioned 'l

record ('p, 'l) hop_quote_key =
  key_pool :: "('p, 'l) quote_pool_scope"
  key_in :: address
  key_out :: address
  key_amount :: u256
  key_sim :: sim_config_key

text \<open>The key of a state reference's pool is read off the reference (\<open>ref_pool\<close>).\<close>

definition logical_pool :: "('l \<Rightarrow> 'p) \<Rightarrow> ('p, 'l) hop_quote_key \<Rightarrow> 'p" where
  "logical_pool ref_pool key =
     (case key_pool key of ScopeStatic pool \<Rightarrow> pool | ScopeVersioned state \<Rightarrow> ref_pool state)"

text \<open>The context keys are made in: the static one, or a live snapshot with its state point,
  its pool instances and the revision published for each.\<close>

datatype ('p, 'i, 'v, 't) quote_key_context =
    ContextStatic
  | ContextLive 't "'p \<Rightarrow> 'i option" "'i \<Rightarrow> 'v option"

fun context_point :: "('p, 'i, 'v, 't) quote_key_context \<Rightarrow> 't option" where
  "context_point ContextStatic = None"
| "context_point (ContextLive point _ _) = Some point"

text \<open>\<open>missing\<close> renders the message of a missing state reference.\<close>

fun pool_scope ::
  "('p \<Rightarrow> string) \<Rightarrow> ('p, 'i, 'v, 't) quote_key_context \<Rightarrow> 'p \<Rightarrow>
     string + ('p, 'i \<times> 'v \<times> 't) quote_pool_scope" where
  "pool_scope missing ContextStatic pool = Inr (ScopeStatic pool)"
| "pool_scope missing (ContextLive point instance_of revision) pool =
     (case do { inst \<leftarrow> instance_of pool; rev \<leftarrow> revision inst; Some (inst, rev, point) } of
        Some state \<Rightarrow> Inr (ScopeVersioned state)
      | None \<Rightarrow> Inl (missing pool))"

definition quote_key ::
  "('p \<Rightarrow> string) \<Rightarrow> ('p, 'i, 'v, 't) quote_key_context \<Rightarrow> 'p hop \<Rightarrow> u256 \<Rightarrow> 's sim_config_scheme \<Rightarrow>
     string + ('p, 'i \<times> 'v \<times> 't) hop_quote_key" where
  "quote_key missing context h amount_in sim =
     and_then (pool_scope missing context (hop_pool h)) (\<lambda>scope.
       Inr \<lparr>key_pool = scope, key_in = hop_in h, key_out = hop_out h, key_amount = amount_in,
            key_sim = sim_config_key_of sim\<rparr>)"

section \<open>Cache state\<close>

datatype quote_cache_entry = Success u256 | Failure string

fun into_result :: "quote_cache_entry \<Rightarrow> string + u256" where
  "into_result (Success amount) = Inr amount"
| "into_result (Failure reason) = Inl reason"

definition entry_of :: "string + u256 \<Rightarrow> quote_cache_entry" where
  "entry_of r = (case r of Inr amount \<Rightarrow> Success amount | Inl reason \<Rightarrow> Failure reason)"

lemma into_result_entry_of [simp]: "into_result (entry_of r) = r"
  by (cases r) (simp_all add: entry_of_def)

datatype quote_cache_state = InFlight | ReadyEntry quote_cache_entry

record quote_cache_stats =
  qs_hits :: nat
  qs_misses :: nat
  qs_waits :: nat
  qs_executed :: nat
  qs_failed :: nat

record ('p, 'l) quote_cache =
  qc_entries :: "('p, 'l) hop_quote_key \<rightharpoonup> quote_cache_state"
  qc_keys_by_pool :: "'p \<rightharpoonup> ('p, 'l) hop_quote_key set"
  qc_stats :: quote_cache_stats

definition empty_cache :: "('p, 'l) quote_cache" where
  "empty_cache = \<lparr>qc_entries = Map.empty, qc_keys_by_pool = Map.empty,
     qc_stats = \<lparr>qs_hits = 0, qs_misses = 0, qs_waits = 0, qs_executed = 0, qs_failed = 0\<rparr>\<rparr>"

section \<open>Critical sections\<close>

datatype cache_answer = Hit quote_cache_entry | Blocked | Started

text \<open>One round of the lookup loop of \<^verbatim>\<open>get_or_quote\<close>.\<close>

definition cache_begin ::
  "('l \<Rightarrow> 'p) \<Rightarrow> ('p, 'l) hop_quote_key \<Rightarrow> ('p, 'l) quote_cache \<Rightarrow> cache_answer \<times> ('p, 'l) quote_cache" where
  "cache_begin ref_pool key c =
     (case qc_entries c key of
        Some (ReadyEntry entry) \<Rightarrow>
          (Hit entry, c\<lparr>qc_stats := (qc_stats c)\<lparr>qs_hits := Suc (qs_hits (qc_stats c))\<rparr>\<rparr>)
      | Some InFlight \<Rightarrow>
          (Blocked, c\<lparr>qc_stats := (qc_stats c)\<lparr>qs_waits := Suc (qs_waits (qc_stats c))\<rparr>\<rparr>)
      | None \<Rightarrow>
          (Started, c\<lparr>qc_entries := (qc_entries c)(key \<mapsto> InFlight),
                      qc_keys_by_pool := multi_insert (qc_keys_by_pool c) (logical_pool ref_pool key) key,
                      qc_stats := (qc_stats c)\<lparr>qs_misses := Suc (qs_misses (qc_stats c))\<rparr>\<rparr>))"

text \<open>Publishing the executed quote: only over a marker that is still in flight.\<close>

definition cache_publish ::
  "('p, 'l) hop_quote_key \<Rightarrow> quote_cache_entry \<Rightarrow> ('p, 'l) quote_cache \<Rightarrow> ('p, 'l) quote_cache" where
  "cache_publish key entry c =
     (let stats = (qc_stats c)\<lparr>qs_executed := Suc (qs_executed (qc_stats c)),
            qs_failed := qs_failed (qc_stats c) + (case entry of Failure _ \<Rightarrow> 1 | Success _ \<Rightarrow> 0)\<rparr>
      in c\<lparr>qc_entries := (if qc_entries c key = Some InFlight
                          then (qc_entries c)(key \<mapsto> ReadyEntry entry) else qc_entries c),
           qc_stats := stats\<rparr>)"

text \<open>The guard's drop, when the quote did not complete (the simulation panicked).\<close>

definition remove_quote_key_from_pool_index ::
  "('l \<Rightarrow> 'p) \<Rightarrow> ('p, 'l) hop_quote_key \<Rightarrow> ('p, 'l) quote_cache \<Rightarrow> ('p, 'l) quote_cache" where
  "remove_quote_key_from_pool_index ref_pool key c =
     c\<lparr>qc_keys_by_pool := multi_remove (qc_keys_by_pool c) (logical_pool ref_pool key) key\<rparr>"

definition cache_abort ::
  "('l \<Rightarrow> 'p) \<Rightarrow> ('p, 'l) hop_quote_key \<Rightarrow> ('p, 'l) quote_cache \<Rightarrow> ('p, 'l) quote_cache" where
  "cache_abort ref_pool key c =
     remove_quote_key_from_pool_index ref_pool key (c\<lparr>qc_entries := (qc_entries c)(key := None)\<rparr>)"

definition invalidate_pools :: "'p set \<Rightarrow> ('p, 'l) quote_cache \<Rightarrow> ('p, 'l) quote_cache" where
  "invalidate_pools pools c =
     c\<lparr>qc_entries := (\<lambda>key. if \<exists>pool \<in> pools. key \<in> multi_get (qc_keys_by_pool c) pool
                             then None else qc_entries c key),
       qc_keys_by_pool := (\<lambda>pool. if pool \<in> pools then None else qc_keys_by_pool c pool)\<rparr>"

section \<open>The operation as one worker runs it\<close>

text \<open>\<open>await\<close> is what a worker gets when it has to wait for another one's quote.\<close>

definition get_or_quote ::
  "('l \<Rightarrow> 'p) \<Rightarrow> (('p, 'l) hop_quote_key \<Rightarrow> 'c \<Rightarrow> ('p, 'l) quote_cache \<Rightarrow> (string + u256) \<times> 'c \<times> ('p, 'l) quote_cache) \<Rightarrow>
     ('p, 'l) hop_quote_key \<Rightarrow> ('c \<Rightarrow> (string + u256) \<times> 'c) \<Rightarrow> 'c \<Rightarrow> ('p, 'l) quote_cache \<Rightarrow>
     (string + u256) \<times> 'c \<times> ('p, 'l) quote_cache" where
  "get_or_quote ref_pool await key quote cache c =
     (case cache_begin ref_pool key c of
        (Hit entry, c') \<Rightarrow> (into_result entry, cache, c')
      | (Blocked, c') \<Rightarrow> await key cache c'
      | (Started, c') \<Rightarrow>
          (case quote cache of
             (r, cache') \<Rightarrow> (r, cache', cache_publish key (entry_of r) c')))"

definition quote_hop_with_cache ::
  "('p, 'a, 'c, 's, 'e) adapter_registry \<Rightarrow> ('p \<Rightarrow> string) \<Rightarrow> (('i \<times> 'v \<times> 't) \<Rightarrow> 'p) \<Rightarrow>
     (('p, 'i \<times> 'v \<times> 't) hop_quote_key \<Rightarrow> 'c \<Rightarrow> ('p, 'i \<times> 'v \<times> 't) quote_cache \<Rightarrow>
        (string + u256) \<times> 'c \<times> ('p, 'i \<times> 'v \<times> 't) quote_cache) \<Rightarrow>
     ('p, 'i, 'v, 't) quote_key_context \<Rightarrow> 's sim_config_scheme \<Rightarrow> 'p hop \<Rightarrow> u256 \<Rightarrow>
     'c \<times> ('p, 'i \<times> 'v \<times> 't) quote_cache \<Rightarrow> (string + u256) \<times> 'c \<times> ('p, 'i \<times> 'v \<times> 't) quote_cache" where
  "quote_hop_with_cache R missing ref_pool await context sim h amount_in w =
     (case quote_key missing context h amount_in sim of
        Inl reason \<Rightarrow> (Inl reason, w)
      | Inr key \<Rightarrow>
          get_or_quote ref_pool await key (\<lambda>cache. quote_hop_uncached R h amount_in cache sim) (fst w) (snd w))"

section \<open>Invariants\<close>

text \<open>The pool index lists exactly the keys with an entry.\<close>

definition index_exact :: "('l \<Rightarrow> 'p) \<Rightarrow> ('p, 'l) quote_cache \<Rightarrow> bool" where
  "index_exact ref_pool c \<longleftrightarrow>
     multi_tight (qc_keys_by_pool c) \<and>
     (\<forall>pool key. key \<in> multi_get (qc_keys_by_pool c) pool \<longleftrightarrow>
        key \<in> dom (qc_entries c) \<and> logical_pool ref_pool key = pool)"

lemma index_exact_empty: "index_exact ref_pool empty_cache"
  by (simp add: index_exact_def empty_cache_def)

lemma index_exact_begin:
  "index_exact ref_pool c \<Longrightarrow> cache_begin ref_pool key c = (answer, c') \<Longrightarrow> index_exact ref_pool c'"
  by (auto simp: index_exact_def cache_begin_def split: option.splits quote_cache_state.splits if_splits)

lemma index_exact_publish: "index_exact ref_pool c \<Longrightarrow> index_exact ref_pool (cache_publish key entry c)"
  by (auto simp: index_exact_def cache_publish_def Let_def)

lemma index_exact_abort: "index_exact ref_pool c \<Longrightarrow> index_exact ref_pool (cache_abort ref_pool key c)"
  by (auto simp: index_exact_def cache_abort_def remove_quote_key_from_pool_index_def split: if_splits)

lemma multi_get_restrict: "multi_get (\<lambda>k. if P k then None else m k) k = (if P k then {} else multi_get m k)"
  by (simp add: multi_get_def)

lemma index_exact_invalidate: "index_exact ref_pool c \<Longrightarrow> index_exact ref_pool (invalidate_pools pools c)"
  by (auto simp: index_exact_def invalidate_pools_def multi_get_restrict multi_tight_def split: if_splits)

text \<open>With an exact index, invalidation drops the entries of the given pools and no other.\<close>

lemma invalidate_entries:
  assumes "index_exact ref_pool c"
  shows "qc_entries (invalidate_pools pools c) key =
    (if logical_pool ref_pool key \<in> pools then None else qc_entries c key)"
  using assms by (auto simp: index_exact_def invalidate_pools_def)

lemmas index_exact_steps = index_exact_begin index_exact_publish index_exact_abort index_exact_invalidate

end
