(* ===== verification/PruneStats.thy ===== *)
theory PruneStats
  imports Prelude
begin

text \<open>
  The counters of balance-aware pruning, \<^verbatim>\<open>LiquidityPruneStats\<close> of \<^verbatim>\<open>src/liquidity.rs\<close>, and
  their merge.
\<close>

record liquidity_prune_stats =
  ordered_groups :: nat
  pruned_edges :: nat
  stale_or_unknown_skipped :: nat
  balance_reads :: nat
  refresh_failures :: nat
  target_first_groups :: nat
  prefix_dominated_states :: nat
  liquidity_ranked_branch_groups :: nat
  liquidity_unknown_branch_groups :: nat
  fast_lane_routes :: nat
  fast_lane_quotes :: nat
  shortlist_initial_edges :: nat
  shortlist_refinement_edges :: nat
  shortlist_deferred_edges :: nat
  protocol_ranked_edges :: nat
  upper_bound_pruned_prefixes :: nat
  upper_bound_unknown_prefixes :: nat

definition no_prune_stats :: liquidity_prune_stats where
  "no_prune_stats = \<lparr>ordered_groups = 0, pruned_edges = 0, stale_or_unknown_skipped = 0, balance_reads = 0,
     refresh_failures = 0, target_first_groups = 0, prefix_dominated_states = 0,
     liquidity_ranked_branch_groups = 0, liquidity_unknown_branch_groups = 0, fast_lane_routes = 0,
     fast_lane_quotes = 0, shortlist_initial_edges = 0, shortlist_refinement_edges = 0,
     shortlist_deferred_edges = 0, protocol_ranked_edges = 0, upper_bound_pruned_prefixes = 0,
     upper_bound_unknown_prefixes = 0\<rparr>"

definition merge_stats :: "liquidity_prune_stats \<Rightarrow> liquidity_prune_stats \<Rightarrow> liquidity_prune_stats" where
  "merge_stats a b =
     \<lparr>ordered_groups = ordered_groups a + ordered_groups b,
      pruned_edges = pruned_edges a + pruned_edges b,
      stale_or_unknown_skipped = stale_or_unknown_skipped a + stale_or_unknown_skipped b,
      balance_reads = balance_reads a + balance_reads b,
      refresh_failures = refresh_failures a + refresh_failures b,
      target_first_groups = target_first_groups a + target_first_groups b,
      prefix_dominated_states = prefix_dominated_states a + prefix_dominated_states b,
      liquidity_ranked_branch_groups = liquidity_ranked_branch_groups a + liquidity_ranked_branch_groups b,
      liquidity_unknown_branch_groups = liquidity_unknown_branch_groups a + liquidity_unknown_branch_groups b,
      fast_lane_routes = fast_lane_routes a + fast_lane_routes b,
      fast_lane_quotes = fast_lane_quotes a + fast_lane_quotes b,
      shortlist_initial_edges = shortlist_initial_edges a + shortlist_initial_edges b,
      shortlist_refinement_edges = shortlist_refinement_edges a + shortlist_refinement_edges b,
      shortlist_deferred_edges = shortlist_deferred_edges a + shortlist_deferred_edges b,
      protocol_ranked_edges = protocol_ranked_edges a + protocol_ranked_edges b,
      upper_bound_pruned_prefixes = upper_bound_pruned_prefixes a + upper_bound_pruned_prefixes b,
      upper_bound_unknown_prefixes = upper_bound_unknown_prefixes a + upper_bound_unknown_prefixes b\<rparr>"

end
