(* ===== verification/Streaming.thy ===== *)
theory Streaming
  imports SearchConfig QuoteCache PruneStats
begin

text \<open>
  The state of a streaming route search, \<^verbatim>\<open>StreamingRouteState\<close> of \<^verbatim>\<open>src/search.rs\<close>: it observes
  quotes and failures, keeps the best and the top routes, measures progress, gates the
  initial results, applies the stop policy and emits events. The caller's callback is a
  function \<open>ctl\<close> from the events emitted so far and the new event to its answer; the events
  themselves are logged in the state. Every observing operation returns whether the search
  goes on.
\<close>

section \<open>Configuration\<close>

datatype streaming_completion = FastLaneExhausted | HeuristicExhausted | ExhaustiveCompletion
datatype streaming_threshold_mode = ThresholdAll | ThresholdAny

record streaming_threshold_policy =
  tp_mode :: streaming_threshold_mode
  tp_min_confidence :: "nat option"
  tp_min_fraction :: "nat option"

definition policy_all :: streaming_threshold_policy where
  "policy_all = \<lparr>tp_mode = ThresholdAll, tp_min_confidence = None, tp_min_fraction = None\<rparr>"

definition policy_any :: streaming_threshold_policy where
  "policy_any = \<lparr>tp_mode = ThresholdAny, tp_min_confidence = None, tp_min_fraction = None\<rparr>"

definition in_bps :: "nat option \<Rightarrow> bool" where
  "in_bps b \<longleftrightarrow> (case b of None \<Rightarrow> True | Some bps \<Rightarrow> 1 \<le> bps \<and> bps \<le> 10000)"

definition validate_policy :: "streaming_threshold_policy \<Rightarrow> ('p, 'e) search_error + unit" where
  "validate_policy p =
     and_then (ensure (\<not> (tp_min_confidence p = None \<and> tp_min_fraction p = None))
       ''streaming threshold policy must configure at least one threshold'') (\<lambda>_.
     and_then (ensure (in_bps (tp_min_confidence p))
       ''streaming confidence threshold must be between 1 and 10000 bps'') (\<lambda>_.
     ensure (in_bps (tp_min_fraction p))
       ''streaming exhaustive fraction threshold must be between 1 and 10000 bps''))"

definition policy_with_confidence :: "streaming_threshold_policy option \<Rightarrow> nat \<Rightarrow> streaming_threshold_policy" where
  "policy_with_confidence p bps =
     (case p of None \<Rightarrow> policy_all | Some q \<Rightarrow> q)\<lparr>tp_min_confidence := Some bps\<rparr>"

definition policy_with_exhaustive_fraction ::
  "streaming_threshold_policy option \<Rightarrow> nat \<Rightarrow> streaming_threshold_policy" where
  "policy_with_exhaustive_fraction p bps =
     (case p of None \<Rightarrow> policy_all | Some q \<Rightarrow> q)\<lparr>tp_min_fraction := Some bps\<rparr>"

record streaming_config =
  sc_completion :: streaming_completion
  sc_workers :: nat
  sc_emit_all_viable :: bool
  sc_top_k :: nat
  sc_stop_policy :: "streaming_threshold_policy option"
  sc_initial_policy :: "streaming_threshold_policy option"

definition stop_at_confidence_bps :: "nat \<Rightarrow> streaming_config \<Rightarrow> streaming_config" where
  "stop_at_confidence_bps bps c = c\<lparr>sc_stop_policy := Some (policy_with_confidence (sc_stop_policy c) bps)\<rparr>"

definition stop_at_exhaustive_fraction_bps :: "nat \<Rightarrow> streaming_config \<Rightarrow> streaming_config" where
  "stop_at_exhaustive_fraction_bps bps c =
     c\<lparr>sc_stop_policy := Some (policy_with_exhaustive_fraction (sc_stop_policy c) bps)\<rparr>"

definition emit_initial_results_at_confidence_bps :: "nat \<Rightarrow> streaming_config \<Rightarrow> streaming_config" where
  "emit_initial_results_at_confidence_bps bps c =
     c\<lparr>sc_initial_policy := Some (policy_with_confidence (sc_initial_policy c) bps)\<rparr>"

definition emit_initial_results_at_exhaustive_fraction_bps :: "nat \<Rightarrow> streaming_config \<Rightarrow> streaming_config" where
  "emit_initial_results_at_exhaustive_fraction_bps bps c =
     c\<lparr>sc_initial_policy := Some (policy_with_exhaustive_fraction (sc_initial_policy c) bps)\<rparr>"

definition validate_streaming :: "streaming_config \<Rightarrow> ('p, 'e) search_error + unit" where
  "validate_streaming c =
     and_then (ensure (sc_workers c \<noteq> 0) ''workers must be at least 1'') (\<lambda>_.
     and_then (ensure (sc_top_k c \<noteq> 0) ''streaming top_k must be at least 1'') (\<lambda>_.
     and_then (case sc_stop_policy c of None \<Rightarrow> Inr () | Some p \<Rightarrow> validate_policy p) (\<lambda>_.
     case sc_initial_policy c of None \<Rightarrow> Inr () | Some p \<Rightarrow> validate_policy p)))"

section \<open>Progress, reports and events\<close>

datatype route_search_phase = HeuristicPhase | ExhaustivePhase
datatype streamed_route_status = Provisional | FinalWithinConfiguredSearch
datatype search_finality =
  FastLaneOnly | HeuristicOnly | ExhaustiveFinality | StopPolicySatisfied | StoppedFinality
datatype search_control = Continue | Stop

record route_search_progress =
  rp_phase :: "route_search_phase option"
  rp_candidates_evaluated :: nat
  rp_viable :: nat
  rp_failed :: nat
  rp_duplicates :: nat
  rp_total :: "nat option"
  rp_fraction_bps :: "nat option"
  rp_confidence_bps :: nat
  rp_best_amount :: "u256 option"

record streaming_phase_stats =
  ps_routes_observed :: nat
  ps_duplicates :: nat
  ps_quote_cache :: quote_cache_stats
  ps_pruning :: liquidity_prune_stats

record 'p streaming_report =
  sr_best :: "'p route_quote option"
  sr_top_routes :: "'p route_quote list"
  sr_heuristic_best :: "'p route_quote option"
  sr_finality :: search_finality
  sr_heuristic_was_final_best :: "bool option"
  sr_improvements :: nat
  sr_routes_observed :: nat
  sr_duplicates :: nat
  sr_quote_cache :: quote_cache_stats
  sr_pruning :: liquidity_prune_stats
  sr_progress :: route_search_progress
  sr_released :: bool

datatype 'p route_search_event =
    Started streaming_completion
  | RouteFound route_search_phase "nat option" "'p route_quote"
  | BestUpdated route_search_phase "'p route_quote" "'p route_quote option" streamed_route_status
  | Progress route_search_progress
  | InitialResultsReady route_search_progress "'p route_quote" "'p route_quote list"
  | PhaseCompleted route_search_phase streaming_phase_stats
  | Completed "'p streaming_report"

definition is_satisfied :: "streaming_threshold_policy \<Rightarrow> route_search_progress \<Rightarrow> bool" where
  "is_satisfied policy progress \<longleftrightarrow>
     (let confidence = map_option (\<lambda>threshold. threshold \<le> rp_confidence_bps progress) (tp_min_confidence policy);
          fraction = map_option (\<lambda>threshold. case rp_fraction_bps progress of
                        None \<Rightarrow> False | Some f \<Rightarrow> threshold \<le> f) (tp_min_fraction policy)
      in case tp_mode policy of
           ThresholdAll \<Rightarrow> (case confidence of None \<Rightarrow> True | Some b \<Rightarrow> b) \<and>
                            (case fraction of None \<Rightarrow> True | Some b \<Rightarrow> b)
         | ThresholdAny \<Rightarrow> (case confidence of None \<Rightarrow> False | Some b \<Rightarrow> b) \<or>
                            (case fraction of None \<Rightarrow> False | Some b \<Rightarrow> b))"

section \<open>State\<close>

record 'p streaming_state =
  st_config :: streaming_config
  st_best :: "'p route_quote option"
  st_heuristic_best :: "'p route_quote option"
  st_top :: "'p route_quote list"
  st_observed :: nat
  st_failed :: nat
  st_duplicates :: nat
  st_improvements :: nat
  st_heuristic_done :: bool
  st_phase :: "route_search_phase option"
  st_total :: "nat option"
  st_released :: bool
  st_stop :: "search_finality option"
  st_events :: "'p route_search_event list"

definition new_stream :: "streaming_config \<Rightarrow> 'p streaming_state" where
  "new_stream config =
     \<lparr>st_config = config, st_best = None, st_heuristic_best = None, st_top = [], st_observed = 0,
      st_failed = 0, st_duplicates = 0, st_improvements = 0, st_heuristic_done = False,
      st_phase = None, st_total = None, st_released = (sc_initial_policy config = None),
      st_stop = None, st_events = []\<rparr>"

type_synonym 'p callback = "'p route_search_event list \<Rightarrow> 'p route_search_event \<Rightarrow> search_control"

definition emit_search_event ::
  "'p callback \<Rightarrow> 'p route_search_event \<Rightarrow> 'p streaming_state \<Rightarrow> bool \<times> 'p streaming_state" where
  "emit_search_event ctl e st = (ctl (st_events st) e = Continue, st\<lparr>st_events := st_events st @ [e]\<rparr>)"

definition candidates_evaluated :: "'p streaming_state \<Rightarrow> nat" where
  "candidates_evaluated st = st_observed st + st_failed st"

definition fraction_bps :: "'p streaming_state \<Rightarrow> nat option" where
  "fraction_bps st =
     (case st_total st of
        None \<Rightarrow> None
      | Some all \<Rightarrow>
          (if all = 0 then Some 10000
           else (let capped = min (candidates_evaluated st) all;
                     bps = min (saturating_mul capped 10000 div all) 10000
                 in if bps \<le> 65535 then Some bps else None)))"

definition confidence_bps :: "'p streaming_state \<Rightarrow> nat option \<Rightarrow> nat" where
  "confidence_bps st fraction =
     (if st_best st = None then 0
      else if (case st_total st of None \<Rightarrow> False | Some all \<Rightarrow> all > 0 \<and> all \<le> candidates_evaluated st)
      then 9999
      else case fraction of
             Some f \<Rightarrow> min (9000 + f div 10) 9999
           | None \<Rightarrow> (if st_heuristic_done st then 9000 else 7000))"

definition progress_of :: "'p streaming_state \<Rightarrow> route_search_progress" where
  "progress_of st =
     \<lparr>rp_phase = st_phase st, rp_candidates_evaluated = candidates_evaluated st,
      rp_viable = st_observed st, rp_failed = st_failed st, rp_duplicates = st_duplicates st,
      rp_total = st_total st, rp_fraction_bps = fraction_bps st,
      rp_confidence_bps = confidence_bps st (fraction_bps st),
      rp_best_amount = map_option rq_amount_out (st_best st)\<rparr>"

definition final_progress :: "search_finality \<Rightarrow> 'p streaming_state \<Rightarrow> route_search_progress" where
  "final_progress finality st =
     (if finality = ExhaustiveFinality
      then (progress_of st)\<lparr>rp_fraction_bps := Some 10000,
              rp_confidence_bps := (if st_best st \<noteq> None then 10000 else 0)\<rparr>
      else progress_of st)"

text \<open>Position of the first element satisfying a predicate.\<close>

fun position :: "('a \<Rightarrow> bool) \<Rightarrow> 'a list \<Rightarrow> nat option" where
  "position P [] = None"
| "position P (x # xs) = (if P x then Some 0 else map_option Suc (position P xs))"

definition record_top_route :: "'p route_quote \<Rightarrow> 'p streaming_state \<Rightarrow> nat option \<times> 'p streaming_state" where
  "record_top_route quote st =
     (if \<exists>existing \<in> set (st_top st). rq_path existing = rq_path quote then (None, st)
      else
        (let ranked = sort_desc rq_amount_out (st_top st @ [quote]);
             rank = map_option Suc (position (\<lambda>c. rq_path c = rq_path quote) ranked);
             k = sc_top_k (st_config st)
         in (case rank of Some r \<Rightarrow> (if r \<le> k then Some r else None) | None \<Rightarrow> None,
             st\<lparr>st_top := (if k < length ranked then take k ranked else ranked)\<rparr>)))"

definition release_initial_results ::
  "'p callback \<Rightarrow> route_search_progress \<Rightarrow> 'p streaming_state \<Rightarrow> bool \<times> 'p streaming_state" where
  "release_initial_results ctl progress st =
     (case st_best st of
        None \<Rightarrow> (True, st)
      | Some best \<Rightarrow>
          (case emit_search_event ctl (InitialResultsReady progress best (st_top st)) (st\<lparr>st_released := True\<rparr>) of
             (True, st') \<Rightarrow> (True, st')
           | (False, st') \<Rightarrow> (False, st'\<lparr>st_stop := Some StoppedFinality\<rparr>)))"

text \<open>The stop policy, checked last.\<close>

definition apply_stop_policy :: "route_search_progress \<Rightarrow> 'p streaming_state \<Rightarrow> bool \<times> 'p streaming_state" where
  "apply_stop_policy progress st =
     (if st_best st \<noteq> None \<and>
         (case sc_stop_policy (st_config st) of None \<Rightarrow> False | Some p \<Rightarrow> is_satisfied p progress)
      then (False, st\<lparr>st_stop := Some StopPolicySatisfied\<rparr>)
      else (True, st))"

definition emit_progress_and_apply_policies ::
  "'p callback \<Rightarrow> route_search_phase \<Rightarrow> 'p streaming_state \<Rightarrow> bool \<times> 'p streaming_state" where
  "emit_progress_and_apply_policies ctl phase st0 =
     (let st = st0\<lparr>st_phase := Some phase\<rparr>; progress = progress_of st
      in case emit_search_event ctl (Progress progress) st of
           (False, st1) \<Rightarrow> (False, st1\<lparr>st_stop := Some StoppedFinality\<rparr>)
         | (True, st1) \<Rightarrow>
             (if \<not> st_released st1 \<and> st_best st1 \<noteq> None \<and>
                 (case sc_initial_policy (st_config st1) of None \<Rightarrow> False | Some p \<Rightarrow> is_satisfied p progress)
              then (case release_initial_results ctl progress st1 of
                      (False, st2) \<Rightarrow> (False, st2)
                    | (True, st2) \<Rightarrow> apply_stop_policy progress st2)
              else apply_stop_policy progress st1))"

definition just_released_initial_results :: "bool \<Rightarrow> 'p streaming_state \<Rightarrow> bool" where
  "just_released_initial_results released_before st \<longleftrightarrow> \<not> released_before \<and> st_released st"

definition improves_best :: "'p route_quote \<Rightarrow> 'p route_quote option \<Rightarrow> bool" where
  "improves_best quote best \<longleftrightarrow>
     (case best of None \<Rightarrow> True | Some b \<Rightarrow> rq_amount_out b < rq_amount_out quote)"

definition count_improvement :: "route_search_phase \<Rightarrow> 'p streaming_state \<Rightarrow> 'p streaming_state" where
  "count_improvement phase st =
     (if phase = ExhaustivePhase \<and> st_heuristic_best st \<noteq> None
      then st\<lparr>st_improvements := Suc (st_improvements st)\<rparr> else st)"

text \<open>The tail of \<^verbatim>\<open>observe_quote\<close>: emitting the found route.\<close>

definition emit_route_found ::
  "'p callback \<Rightarrow> route_search_phase \<Rightarrow> nat option \<Rightarrow> 'p route_quote \<Rightarrow> 'p streaming_state \<Rightarrow>
     bool \<times> 'p streaming_state" where
  "emit_route_found ctl phase rank quote st =
     (if sc_emit_all_viable (st_config st) \<or> rank \<noteq> None
      then (case emit_search_event ctl (RouteFound phase rank quote) st of
              (True, st') \<Rightarrow> (True, st')
            | (False, st') \<Rightarrow> (False, st'\<lparr>st_stop := Some StoppedFinality\<rparr>))
      else (True, st))"

definition observe_quote ::
  "'p callback \<Rightarrow> route_search_phase \<Rightarrow> 'p route_quote \<Rightarrow> 'p streaming_state \<Rightarrow> bool \<times> 'p streaming_state" where
  "observe_quote ctl phase quote st0 =
     (let released = st_released st0;
          (rank, st1) = record_top_route quote
                          (st0\<lparr>st_phase := Some phase, st_observed := Suc (st_observed st0)\<rparr>)
      in if improves_best quote (st_best st1)
         then
           (let st2 = count_improvement phase st1;
                previous = st_best st2
            in case emit_progress_and_apply_policies ctl phase (st2\<lparr>st_best := Some quote\<rparr>) of
                 (False, st3) \<Rightarrow> (False, st3)
               | (True, st3) \<Rightarrow>
                   (if \<not> released \<or> just_released_initial_results released st3 then (True, st3)
                    else case emit_search_event ctl (BestUpdated phase quote previous Provisional) st3 of
                           (False, st4) \<Rightarrow> (False, st4\<lparr>st_stop := Some StoppedFinality\<rparr>)
                         | (True, st4) \<Rightarrow> emit_route_found ctl phase rank quote st4))
         else
           (case emit_progress_and_apply_policies ctl phase st1 of
              (False, st3) \<Rightarrow> (False, st3)
            | (True, st3) \<Rightarrow>
                (if \<not> released \<or> just_released_initial_results released st3 then (True, st3)
                 else emit_route_found ctl phase rank quote st3)))"

definition observe_failed_candidates ::
  "'p callback \<Rightarrow> route_search_phase \<Rightarrow> nat \<Rightarrow> 'p streaming_state \<Rightarrow> bool \<times> 'p streaming_state" where
  "observe_failed_candidates ctl phase n st =
     (if n = 0 then (True, st)
      else emit_progress_and_apply_policies ctl phase
             (st\<lparr>st_phase := Some phase, st_failed := st_failed st + n\<rparr>))"

definition finish_heuristic_phase :: "'p callback \<Rightarrow> 'p streaming_state \<Rightarrow> bool \<times> 'p streaming_state" where
  "finish_heuristic_phase ctl st =
     emit_progress_and_apply_policies ctl HeuristicPhase
       (st\<lparr>st_heuristic_best := st_best st, st_heuristic_done := True, st_phase := Some HeuristicPhase\<rparr>)"

definition set_total_candidates :: "'p callback \<Rightarrow> nat \<Rightarrow> 'p streaming_state \<Rightarrow> bool \<times> 'p streaming_state" where
  "set_total_candidates ctl n st =
     emit_progress_and_apply_policies ctl ExhaustivePhase
       (st\<lparr>st_total := Some (max n (candidates_evaluated st)), st_phase := Some ExhaustivePhase\<rparr>)"

definition mark_exhaustive_complete :: "'p streaming_state \<Rightarrow> 'p streaming_state" where
  "mark_exhaustive_complete st = st\<lparr>st_phase := Some ExhaustivePhase\<rparr>"

definition stop_finality :: "'p streaming_state \<Rightarrow> search_finality" where
  "stop_finality st = (case st_stop st of None \<Rightarrow> StoppedFinality | Some f \<Rightarrow> f)"

definition should_emit_completion_for_stop :: "'p streaming_state \<Rightarrow> bool" where
  "should_emit_completion_for_stop st \<longleftrightarrow> st_stop st = Some StopPolicySatisfied"

definition release_initial_results_at_completion ::
  "'p callback \<Rightarrow> search_finality \<Rightarrow> 'p streaming_state \<Rightarrow> bool \<times> 'p streaming_state" where
  "release_initial_results_at_completion ctl finality st =
     (if st_released st \<or> sc_initial_policy (st_config st) = None then (True, st)
      else release_initial_results ctl (final_progress finality st) st)"

definition phase_stats ::
  "'p streaming_state \<Rightarrow> quote_cache_stats \<Rightarrow> liquidity_prune_stats \<Rightarrow> streaming_phase_stats" where
  "phase_stats st qstats pstats =
     \<lparr>ps_routes_observed = st_observed st, ps_duplicates = st_duplicates st,
      ps_quote_cache = qstats, ps_pruning = pstats\<rparr>"

definition stream_report ::
  "search_finality \<Rightarrow> quote_cache_stats \<Rightarrow> liquidity_prune_stats \<Rightarrow> 'p streaming_state \<Rightarrow> 'p streaming_report" where
  "stream_report finality qstats pstats st =
     \<lparr>sr_best = st_best st, sr_top_routes = st_top st, sr_heuristic_best = st_heuristic_best st,
      sr_finality = finality,
      sr_heuristic_was_final_best =
        (if finality = ExhaustiveFinality
         then map_option (\<lambda>best. st_heuristic_best st = Some best) (st_best st) else None),
      sr_improvements = st_improvements st, sr_routes_observed = st_observed st,
      sr_duplicates = st_duplicates st, sr_quote_cache = qstats, sr_pruning = pstats,
      sr_progress = final_progress finality st, sr_released = st_released st\<rparr>"

definition finish_stream_report ::
  "'p callback \<Rightarrow> search_finality \<Rightarrow> quote_cache_stats \<Rightarrow> liquidity_prune_stats \<Rightarrow> bool \<Rightarrow> 'p streaming_state \<Rightarrow>
     'p streaming_report \<times> 'p streaming_state" where
  "finish_stream_report ctl finality qstats pstats emit_completed st =
     (let (go, st1) = release_initial_results_at_completion ctl finality st;
          finality' = (if go then finality else StoppedFinality);
          report = stream_report finality' qstats pstats st1
      in (report, if emit_completed then snd (emit_search_event ctl (Completed report) st1) else st1))"

end
