(* ===== verification/StreamingProps.thy ===== *)
theory StreamingProps
  imports Streaming "HOL-Library.Sublist"
begin

text \<open>
  What a streaming search keeps and shows. \<open>run_stream\<close> feeds the state a sequence of
  observations, stopping at the first refusal, for an arbitrary callback. The best route is
  the first of the largest quotes seen, the retained routes are the top ones, initial
  results stay gated until their policy is met, and a search stops only for a reason.
\<close>

section \<open>Sequences of observations\<close>

datatype 'p stream_input =
    SeeQuote route_search_phase "'p route_quote"
  | SeeFailures route_search_phase nat
  | HeuristicOver
  | TotalKnown nat

fun stream_step :: "'p callback \<Rightarrow> 'p stream_input \<Rightarrow> 'p streaming_state \<Rightarrow> bool \<times> 'p streaming_state" where
  "stream_step ctl (SeeQuote phase q) st = observe_quote ctl phase q st"
| "stream_step ctl (SeeFailures phase n) st = observe_failed_candidates ctl phase n st"
| "stream_step ctl HeuristicOver st = finish_heuristic_phase ctl st"
| "stream_step ctl (TotalKnown n) st = set_total_candidates ctl n st"

fun run_stream :: "'p callback \<Rightarrow> 'p stream_input list \<Rightarrow> 'p streaming_state \<Rightarrow> bool \<times> 'p streaming_state" where
  "run_stream ctl [] st = (True, st)"
| "run_stream ctl (x # xs) st =
     (case stream_step ctl x st of
        (True, st') \<Rightarrow> run_stream ctl xs st'
      | (False, st') \<Rightarrow> (False, st'))"

fun seen :: "'p stream_input list \<Rightarrow> 'p route_quote list" where
  "seen [] = []"
| "seen (SeeQuote phase q # xs) = q # seen xs"
| "seen (x # xs) = seen xs"

lemma seen_append [simp]: "seen (xs @ ys) = seen xs @ seen ys"
  by (induction xs rule: seen.induct) simp_all

text \<open>An invariant of every step holds of every run, over the inputs consumed.\<close>

lemma run_stream_invariant:
  assumes step: "\<And>x xs st b st'. I xs st \<Longrightarrow> stream_step ctl x st = (b, st') \<Longrightarrow> I (xs @ [x]) st'"
    and "I pre st" and "run_stream ctl xs st = (b, st')"
  shows "\<exists>ys. prefix ys xs \<and> (b \<longrightarrow> ys = xs) \<and> I (pre @ ys) st'"
  using assms(2,3)
proof (induction xs arbitrary: pre st)
  case Nil
  then show ?case by (intro exI [of _ "[]"]) simp
next
  case (Cons x xs)
  obtain b1 st1 where s: "stream_step ctl x st = (b1, st1)" by fastforce
  have i: "I (pre @ [x]) st1" by (rule step [OF Cons.prems(1) s])
  show ?case
  proof (cases b1)
    case True
    then have "run_stream ctl xs st1 = (b, st')" using Cons.prems(2) s by simp
    from Cons.IH [OF i this] obtain ys where "prefix ys xs" "b \<longrightarrow> ys = xs" "I ((pre @ [x]) @ ys) st'" by blast
    then show ?thesis by (intro exI [of _ "x # ys"]) simp
  next
    case False
    then have "b = False" "st' = st1" using Cons.prems(2) s by simp_all
    then show ?thesis using i by (intro exI [of _ "[x]"]) simp
  qed
qed

section \<open>What emitting leaves unchanged\<close>

text \<open>Everything but phase, release flag, stop reason and events.\<close>

definition data ::
  "'p streaming_state \<Rightarrow> streaming_config \<times> 'p route_quote option \<times> 'p route_quote option \<times>
     'p route_quote list \<times> nat \<times> nat \<times> nat \<times> nat \<times> bool \<times> nat option" where
  "data st = (st_config st, st_best st, st_heuristic_best st, st_top st, st_observed st, st_failed st,
     st_duplicates st, st_improvements st, st_heuristic_done st, st_total st)"

lemma data_frame [simp]:
  "data (st\<lparr>st_phase := p\<rparr>) = data st" "data (st\<lparr>st_released := r\<rparr>) = data st"
  "data (st\<lparr>st_stop := f\<rparr>) = data st" "data (st\<lparr>st_events := es\<rparr>) = data st"
  by (simp_all add: data_def)

lemma data_emit: "emit_search_event ctl e st = (b, st') \<Longrightarrow> data st' = data st"
  by (auto simp: emit_search_event_def)

lemma data_release: "release_initial_results ctl progress st = (b, st') \<Longrightarrow> data st' = data st"
  by (auto simp: release_initial_results_def emit_search_event_def split: option.splits prod.splits bool.splits)

lemma data_stop_policy: "apply_stop_policy progress st = (b, st') \<Longrightarrow> data st' = data st"
  by (auto simp: apply_stop_policy_def split: if_splits)

lemma data_progress: "emit_progress_and_apply_policies ctl phase st = (b, st') \<Longrightarrow> data st' = data st"
proof -
  assume e: "emit_progress_and_apply_policies ctl phase st = (b, st')"
  obtain b1 st1 where 1: "emit_search_event ctl (Progress (progress_of (st\<lparr>st_phase := Some phase\<rparr>))) (st\<lparr>st_phase := Some phase\<rparr>) = (b1, st1)"
    by fastforce
  obtain b2 st2 where 2: "release_initial_results ctl (progress_of (st\<lparr>st_phase := Some phase\<rparr>)) st1 = (b2, st2)" by fastforce
  show ?thesis
    using e 1 2 data_emit [OF 1] data_release [OF 2]
    by (auto simp: emit_progress_and_apply_policies_def Let_def dest: data_stop_policy split: bool.splits if_splits)
qed

lemma data_found: "emit_route_found ctl phase rank q st = (b, st') \<Longrightarrow> data st' = data st"
  by (auto simp: emit_route_found_def emit_search_event_def split: prod.splits bool.splits if_splits)

section \<open>Best and top routes\<close>

definition best_step :: "'p route_quote \<Rightarrow> 'p route_quote option \<Rightarrow> 'p route_quote option" where
  "best_step q best = (if improves_best q best then Some q else best)"

definition best_of :: "'p route_quote list \<Rightarrow> 'p route_quote option" where
  "best_of qs = fold best_step qs None"

lemma best_of_snoc [simp]: "best_of (qs @ [q]) = best_step q (best_of qs)" "best_of [] = None"
  by (simp_all add: best_of_def)

lemma best_of_None: "best_of qs = None \<longleftrightarrow> qs = []"
  by (induction qs rule: rev_induct) (auto simp: best_step_def improves_best_def)

lemma best_of_max:
  "best_of qs = Some b \<Longrightarrow> b \<in> set qs \<and> (\<forall>q \<in> set qs. rq_amount_out q \<le> rq_amount_out b)"
proof (induction qs arbitrary: b rule: rev_induct)
  case (snoc q qs)
  show ?case
  proof (cases "best_of qs")
    case None
    then have "qs = []" by (simp only: best_of_None)
    then show ?thesis using snoc.prems by (simp add: best_of_def best_step_def improves_best_def)
  next
    case (Some c)
    then show ?thesis using snoc.prems snoc.IH [OF Some]
      by (auto simp: best_step_def improves_best_def not_less split: if_splits intro: order.trans less_imp_le)
  qed
qed simp

text \<open>Each quote at its first occurrence.\<close>

definition first_seen :: "'a list \<Rightarrow> 'a list" where
  "first_seen xs = rev (remdups (rev xs))"

lemma first_seen_snoc: "first_seen (xs @ [x]) = (if x \<in> set xs then first_seen xs else first_seen xs @ [x])"
  by (simp add: first_seen_def)

lemma set_first_seen [simp]: "set (first_seen xs) = set xs"
  by (simp add: first_seen_def)

lemma distinct_first_seen: "distinct (first_seen xs)"
  by (simp add: first_seen_def)

text \<open>Appending one element to a ranked list.\<close>

definition rank_in :: "('a \<Rightarrow> u256) \<Rightarrow> 'a \<Rightarrow> 'a list \<Rightarrow> 'a list" where
  "rank_in key x ys = takeWhile (\<lambda>y. key x \<le> key y) ys @ x # dropWhile (\<lambda>y. key x \<le> key y) ys"

lemma descending_split:
  assumes "descending key ys"
  shows "\<forall>y \<in> set (dropWhile (\<lambda>y. key x \<le> key y) ys). key y < key x"
proof (cases "dropWhile (\<lambda>y. key x \<le> key y) ys")
  case (Cons z zs)
  have "\<not> key x \<le> key z" using Cons by (metis hd_dropWhile list.sel(1) list.distinct(1))
  moreover have "descending key (z # zs)"
    using assms Cons unfolding descending_def by (metis sorted_wrt_append takeWhile_dropWhile_id)
  ultimately show ?thesis unfolding Cons by (auto simp: descending_def)
next
  case Nil
  show ?thesis unfolding Nil by simp
qed

lemma descending_rank_in: "descending key ys \<Longrightarrow> descending key (rank_in key x ys)"
proof -
  assume d: "descending key ys"
  have "sorted_wrt (\<lambda>x y. key y \<le> key x)
      (takeWhile (\<lambda>y. key x \<le> key y) ys @ dropWhile (\<lambda>y. key x \<le> key y) ys)"
    using d by (simp add: descending_def)
  then show ?thesis
    using descending_split [OF d, of x] set_takeWhileD
    by (fastforce simp: descending_def rank_in_def sorted_wrt_append simp del: takeWhile_dropWhile_id)
qed

lemma sort_desc_snoc: "sort_desc key (xs @ [x]) = rank_in key x (sort_desc key xs)"
proof -
  let ?f = "\<lambda>x. - uint (key x)"
  have "sort_key ?f (xs @ [x]) = rank_in key x (sort_desc key xs)"
  proof (rule properties_for_sort_key)
    have "mset (rank_in key x ys) = add_mset x (mset ys)" for ys
      unfolding rank_in_def by (metis mset.simps(2) mset_append takeWhile_dropWhile_id union_mset_add_mset_right)
    then show "mset (rank_in key x (sort_desc key xs)) = mset (xs @ [x])" by simp
    show "sorted (map ?f (rank_in key x (sort_desc key xs)))"
      using descending_rank_in [OF descending_sort_desc, of key x xs] by (simp add: descending_def sorted_map word_le_def)
    fix k
    have stable: "filter (\<lambda>y. ?f k = ?f y) (sort_desc key xs) = filter (\<lambda>y. ?f k = ?f y) xs"
      unfolding sort_desc_def using sort_key_stable [of ?f "?f k" xs] by (simp add: eq_commute)
    let ?t = "takeWhile (\<lambda>y. key x \<le> key y) (sort_desc key xs)" and ?d = "dropWhile (\<lambda>y. key x \<le> key y) (sort_desc key xs)"
    have "filter (\<lambda>y. ?f k = ?f y) (rank_in key x (sort_desc key xs)) =
        filter (\<lambda>y. ?f k = ?f y) (?t @ ?d) @ filter (\<lambda>y. ?f k = ?f y) [x]"
    proof (cases "?f k = ?f x")
      case True
      then have "filter (\<lambda>y. ?f k = ?f y) ?d = []"
        using descending_split [of key "sort_desc key xs" x] by (auto simp: filter_empty_conv word_less_def)
      then show ?thesis using True by (simp add: rank_in_def del: takeWhile_dropWhile_id)
    next
      case False
      then show ?thesis by (simp add: rank_in_def del: takeWhile_dropWhile_id)
    qed
    then show "filter (\<lambda>y. ?f k = ?f y) (rank_in key x (sort_desc key xs)) = filter (\<lambda>y. ?f k = ?f y) (xs @ [x])"
      using stable by simp
  qed
  then show ?thesis by (simp add: sort_desc_def)
qed

lemma take_rank_in:
  assumes "descending key ys"
  shows "take k (rank_in key x (take k ys)) = take k (rank_in key x ys)"
proof -
  let ?P = "\<lambda>y. key x \<le> key y"
  have tw: "takeWhile ?P (take k ys) = take k (takeWhile ?P ys)"
    by (induction ys arbitrary: k) (auto simp: take_Cons' split: if_splits)
  show ?thesis
  proof (cases "length (takeWhile ?P ys) < k")
    case True
    then have "dropWhile ?P (take k ys) = take (k - length (takeWhile ?P ys)) (dropWhile ?P ys)"
      by (metis (no_types, lifting) append_eq_conv_conj min.strict_order_iff takeWhile_dropWhile_id take_append tw
          length_take min.commute order_less_imp_le take_all_iff)
    then show ?thesis using True by (simp add: rank_in_def tw take_Cons' Suc_diff_Suc)
  next
    case False
    then show ?thesis by (simp add: rank_in_def tw)
  qed
qed

lemma sort_desc_id: "descending key ys \<Longrightarrow> sort_desc key ys = ys"
  unfolding sort_desc_def by (rule sort_key_id_if_sorted) (simp add: descending_def sorted_map word_le_def)

definition top_next :: "nat \<Rightarrow> 'p route_quote \<Rightarrow> 'p route_quote list \<Rightarrow> 'p route_quote list" where
  "top_next k q kept =
     (if \<exists>e \<in> set kept. rq_path e = rq_path q then kept else take k (sort_desc rq_amount_out (kept @ [q])))"

definition top_of :: "nat \<Rightarrow> 'p route_quote list \<Rightarrow> 'p route_quote list" where
  "top_of k qs = take k (sort_desc rq_amount_out (first_seen qs))"

text \<open>Quotes are consistent when a path is never quoted two ways.\<close>

definition consistent_quotes :: "'p route_quote list \<Rightarrow> bool" where
  "consistent_quotes qs \<longleftrightarrow> (\<forall>q \<in> set qs. \<forall>q' \<in> set qs. rq_path q = rq_path q' \<longrightarrow> q = q')"

lemma top_of_snoc:
  assumes "consistent_quotes (qs @ [q])"
  shows "top_next k q (top_of k qs) = top_of k (qs @ [q])"
proof -
  let ?S = "sort_desc rq_amount_out (first_seen qs)"
  have sub: "set (take k ?S) \<subseteq> set qs" using set_take_subset [of k ?S] by simp
  have desc: "descending rq_amount_out ?S" "descending rq_amount_out (take k ?S)"
    by (simp_all add: descending_take)
  have same: "q \<in> set (take k ?S)" if "\<exists>e \<in> set (take k ?S). rq_path e = rq_path q"
    using that sub assms by (fastforce simp: consistent_quotes_def)
  have next_eq: "top_next k q (top_of k qs) =
      (if q \<in> set (take k ?S) then take k ?S else take k (rank_in rq_amount_out q (take k ?S)))"
    using same by (auto simp: top_next_def top_of_def sort_desc_snoc sort_desc_id [OF desc(2)])
  show ?thesis
  proof (cases "q \<in> set qs")
    case False
    then have "q \<notin> set (take k ?S)" using sub by blast
    then show ?thesis using False next_eq
      by (simp add: top_of_def first_seen_snoc sort_desc_snoc take_rank_in [OF desc(1)])
  next
    case True
    have "take k (rank_in rq_amount_out q (take k ?S)) = take k ?S" if out: "q \<notin> set (take k ?S)"
    proof -
      have "q \<in> set ?S" using True by simp
      then have qd: "q \<in> set (drop k ?S)" using out by (metis UnE append_take_drop_id set_append)
      then have len: "length (take k ?S) = k" by (cases "k \<le> length ?S") auto
      have "descending rq_amount_out (take k ?S @ drop k ?S)" using desc(1) by simp
      then have "\<forall>y \<in> set (take k ?S). rq_amount_out q \<le> rq_amount_out y"
        using qd unfolding descending_def sorted_wrt_append by blast
      then have "rank_in rq_amount_out q (take k ?S) = take k ?S @ [q]"
        by (simp add: rank_in_def takeWhile_eq_all_conv [THEN iffD2] dropWhile_eq_Nil_conv [THEN iffD2])
      then show ?thesis using len by simp
    qed
    then show ?thesis using True next_eq by (simp add: top_of_def first_seen_snoc)
  qed
qed

lemma record_top_route_state:
  "record_top_route q st = (rank, st') \<Longrightarrow>
     st' = st\<lparr>st_top := top_next (sc_top_k (st_config st)) q (st_top st)\<rparr>"
  by (auto simp: record_top_route_def top_next_def Let_def split: if_splits)

lemma data_eqD:
  assumes "data st' = data st"
  shows "st_config st' = st_config st \<and> st_best st' = st_best st \<and> st_top st' = st_top st \<and>
    st_observed st' = st_observed st \<and> st_failed st' = st_failed st \<and> st_total st' = st_total st"
  using assms by (simp add: data_def)

text \<open>Observing a quote in three parts: record it, report progress, announce it.\<close>

definition recorded :: "route_search_phase \<Rightarrow> 'p route_quote \<Rightarrow> 'p streaming_state \<Rightarrow> 'p streaming_state" where
  "recorded phase q st =
     (let st1 = st\<lparr>st_phase := Some phase, st_observed := Suc (st_observed st),
                   st_top := top_next (sc_top_k (st_config st)) q (st_top st)\<rparr>
      in if improves_best q (st_best st)
         then (count_improvement phase st1)\<lparr>st_best := Some q\<rparr>
         else st1)"

definition announce ::
  "'p callback \<Rightarrow> route_search_phase \<Rightarrow> 'p route_quote \<Rightarrow> nat option \<Rightarrow> 'p streaming_state \<Rightarrow> 'p streaming_state \<Rightarrow>
     bool \<times> 'p streaming_state" where
  "announce ctl phase q rank st st3 =
     (if \<not> st_released st \<or> just_released_initial_results (st_released st) st3 then (True, st3)
      else if improves_best q (st_best st)
      then (case emit_search_event ctl (BestUpdated phase q (st_best st) Provisional) st3 of
              (False, st4) \<Rightarrow> (False, st4\<lparr>st_stop := Some StoppedFinality\<rparr>)
            | (True, st4) \<Rightarrow> emit_route_found ctl phase rank q st4)
      else emit_route_found ctl phase rank q st3)"

lemma count_improvement_frame:
  "st_best (count_improvement phase st) = st_best st" "st_config (count_improvement phase st) = st_config st"
  "st_top (count_improvement phase st) = st_top st" "st_observed (count_improvement phase st) = st_observed st"
  "st_failed (count_improvement phase st) = st_failed st" "st_total (count_improvement phase st) = st_total st"
  "st_released (count_improvement phase st) = st_released st" "st_events (count_improvement phase st) = st_events st"
  "st_stop (count_improvement phase st) = st_stop st"
  by (simp_all add: count_improvement_def)

lemma observe_quote_parts:
  assumes p: "emit_progress_and_apply_policies ctl phase (recorded phase q st) = (go, st3)"
  obtains rank where
    "observe_quote ctl phase q st = (if go then announce ctl phase q rank st st3 else (False, st3))"
proof -
  obtain rank st1 where r: "record_top_route q (st\<lparr>st_phase := Some phase, st_observed := Suc (st_observed st)\<rparr>) = (rank, st1)"
    by fastforce
  note s1 = record_top_route_state [OF r]
  have "observe_quote ctl phase q st = (if go then announce ctl phase q rank st st3 else (False, st3))"
    using p unfolding observe_quote_def recorded_def announce_def Let_def r prod.case s1
    by (cases "improves_best q (st_best st)"; cases go) (simp_all add: count_improvement_frame)
  then show thesis by (rule that)
qed

lemma data_announce: "announce ctl phase q rank st st3 = (b, st') \<Longrightarrow> data st' = data st3"
  by (auto simp: announce_def emit_search_event_def dest: data_found split: if_splits bool.splits)

lemma observe_quote_data:
  assumes "observe_quote ctl phase q st = (b, st')"
  shows "st_config st' = st_config st \<and> st_best st' = best_step q (st_best st) \<and>
    st_top st' = top_next (sc_top_k (st_config st)) q (st_top st) \<and> st_observed st' = Suc (st_observed st) \<and>
    st_failed st' = st_failed st \<and> st_total st' = st_total st"
proof -
  obtain b3 st3 where p: "emit_progress_and_apply_policies ctl phase (recorded phase q st) = (b3, st3)" by fastforce
  obtain rank where "observe_quote ctl phase q st = (if b3 then announce ctl phase q rank st st3 else (False, st3))"
    by (rule observe_quote_parts [OF p])
  then have "data st' = data st3" using assms data_announce [of ctl phase q rank st st3 b st'] by (auto split: if_splits)
  then have d: "data st' = data (recorded phase q st)" using data_progress [OF p] by simp
  show ?thesis using data_eqD [OF d] by (auto simp: recorded_def best_step_def Let_def count_improvement_frame)
qed

lemma observe_quote_done: "observe_quote ctl phase q st = (b, st') \<Longrightarrow> st_heuristic_done st' = st_heuristic_done st"
proof -
  assume o: "observe_quote ctl phase q st = (b, st')"
  obtain b3 st3 where p: "emit_progress_and_apply_policies ctl phase (recorded phase q st) = (b3, st3)" by fastforce
  obtain rank where "observe_quote ctl phase q st = (if b3 then announce ctl phase q rank st st3 else (False, st3))"
    by (rule observe_quote_parts [OF p])
  then have "data st' = data st3" using o data_announce [of ctl phase q rank st st3 b st'] by (auto split: if_splits)
  then show ?thesis using data_progress [OF p] by (simp add: data_def recorded_def Let_def count_improvement_def split: if_splits)
qed

lemma stream_step_data:
  assumes "stream_step ctl x st = (b, st')"
  shows "st_config st' = st_config st \<and> st_best st' = fold best_step (seen [x]) (st_best st) \<and>
    st_top st' = fold (top_next (sc_top_k (st_config st))) (seen [x]) (st_top st) \<and>
    st_observed st' = st_observed st + length (seen [x])"
proof (cases x)
  case (SeeQuote phase q)
  then show ?thesis using observe_quote_data [of ctl phase q st b st'] assms by simp
next
  case (SeeFailures phase n)
  then show ?thesis
    using assms data_eqD [OF data_progress] by (fastforce simp: observe_failed_candidates_def split: if_splits)
next
  case HeuristicOver
  then show ?thesis using assms data_eqD [OF data_progress] by (fastforce simp: finish_heuristic_phase_def)
next
  case (TotalKnown n)
  then show ?thesis using assms data_eqD [OF data_progress] by (fastforce simp: set_total_candidates_def)
qed

definition stream_tracks :: "streaming_config \<Rightarrow> 'p stream_input list \<Rightarrow> 'p streaming_state \<Rightarrow> bool" where
  "stream_tracks config xs st \<longleftrightarrow>
     st_config st = config \<and> st_observed st = length (seen xs) \<and> st_best st = best_of (seen xs) \<and>
     (consistent_quotes (seen xs) \<longrightarrow> st_top st = top_of (sc_top_k config) (seen xs))"

lemma seen_single: "seen [x] = [] \<or> (\<exists>q. seen [x] = [q])"
  by (cases x) simp_all

lemma stream_tracks_step:
  assumes "stream_tracks config xs st" and "stream_step ctl x st = (b, st')"
  shows "stream_tracks config (xs @ [x]) st'"
proof -
  note d = stream_step_data [OF assms(2)]
  consider "seen [x] = []" | q where "seen [x] = [q]" using seen_single by blast
  then show ?thesis
  proof cases
    case 1
    then show ?thesis using d assms(1) by (simp add: stream_tracks_def)
  next
    case (2 q)
    have "consistent_quotes (seen xs @ [q]) \<Longrightarrow> consistent_quotes (seen xs)" by (simp add: consistent_quotes_def)
    with 2 d assms(1) show ?thesis by (auto simp: stream_tracks_def top_of_snoc)
  qed
qed

lemma run_stream_tracks:
  assumes "run_stream ctl xs st = (go, st')" and "stream_tracks config [] st"
  shows "\<exists>ys. prefix ys xs \<and> (go \<longrightarrow> ys = xs) \<and> stream_tracks config ys st'"
  using run_stream_invariant [where I = "stream_tracks config" and pre = "[]" and st = st, OF _ assms(2,1)]
    stream_tracks_step by fastforce

lemma new_stream_tracks: "stream_tracks config [] (new_stream config)"
  by (simp add: stream_tracks_def new_stream_def top_of_def first_seen_def sort_desc_def)

section \<open>The result gate\<close>

fun quote_bearing :: "'p route_search_event \<Rightarrow> bool" where
  "quote_bearing (RouteFound _ _ _) = True"
| "quote_bearing (BestUpdated _ _ _ _) = True"
| "quote_bearing (InitialResultsReady _ _ _) = True"
| "quote_bearing _ = False"

fun is_ready :: "'p route_search_event \<Rightarrow> bool" where
  "is_ready (InitialResultsReady _ _ _) = True"
| "is_ready _ = False"

text \<open>What may have been shown: without a policy no release event; with one, nothing before the
  release, which comes first, once, and only when the policy was satisfied.\<close>

fun gate_spec :: "streaming_threshold_policy option \<Rightarrow> bool \<Rightarrow> 'p route_search_event list \<Rightarrow> bool" where
  "gate_spec None released shown \<longleftrightarrow> released \<and> (\<forall>e \<in> set shown. \<not> is_ready e)"
| "gate_spec (Some policy) False shown \<longleftrightarrow> shown = []"
| "gate_spec (Some policy) True shown \<longleftrightarrow>
     (\<exists>progress best routes rest. shown = InitialResultsReady progress best routes # rest \<and>
        is_satisfied policy progress \<and> (\<forall>e \<in> set rest. \<not> is_ready e))"

definition gate_ok :: "'p streaming_state \<Rightarrow> bool" where
  "gate_ok st \<longleftrightarrow>
     gate_spec (sc_initial_policy (st_config st)) (st_released st) (filter quote_bearing (st_events st))"

lemma gate_spec_snoc:
  "gate_spec policy True shown \<Longrightarrow> \<not> is_ready e \<Longrightarrow> gate_spec policy True (shown @ [e])"
  by (cases policy) auto

lemma gate_ok_frame [simp]:
  "gate_ok (st\<lparr>st_phase := p\<rparr>) = gate_ok st" "gate_ok (st\<lparr>st_stop := f\<rparr>) = gate_ok st"
  by (simp_all add: gate_ok_def)

lemma gate_ok_silent: "gate_ok st \<Longrightarrow> \<not> quote_bearing e \<Longrightarrow> gate_ok (st\<lparr>st_events := st_events st @ [e]\<rparr>)"
  by (simp add: gate_ok_def)

lemma gate_ok_shown:
  "gate_ok st \<Longrightarrow> st_released st \<Longrightarrow> \<not> is_ready e \<Longrightarrow> gate_ok (st\<lparr>st_events := st_events st @ [e]\<rparr>)"
  by (auto simp: gate_ok_def gate_spec_snoc)

lemma gate_ok_release:
  assumes "gate_ok st" and "\<not> st_released st" and "sc_initial_policy (st_config st) = Some policy"
    and "is_satisfied policy progress"
  shows "gate_ok (st\<lparr>st_released := True, st_events := st_events st @ [InitialResultsReady progress best routes]\<rparr>)"
  using assms by (simp add: gate_ok_def)

lemma gate_stop_policy: "apply_stop_policy progress st = (b, st') \<Longrightarrow> gate_ok st' = gate_ok st \<and> st_released st' = st_released st"
  by (auto simp: apply_stop_policy_def gate_ok_def split: if_splits)

lemma release_unfold:
  assumes "st_best st = Some best"
  shows "release_initial_results ctl progress st =
    (let e = InitialResultsReady progress best (st_top st);
         st' = st\<lparr>st_released := True, st_events := st_events st @ [e]\<rparr>
     in if ctl (st_events st) e = Continue then (True, st') else (False, st'\<lparr>st_stop := Some StoppedFinality\<rparr>))"
  using assms by (simp add: release_initial_results_def emit_search_event_def Let_def)

lemma progress_unfold:
  assumes e: "emit_search_event ctl (Progress (progress_of (st\<lparr>st_phase := Some phase\<rparr>))) (st\<lparr>st_phase := Some phase\<rparr>) = (go, st1)"
    and pr: "pr = progress_of (st\<lparr>st_phase := Some phase\<rparr>)"
  shows "emit_progress_and_apply_policies ctl phase st =
    (if go then
       (if \<not> st_released st1 \<and> st_best st1 \<noteq> None \<and>
           (case sc_initial_policy (st_config st1) of None \<Rightarrow> False | Some p \<Rightarrow> is_satisfied p pr)
        then (case release_initial_results ctl pr st1 of
                (False, st2) \<Rightarrow> (False, st2)
              | (True, st2) \<Rightarrow> apply_stop_policy pr st2)
        else apply_stop_policy pr st1)
     else (False, st1\<lparr>st_stop := Some StoppedFinality\<rparr>))"
  unfolding emit_progress_and_apply_policies_def Let_def e pr by (cases go) simp_all

lemma gate_progress:
  assumes "gate_ok st" and "emit_progress_and_apply_policies ctl phase st = (b, st')"
  shows "gate_ok st'" and "st_released st \<longrightarrow> st_released st'"
proof -
  define pr where "pr = progress_of (st\<lparr>st_phase := Some phase\<rparr>)"
  obtain go st1 where e: "emit_search_event ctl (Progress (progress_of (st\<lparr>st_phase := Some phase\<rparr>))) (st\<lparr>st_phase := Some phase\<rparr>) = (go, st1)"
    by fastforce
  have g1: "gate_ok st1" "st_released st1 = st_released st"
    using e assms(1) by (auto simp: emit_search_event_def gate_ok_def)
  note u = progress_unfold [OF e pr_def]
  have "gate_ok st' \<and> (st_released st \<longrightarrow> st_released st')"
  proof (cases "go \<and> \<not> st_released st1 \<and> st_best st1 \<noteq> None \<and>
      (case sc_initial_policy (st_config st1) of None \<Rightarrow> False | Some p \<Rightarrow> is_satisfied p pr)")
    case True
    then obtain policy best where pb: "sc_initial_policy (st_config st1) = Some policy" "is_satisfied policy pr"
        "st_best st1 = Some best" "\<not> st_released st1"
      by (auto split: option.splits)
    define st2 where "st2 = st1\<lparr>st_released := True, st_events := st_events st1 @ [InitialResultsReady pr best (st_top st1)]\<rparr>"
    have g2: "gate_ok st2" unfolding st2_def by (rule gate_ok_release [OF g1(1) pb(4,1,2)])
    obtain go2 where r: "release_initial_results ctl pr st1 = (if go2 then (True, st2) else (False, st2\<lparr>st_stop := Some StoppedFinality\<rparr>))"
      using release_unfold [OF pb(3), of ctl pr] unfolding Let_def st2_def [symmetric] by blast
    have "(if go2 then apply_stop_policy pr st2 else (False, st2\<lparr>st_stop := Some StoppedFinality\<rparr>)) = (b, st')"
      using assms(2) True r unfolding u by (cases go2) simp_all
    then show ?thesis using g2 pb(4) g1(2) by (auto dest: gate_stop_policy split: if_splits)
  next
    case False
    then have "(if go then apply_stop_policy pr st1 else (False, st1\<lparr>st_stop := Some StoppedFinality\<rparr>)) = (b, st')"
      using assms(2) unfolding u by (cases go) auto
    then show ?thesis using g1 by (auto dest!: gate_stop_policy split: if_splits)
  qed
  then show "gate_ok st'" and "st_released st \<longrightarrow> st_released st'" by blast+
qed

lemma gate_found:
  "gate_ok st \<Longrightarrow> st_released st \<Longrightarrow> emit_route_found ctl phase rank q st = (b, st') \<Longrightarrow> gate_ok st'"
  by (auto simp: emit_route_found_def emit_search_event_def gate_ok_shown split: if_splits bool.splits)

lemma gate_announce:
  assumes "gate_ok st3" and "st_released st \<longrightarrow> st_released st3" and "announce ctl phase q rank st st3 = (b, st')"
  shows "gate_ok st'"
proof (cases "\<not> st_released st \<or> just_released_initial_results (st_released st) st3")
  case True
  then show ?thesis using assms by (auto simp: announce_def)
next
  case False
  then have r: "st_released st3" using assms(2) by simp
  let ?e = "BestUpdated phase q (st_best st) Provisional"
  let ?st4 = "st3\<lparr>st_events := st_events st3 @ [?e]\<rparr>"
  have g4: "gate_ok ?st4" by (rule gate_ok_shown [OF assms(1) r]) simp
  have r4: "st_released ?st4" using r by simp
  have e: "emit_search_event ctl ?e st3 = (ctl (st_events st3) ?e = Continue, ?st4)"
    by (simp add: emit_search_event_def)
  show ?thesis
    using assms(3) False e gate_found [OF assms(1) r, of ctl phase rank q b st'] gate_found [OF g4 r4, of ctl phase rank q b st'] g4
    by (auto simp: announce_def split: if_splits bool.splits)
qed

lemma gate_step:
  assumes "gate_ok st" and "stream_step ctl x st = (b, st')"
  shows "gate_ok st'"
proof (cases x)
  case (SeeQuote phase q)
  obtain go st3 where p: "emit_progress_and_apply_policies ctl phase (recorded phase q st) = (go, st3)" by fastforce
  obtain rank where o2: "observe_quote ctl phase q st = (if go then announce ctl phase q rank st st3 else (False, st3))"
    by (rule observe_quote_parts [OF p])
  have rec: "gate_ok (recorded phase q st)" "st_released (recorded phase q st) = st_released st"
    using assms(1) by (simp_all add: recorded_def gate_ok_def Let_def count_improvement_frame)
  note g3 = gate_progress [OF rec(1) p]
  show ?thesis
    using assms(2) SeeQuote o2 g3 rec(2) gate_announce [OF g3(1), of st ctl phase q rank b st'] by (auto split: if_splits)
next
  case (SeeFailures phase n)
  then show ?thesis using assms gate_progress(1) [of "st\<lparr>st_phase := Some phase, st_failed := st_failed st + n\<rparr>" ctl phase b st']
    by (auto simp: observe_failed_candidates_def gate_ok_def split: if_splits)
next
  case HeuristicOver
  then show ?thesis
    using assms gate_progress(1) [of "st\<lparr>st_heuristic_best := st_best st, st_heuristic_done := True, st_phase := Some HeuristicPhase\<rparr>"]
    by (fastforce simp: finish_heuristic_phase_def gate_ok_def)
next
  case (TotalKnown n)
  then show ?thesis
    using assms gate_progress(1) [of "st\<lparr>st_total := Some (max n (candidates_evaluated st)), st_phase := Some ExhaustivePhase\<rparr>"]
    by (fastforce simp: set_total_candidates_def gate_ok_def)
qed

lemma new_stream_gate: "gate_ok (new_stream config)"
  by (cases "sc_initial_policy config") (simp_all add: gate_ok_def new_stream_def)

section \<open>Reasons to stop\<close>

definition stop_reason_ok :: "'p callback \<Rightarrow> 'p streaming_state \<Rightarrow> bool" where
  "stop_reason_ok ctl st \<longleftrightarrow>
     (case st_stop st of
        None \<Rightarrow> False
      | Some StoppedFinality \<Rightarrow> \<exists>before e. st_events st = before @ [e] \<and> ctl before e = Stop
      | Some StopPolicySatisfied \<Rightarrow>
          st_best st \<noteq> None \<and>
          (\<exists>policy progress. sc_stop_policy (st_config st) = Some policy \<and> is_satisfied policy progress \<and>
             Progress progress \<in> set (st_events st))
      | Some _ \<Rightarrow> False)"

text \<open>A step goes on without a stop reason, or stops with one.\<close>

definition stops_for_reason :: "'p callback \<Rightarrow> bool \<times> 'p streaming_state \<Rightarrow> bool" where
  "stops_for_reason ctl r \<longleftrightarrow> (if fst r then st_stop (snd r) = None else stop_reason_ok ctl (snd r))"

lemma not_continue: "c \<noteq> Continue \<longleftrightarrow> c = Stop"
  by (cases c) simp_all

lemma stop_emit:
  "st_stop st = None \<Longrightarrow> emit_search_event ctl e st = (go, st') \<Longrightarrow>
     stops_for_reason ctl (if go then (True, st') else (False, st'\<lparr>st_stop := Some StoppedFinality\<rparr>))"
  by (auto simp: stops_for_reason_def emit_search_event_def stop_reason_ok_def not_continue)

lemma stop_policy_reason:
  assumes "st_stop st = None" and "Progress progress \<in> set (st_events st)"
  shows "stops_for_reason ctl (apply_stop_policy progress st)"
  using assms by (auto simp: stops_for_reason_def apply_stop_policy_def stop_reason_ok_def split: option.splits)

lemma stop_progress:
  assumes "st_stop st = None"
  shows "stops_for_reason ctl (emit_progress_and_apply_policies ctl phase st)"
proof -
  define pr where "pr = progress_of (st\<lparr>st_phase := Some phase\<rparr>)"
  obtain go st1 where e: "emit_search_event ctl (Progress (progress_of (st\<lparr>st_phase := Some phase\<rparr>))) (st\<lparr>st_phase := Some phase\<rparr>) = (go, st1)"
    by fastforce
  have s1: "st_stop st1 = None" "Progress pr \<in> set (st_events st1)"
    using e assms by (auto simp: emit_search_event_def pr_def)
  have n: "st_stop (st\<lparr>st_phase := Some phase\<rparr>) = None" using assms by simp
  note em = stop_emit [OF n e] and u = progress_unfold [OF e pr_def]
  show ?thesis
  proof (cases "go \<and> \<not> st_released st1 \<and> st_best st1 \<noteq> None \<and>
      (case sc_initial_policy (st_config st1) of None \<Rightarrow> False | Some p \<Rightarrow> is_satisfied p pr)")
    case True
    then obtain best where best: "st_best st1 = Some best" by auto
    define ev where "ev = InitialResultsReady pr best (st_top st1)"
    obtain go2 st2 where e2: "emit_search_event ctl ev (st1\<lparr>st_released := True\<rparr>) = (go2, st2)" by fastforce
    have s2: "st_stop st2 = None" "Progress pr \<in> set (st_events st2)" using e2 s1 by (auto simp: emit_search_event_def)
    have n2: "st_stop (st1\<lparr>st_released := True\<rparr>) = None" using s1 by simp
    have r: "release_initial_results ctl pr st1 = (if go2 then (True, st2) else (False, st2\<lparr>st_stop := Some StoppedFinality\<rparr>))"
      using e2 best by (cases go2) (simp_all add: release_initial_results_def ev_def)
    have "emit_progress_and_apply_policies ctl phase st =
        (if go2 then apply_stop_policy pr st2 else (False, st2\<lparr>st_stop := Some StoppedFinality\<rparr>))"
      using True r unfolding u by (cases go2) simp_all
    then show ?thesis using stop_policy_reason [OF s2] stop_emit [OF n2 e2] by (simp split: if_splits)
  next
    case False
    then have "emit_progress_and_apply_policies ctl phase st =
        (if go then apply_stop_policy pr st1 else (False, st1\<lparr>st_stop := Some StoppedFinality\<rparr>))"
      unfolding u by (cases go) auto
    then show ?thesis using stop_policy_reason [OF s1] em by (simp split: if_splits)
  qed
qed

lemma stop_found: "st_stop st = None \<Longrightarrow> stops_for_reason ctl (emit_route_found ctl phase rank q st)"
  using stop_emit [of st ctl "RouteFound phase rank q"]
  by (auto simp: emit_route_found_def stops_for_reason_def split: prod.splits bool.splits)

lemma stop_announce:
  assumes "st_stop st3 = None"
  shows "stops_for_reason ctl (announce ctl phase q rank st st3)"
proof -
  let ?e = "BestUpdated phase q (st_best st) Provisional"
  obtain go st4 where e: "emit_search_event ctl ?e st3 = (go, st4)" by fastforce
  have "st_stop st4 = None" using e assms by (auto simp: emit_search_event_def)
  then show ?thesis
    using stop_emit [OF assms e] stop_found [of st4 ctl phase rank q] stop_found [OF assms, of ctl phase rank q] assms e
    by (auto simp: announce_def stops_for_reason_def split: bool.splits)
qed

lemma stop_step:
  assumes "st_stop st = None"
  shows "stops_for_reason ctl (stream_step ctl x st)"
proof (cases x)
  case (SeeQuote phase q)
  obtain go st3 where p: "emit_progress_and_apply_policies ctl phase (recorded phase q st) = (go, st3)" by fastforce
  obtain rank where o2: "observe_quote ctl phase q st = (if go then announce ctl phase q rank st st3 else (False, st3))"
    by (rule observe_quote_parts [OF p])
  have "st_stop (recorded phase q st) = None" using assms by (simp add: recorded_def Let_def count_improvement_frame)
  from stop_progress [OF this, of ctl phase] have r: "stops_for_reason ctl (go, st3)" unfolding p .
  then show ?thesis using SeeQuote o2 stop_announce [of st3 ctl phase q rank st] by (auto simp: stops_for_reason_def)
next
  case (SeeFailures phase n)
  then show ?thesis using assms by (auto simp: observe_failed_candidates_def stop_progress) (simp add: stops_for_reason_def)
next
  case HeuristicOver
  then show ?thesis using assms by (simp add: finish_heuristic_phase_def stop_progress)
next
  case (TotalKnown n)
  then show ?thesis using assms by (simp add: set_total_candidates_def stop_progress)
qed

lemma run_stream_stops:
  "st_stop st = None \<Longrightarrow> stops_for_reason ctl (run_stream ctl xs st)"
proof (induction xs arbitrary: st)
  case Nil
  then show ?case by (simp add: stops_for_reason_def)
next
  case (Cons x xs)
  obtain go st1 where s: "stream_step ctl x st = (go, st1)" by fastforce
  have "stops_for_reason ctl (go, st1)" using stop_step [OF Cons.prems, of ctl x] s by simp
  with Cons.IH [of st1] s show ?case by (cases go) (auto simp: stops_for_reason_def)
qed

section \<open>The confidence score\<close>

lemma fraction_cases:
  "fraction_bps st = (case st_total st of None \<Rightarrow> None
     | Some all \<Rightarrow> Some (if all = 0 then 10000 else min (saturating_mul (min (candidates_evaluated st) all) 10000 div all) 10000))"
proof -
  have "min x 10000 \<le> (65535 :: nat)" for x by (simp add: min_le_iff_disj)
  then show ?thesis by (simp add: fraction_bps_def Let_def split: option.split)
qed

lemma fraction_le: "fraction_bps st = Some f \<Longrightarrow> f \<le> 10000"
  by (auto simp: fraction_cases split: option.splits if_splits)

lemma confidence_zero: "confidence_bps st f = 0 \<longleftrightarrow> st_best st = None"
  by (auto simp: confidence_bps_def min_def split: option.splits)

lemma confidence_le: "confidence_bps st f \<le> 9999"
  by (auto simp: confidence_bps_def split: option.splits)

lemma confidence_floor:
  assumes "st_best st \<noteq> None"
  shows "7000 \<le> confidence_bps st f" and "st_heuristic_done st \<or> f \<noteq> None \<Longrightarrow> 9000 \<le> confidence_bps st f"
  using assms by (auto simp: confidence_bps_def min_def split: option.splits)

lemma fraction_mono:
  assumes "st_total st' = st_total st" and "candidates_evaluated st \<le> candidates_evaluated st'"
    and "fraction_bps st = Some f"
  obtains f' where "fraction_bps st' = Some f'" and "f \<le> f'"
proof -
  have "saturating_mul (min a n) 10000 div n \<le> saturating_mul (min b n) 10000 div n" if "a \<le> b" for a b n
    using that by (intro div_le_mono) (auto simp: saturating_mul_def min_def)
  then have m: "min (saturating_mul (min (candidates_evaluated st) n) 10000 div n) 10000 \<le>
      min (saturating_mul (min (candidates_evaluated st') n) 10000 div n) 10000" for n
    using assms(2) by (intro min.mono) simp_all
  obtain n where "st_total st = Some n" using assms(3) by (auto simp: fraction_cases split: option.splits)
  with assms(1,3) m [of n] show thesis
    by (intro that [of "if n = 0 then 10000 else min (saturating_mul (min (candidates_evaluated st') n) 10000 div n) 10000"])
      (simp_all add: fraction_cases split: if_splits)
qed

lemma confidence_mono:
  assumes "st_best st \<noteq> None \<longrightarrow> st_best st' \<noteq> None" and "st_heuristic_done st \<longrightarrow> st_heuristic_done st'"
    and "candidates_evaluated st \<le> candidates_evaluated st'" and "st_total st' = st_total st"
  shows "confidence_bps st (fraction_bps st) \<le> confidence_bps st' (fraction_bps st')"
proof (cases "st_best st = None")
  case True
  then show ?thesis by (simp add: confidence_bps_def)
next
  case False
  then have b: "st_best st \<noteq> None" "st_best st' \<noteq> None" using assms(1) by simp_all
  show ?thesis
  proof (cases "fraction_bps st")
    case None
    then have "st_total st = None" by (auto simp: fraction_cases split: option.splits)
    with assms(2,4) b show ?thesis by (auto simp: confidence_bps_def fraction_cases)
  next
    case (Some f)
    obtain f' where f: "fraction_bps st' = Some f'" "f \<le> f'" by (rule fraction_mono [OF assms(4,3) Some])
    then have "min (9000 + f div 10) 9999 \<le> min (9000 + f' div 10) (9999 :: nat)"
      by (intro min.mono add_mono div_le_mono) simp_all
    with Some f b assms(3,4) show ?thesis by (auto simp: confidence_bps_def split: option.splits)
  qed
qed

lemma confidence_first_total:
  assumes "st_best st \<noteq> None \<longrightarrow> st_best st' \<noteq> None" and "st_total st = None" and "st_total st' \<noteq> None"
  shows "confidence_bps st (fraction_bps st) \<le> confidence_bps st' (fraction_bps st')"
proof (cases "st_best st = None")
  case True
  then show ?thesis by (simp add: confidence_bps_def)
next
  case False
  have "confidence_bps st (fraction_bps st) \<le> 9000" using assms(2) by (simp add: confidence_bps_def fraction_cases)
  also have "\<dots> \<le> confidence_bps st' (fraction_bps st')"
    using assms(1,3) False by (intro confidence_floor(2)) (auto simp: fraction_cases split: option.splits)
  finally show ?thesis .
qed

fun announces_total :: "'p stream_input \<Rightarrow> bool" where
  "announces_total (TotalKnown n) = True"
| "announces_total x = False"

lemma data_done:
  assumes "data st' = data st"
  shows "st_heuristic_done st' = st_heuristic_done st \<and> st_best st' = st_best st \<and> st_total st' = st_total st \<and>
    candidates_evaluated st' = candidates_evaluated st"
  using assms by (simp add: data_def candidates_evaluated_def)

lemma stream_step_confidence:
  assumes "stream_step ctl x st = (b, st')" and "announces_total x \<longrightarrow> st_total st = None"
  shows "confidence_bps st (fraction_bps st) \<le> confidence_bps st' (fraction_bps st')"
    and "st_total st' = (case x of TotalKnown n \<Rightarrow> Some (max n (candidates_evaluated st)) | _ \<Rightarrow> st_total st)"
proof -
  have "confidence_bps st (fraction_bps st) \<le> confidence_bps st' (fraction_bps st') \<and>
    st_total st' = (case x of TotalKnown n \<Rightarrow> Some (max n (candidates_evaluated st)) | _ \<Rightarrow> st_total st)"
  proof (cases x)
    case (SeeQuote phase q)
    then have o: "observe_quote ctl phase q st = (b, st')" using assms(1) by simp
    note d = observe_quote_data [OF o]
    have "st_heuristic_done st' = st_heuristic_done st" by (rule observe_quote_done [OF o])
    then show ?thesis using d SeeQuote
      by (intro conjI confidence_mono) (auto simp: best_step_def candidates_evaluated_def)
  next
    case (SeeFailures phase n)
    then show ?thesis
      using assms(1) data_done [OF data_progress, of ctl phase "st\<lparr>st_phase := Some phase, st_failed := st_failed st + n\<rparr>" b st']
      by (intro conjI confidence_mono)
        (auto simp: observe_failed_candidates_def candidates_evaluated_def split: if_splits)
  next
    case HeuristicOver
    then show ?thesis
      using assms(1) data_done [OF data_progress, of ctl HeuristicPhase
          "st\<lparr>st_heuristic_best := st_best st, st_heuristic_done := True, st_phase := Some HeuristicPhase\<rparr>" b st']
      by (intro conjI confidence_mono) (auto simp: finish_heuristic_phase_def candidates_evaluated_def)
  next
    case (TotalKnown n)
    then show ?thesis
      using assms data_done [OF data_progress, of ctl ExhaustivePhase
          "st\<lparr>st_total := Some (max n (candidates_evaluated st)), st_phase := Some ExhaustivePhase\<rparr>" b st']
      by (intro conjI confidence_first_total) (auto simp: set_total_candidates_def)
  qed
  then show "confidence_bps st (fraction_bps st) \<le> confidence_bps st' (fraction_bps st')"
    and "st_total st' = (case x of TotalKnown n \<Rightarrow> Some (max n (candidates_evaluated st)) | _ \<Rightarrow> st_total st)" by blast+
qed

lemma run_stream_confidence:
  assumes "run_stream ctl xs st = (b, st')"
    and "length (filter announces_total xs) \<le> (if st_total st = None then 1 else 0)"
  shows "confidence_bps st (fraction_bps st) \<le> confidence_bps st' (fraction_bps st')"
  using assms
proof (induction xs arbitrary: st)
  case (Cons x xs)
  obtain go st1 where s: "stream_step ctl x st = (go, st1)" by fastforce
  have a: "announces_total x \<longrightarrow> st_total st = None" using Cons.prems(2) by (auto split: if_splits)
  note c = stream_step_confidence [OF s a]
  have l: "length (filter announces_total xs) \<le> (if st_total st1 = None then 1 else 0)"
    using Cons.prems(2) c(2) by (auto split: if_splits stream_input.splits)
  show ?case
  proof (cases go)
    case True
    then have "run_stream ctl xs st1 = (b, st')" using Cons.prems(1) s by simp
    from Cons.IH [OF this l] c(1) show ?thesis by (rule order.trans [rotated])
  next
    case False
    then have "st' = st1" using Cons.prems(1) s by simp
    then show ?thesis using c(1) by simp
  qed
qed simp

section \<open>Completion\<close>

lemma release_once:
  assumes "gate_ok st" and "\<not> st_released st" and "release_initial_results ctl progress st = (b, st')"
  shows "length (filter is_ready (st_events st')) = (if st_best st = None then 0 else 1)"
proof -
  have "filter quote_bearing (st_events st) = []"
    using assms(1,2) by (cases "sc_initial_policy (st_config st)") (simp_all add: gate_ok_def)
  moreover have "is_ready e \<Longrightarrow> quote_bearing e" for e :: "'a route_search_event" by (cases e) simp_all
  ultimately have none: "filter is_ready (st_events st) = []" by (auto simp: filter_empty_conv)
  show ?thesis
  proof (cases "st_best st")
    case None
    then show ?thesis using assms(3) none by (simp add: release_initial_results_def)
  next
    case (Some best)
    then show ?thesis using assms(3) none by (auto simp: release_unfold Let_def split: if_splits)
  qed
qed

lemma ready_count_released:
  assumes "gate_spec (Some policy) True (filter quote_bearing es)"
  shows "length (filter is_ready es) = 1"
proof -
  have "(quote_bearing e \<and> is_ready e) = is_ready e" for e :: "'a route_search_event" by (cases e) simp_all
  then have eq: "filter is_ready (filter quote_bearing es) = filter is_ready es" by (simp add: conj_commute)
  obtain progress best routes rest where "filter quote_bearing es = InitialResultsReady progress best routes # rest"
    "\<forall>e \<in> set rest. \<not> is_ready e" using assms by auto
  then have "length (filter is_ready (filter quote_bearing es)) = 1" by (simp add: filter_empty_conv del: filter_filter)
  then show ?thesis unfolding eq .
qed

lemma completion_ready:
  assumes g: "gate_ok st" and p: "sc_initial_policy (st_config st) = Some policy"
    and b: "st_released st \<Longrightarrow> st_best st \<noteq> None"
  shows "length (filter is_ready (st_events (snd (finish_stream_report ctl finality qs ps emit st)))) =
    (if st_best st = None then 0 else 1)"
proof -
  obtain go st1 where r: "release_initial_results_at_completion ctl finality st = (go, st1)" by fastforce
  have "length (filter is_ready (st_events st1)) = (if st_best st = None then 0 else 1)"
  proof (cases "st_released st")
    case True
    then have "st1 = st" using r by (simp add: release_initial_results_at_completion_def)
    then show ?thesis using ready_count_released [of policy "st_events st"] g p True b by (simp add: gate_ok_def)
  next
    case False
    then show ?thesis using release_once [OF g False] r p by (auto simp: release_initial_results_at_completion_def)
  qed
  then show ?thesis unfolding finish_stream_report_def r Let_def prod.case by (auto simp: emit_search_event_def)
qed

text \<open>With a policy configured, released results mean that a best route exists.\<close>

definition released_has_best :: "'p streaming_state \<Rightarrow> bool" where
  "released_has_best st \<longleftrightarrow> (sc_initial_policy (st_config st) \<noteq> None \<and> st_released st \<longrightarrow> st_best st \<noteq> None)"

lemma released_stop_policy: "apply_stop_policy progress st = (b, st') \<Longrightarrow> st_released st' = st_released st"
  by (auto simp: apply_stop_policy_def split: if_splits)

lemma released_progress:
  assumes "emit_progress_and_apply_policies ctl phase st = (b, st')"
  shows "st_released st' \<longrightarrow> st_released st \<or> st_best st \<noteq> None"
proof -
  define pr where "pr = progress_of (st\<lparr>st_phase := Some phase\<rparr>)"
  obtain go st1 where e: "emit_search_event ctl (Progress (progress_of (st\<lparr>st_phase := Some phase\<rparr>))) (st\<lparr>st_phase := Some phase\<rparr>) = (go, st1)"
    by fastforce
  have s1: "st_released st1 = st_released st" "st_best st1 = st_best st" using e by (auto simp: emit_search_event_def)
  show ?thesis
  proof (cases "st_best st = None")
    case True
    then show ?thesis using assms s1 unfolding progress_unfold [OF e pr_def]
      by (auto dest: released_stop_policy split: if_splits)
  qed simp
qed

lemma released_announce: "announce ctl phase q rank st st3 = (b, st') \<Longrightarrow> st_released st' = st_released st3"
  by (auto simp: announce_def emit_search_event_def emit_route_found_def split: if_splits bool.splits)

lemma released_has_best_step:
  assumes "released_has_best st" and "stream_step ctl x st = (b, st')"
  shows "released_has_best st'"
proof (cases "\<exists>phase q. x = SeeQuote phase q")
  case True
  then obtain phase q where x: "x = SeeQuote phase q" by blast
  then have "st_best st' \<noteq> None"
    using observe_quote_data [of ctl phase q st b st'] assms(2)
    by (auto simp: best_step_def improves_best_def split: option.splits)
  then show ?thesis by (simp add: released_has_best_def)
next
  case False
  then have "st_released st' \<longrightarrow> st_released st \<or> st_best st \<noteq> None"
    using assms(2) by (cases x)
      (auto simp: observe_failed_candidates_def finish_heuristic_phase_def set_total_candidates_def
        dest!: released_progress split: if_splits)
  moreover have "st_best st' = st_best st" "st_config st' = st_config st"
    using False stream_step_data [OF assms(2)] by (cases x; simp)+
  ultimately show ?thesis using assms(1) by (auto simp: released_has_best_def)
qed

section \<open>An example run\<close>

definition demo_quote :: "nat \<Rightarrow> nat route_quote" where
  "demo_quote n = \<lparr>rq_path = [\<lparr>hop_pool = n, hop_in = 1, hop_out = 2\<rparr>], rq_amount_in = 5,
     rq_amount_out = (if n = 0 then 10 else 20), rq_hops = []\<rparr>"

definition demo_stream_config :: streaming_config where
  "demo_stream_config = \<lparr>sc_completion = ExhaustiveCompletion, sc_workers = 1, sc_emit_all_viable = False, sc_top_k = 1,
     sc_stop_policy = Some (policy_with_exhaustive_fraction None 10000),
     sc_initial_policy = Some (policy_with_confidence None 9000)\<rparr>"

definition demo_inputs :: "nat stream_input list" where
  "demo_inputs = [SeeQuote HeuristicPhase (demo_quote 0), SeeFailures HeuristicPhase 1, HeuristicOver,
     SeeQuote ExhaustivePhase (demo_quote 1), TotalKnown 4]"

definition go_on :: "nat callback" where
  "go_on before e = Continue"

definition demo_run :: "nat stream_input list \<Rightarrow> bool \<times> nat streaming_state" where
  "demo_run xs = run_stream go_on xs (new_stream demo_stream_config)"

lemmas stream_eval =
  demo_run_def demo_inputs_def demo_stream_config_def demo_quote_def go_on_def new_stream_def
  policy_with_confidence_def policy_with_exhaustive_fraction_def policy_all_def is_satisfied_def
  observe_quote_def observe_failed_candidates_def finish_heuristic_phase_def set_total_candidates_def
  emit_progress_and_apply_policies_def emit_search_event_def release_initial_results_def apply_stop_policy_def
  emit_route_found_def record_top_route_def improves_best_def count_improvement_def just_released_initial_results_def
  progress_of_def fraction_bps_def confidence_bps_def candidates_evaluated_def saturating_mul_def usize_max_def
  sort_desc_def word_less_def Let_def

lemma demo_run_value:
  "\<exists>st. demo_run demo_inputs = (True, st) \<and> st_best st = Some (demo_quote 1) \<and> st_total st = Some 4 \<and> st_released st"
  by (simp add: stream_eval)

lemma demo_run_stops: "\<exists>st. demo_run (demo_inputs @ [SeeFailures ExhaustivePhase 2]) = (False, st)"
  by (simp add: stream_eval)

section \<open>Properties\<close>

lemma best_of_first:
  "best_of qs = Some b \<Longrightarrow> \<exists>before after. qs = before @ b # after \<and>
     (\<forall>q \<in> set before. rq_amount_out q < rq_amount_out b) \<and> (\<forall>q \<in> set after. rq_amount_out q \<le> rq_amount_out b)"
proof (induction qs arbitrary: b rule: rev_induct)
  case (snoc q qs)
  show ?case
  proof (cases "improves_best q (best_of qs)")
    case True
    then have "b = q" using snoc.prems by (simp add: best_step_def)
    moreover have "\<forall>r \<in> set qs. rq_amount_out r < rq_amount_out q"
    proof (cases "best_of qs")
      case None
      then have "qs = []" by (simp only: best_of_None)
      then show ?thesis by simp
    next
      case (Some c)
      then have "rq_amount_out c < rq_amount_out q" using True by (simp add: improves_best_def)
      then show ?thesis using best_of_max [OF Some] by fastforce
    qed
    ultimately show ?thesis by (intro exI [of _ qs] exI [of _ "[]"]) simp
  next
    case False
    then have b: "best_of qs = Some b" using snoc.prems by (simp add: best_step_def)
    from snoc.IH [OF this] obtain before after where
      "qs = before @ b # after" "\<forall>q \<in> set before. rq_amount_out q < rq_amount_out b"
      "\<forall>q \<in> set after. rq_amount_out q \<le> rq_amount_out b" by blast
    moreover have "rq_amount_out q \<le> rq_amount_out b" using False b by (simp add: improves_best_def)
    ultimately show ?thesis by (intro exI [of _ before] exI [of _ "after @ [q]"]) auto
  qed
qed simp

text \<open>C15. A streaming search tracks its best and top routes exactly: whatever the callback
  does and wherever the search stops, a prefix of the observations was consumed (all of them
  when it went on), the best route is the first of the largest quotes consumed, and, when no
  path was quoted two ways, the retained routes are the \<^verbatim>\<open>top_k\<close> largest distinct quotes, in
  stable descending order.\<close>

theorem stream_tracks_best_and_top:
  assumes "run_stream ctl xs (new_stream config) = (go, st)"
  shows "\<exists>ys. prefix ys xs \<and> (go \<longrightarrow> ys = xs) \<and> st_observed st = length (seen ys) \<and>
    (case st_best st of
       None \<Rightarrow> seen ys = []
     | Some b \<Rightarrow> (\<exists>before after. seen ys = before @ b # after \<and>
         (\<forall>q \<in> set before. rq_amount_out q < rq_amount_out b) \<and>
         (\<forall>q \<in> set after. rq_amount_out q \<le> rq_amount_out b))) \<and>
    (consistent_quotes (seen ys) \<longrightarrow>
       st_top st = take (sc_top_k config) (sort_desc rq_amount_out (first_seen (seen ys))))"
proof -
  obtain ys where y: "prefix ys xs" "go \<longrightarrow> ys = xs" "stream_tracks config ys st"
    using run_stream_tracks [OF assms new_stream_tracks] by blast
  then have best: "st_best st = best_of (seen ys)" by (simp add: stream_tracks_def)
  show ?thesis
    using y best best_of_first [of "seen ys"] best_of_None [of "seen ys"]
    by (intro exI [of _ ys]) (auto simp: stream_tracks_def top_of_def split: option.split)
qed

theorem stream_tracks_best_and_top_witness:
  "\<exists>st. demo_run demo_inputs = (True, st) \<and> st_best st = Some (demo_quote 1) \<and> st_top st = [demo_quote 1]"
proof -
  obtain st where r: "demo_run demo_inputs = (True, st)" "st_best st = Some (demo_quote 1)" using demo_run_value by blast
  have c: "seen demo_inputs = [demo_quote 0, demo_quote 1]" by (simp add: demo_inputs_def)
  have k: "sc_top_k demo_stream_config = 1" by (simp add: demo_stream_config_def)
  have "consistent_quotes [demo_quote 0, demo_quote 1]" by (simp add: consistent_quotes_def demo_quote_def)
  then have "st_top st = take 1 (sort_desc rq_amount_out (first_seen [demo_quote 0, demo_quote 1]))"
    using stream_tracks_best_and_top [OF r(1) [unfolded demo_run_def]] unfolding c k by (auto simp: c)
  also have "\<dots> = [demo_quote 1]" by (simp add: first_seen_def sort_desc_def demo_quote_def)
  finally show ?thesis using r by blast
qed

text \<open>C16. Initial results are gated: as long as their policy is not satisfied no event shows a
  quote; when it is, the release event comes before every other quote, once. With a policy
  configured and any viable route, the finished search has released exactly once.\<close>

theorem stream_results_gated:
  assumes "run_stream ctl xs (new_stream config) = (go, st)"
  shows "gate_spec (sc_initial_policy config) (st_released st) (filter quote_bearing (st_events st)) \<and>
    (sc_initial_policy config \<noteq> None \<longrightarrow>
       length (filter is_ready (st_events (snd (finish_stream_report ctl finality qstats pstats emit st)))) =
         (if st_best st = None then 0 else 1))"
proof -
  have step: "stream_step ctl x s = (b, s') \<Longrightarrow>
      (gate_ok s \<and> released_has_best s) \<and> st_config s = config \<Longrightarrow>
      (gate_ok s' \<and> released_has_best s') \<and> st_config s' = config" for x s b s'
    using gate_step released_has_best_step stream_step_data by metis
  have new: "(gate_ok (new_stream config) \<and> released_has_best (new_stream config)) \<and> st_config (new_stream config) = config"
    using new_stream_gate [of config] by (auto simp: released_has_best_def new_stream_def)
  have "\<exists>ys. prefix ys xs \<and> (go \<longrightarrow> ys = xs) \<and> (gate_ok st \<and> released_has_best st) \<and> st_config st = config"
    by (rule run_stream_invariant [where I = "\<lambda>_ s. (gate_ok s \<and> released_has_best s) \<and> st_config s = config", OF step new assms])
  then have g: "gate_ok st" "released_has_best st" "st_config st = config" by auto
  show ?thesis
    using g completion_ready [of st _ ctl finality qstats pstats emit] by (auto simp: gate_ok_def released_has_best_def)
qed

theorem stream_results_gated_witness:
  "\<exists>st progress best routes rest. demo_run demo_inputs = (True, st) \<and>
     filter quote_bearing (st_events st) = InitialResultsReady progress best routes # rest \<and>
     9000 \<le> rp_confidence_bps progress \<and> (\<forall>e \<in> set rest. \<not> is_ready e)"
proof -
  obtain st where r: "demo_run demo_inputs = (True, st)" "st_released st" using demo_run_value by blast
  have p: "sc_initial_policy demo_stream_config = Some (policy_with_confidence None 9000)"
    by (simp add: demo_stream_config_def)
  have "gate_spec (Some (policy_with_confidence None 9000)) True (filter quote_bearing (st_events st))"
    using stream_results_gated [OF r(1) [unfolded demo_run_def]] r(2) unfolding p by simp
  then show ?thesis
    using r(1) by (auto simp: policy_with_confidence_def policy_all_def is_satisfied_def)
qed



text \<open>C18. The confidence score is sound: it is \<open>0\<close> exactly when no route is known, never reaches
  \<open>10000\<close> before exhaustive completion, which reports \<open>10000\<close> exactly when a route is known, the
  explored fraction never exceeds \<open>10000\<close>, and along a run that announces the number of
  candidates at most once the score never decreases.\<close>

theorem stream_confidence_sound:
  assumes "run_stream ctl xs st = (go, st')"
    and "length (filter announces_total xs) \<le> (if st_total st = None then 1 else 0)"
  shows "rp_confidence_bps (progress_of st) \<le> rp_confidence_bps (progress_of st') \<and>
    rp_confidence_bps (progress_of st') \<le> 9999 \<and>
    (rp_confidence_bps (progress_of st') = 0 \<longleftrightarrow> st_best st' = None) \<and>
    (\<forall>f. rp_fraction_bps (progress_of st') = Some f \<longrightarrow> f \<le> 10000) \<and>
    (rp_confidence_bps (final_progress finality st') = 10000 \<longleftrightarrow> finality = ExhaustiveFinality \<and> st_best st' \<noteq> None)"
proof -
  have lt: "confidence_bps st' f \<noteq> 10000" for f using confidence_le [of st' f] by linarith
  show ?thesis
    using run_stream_confidence [OF assms] confidence_le [of st'] lt
    by (auto simp: progress_of_def final_progress_def confidence_zero fraction_le)
qed

theorem stream_confidence_sound_witness:
  "\<exists>st. demo_run demo_inputs = (True, st) \<and> 0 < rp_confidence_bps (progress_of st) \<and>
     rp_confidence_bps (progress_of st) < rp_confidence_bps (final_progress ExhaustiveFinality st)"
proof -
  obtain st where r: "demo_run demo_inputs = (True, st)" "st_best st = Some (demo_quote 1)" using demo_run_value by blast
  have one: "length (filter announces_total demo_inputs) \<le> (if st_total (new_stream demo_stream_config) = None then 1 else 0)"
    by (simp add: demo_inputs_def new_stream_def)
  show ?thesis
    using stream_confidence_sound [OF r(1) [unfolded demo_run_def] one, of ExhaustiveFinality] r by auto
qed

end
