(* ===== verification/Liquidity.thy ===== *)
theory Liquidity
  imports Registry
begin

text \<open>
  The liquidity index of \<^verbatim>\<open>src/liquidity.rs\<close>: balances of pool tokens with their freshness,
  kept in a slot vector with a free list and five reverse indices.
\<close>

section \<open>Data\<close>

datatype balance_state = BalanceUnknown | BalanceStale | BalanceFresh u256

fun fresh :: "balance_state \<Rightarrow> u256 option" where
  "fresh (BalanceFresh v) = Some v"
| "fresh BalanceUnknown = None"
| "fresh BalanceStale = None"

datatype liquidity_source =
    Erc20Balance address "u256 option"
  | BalancerV2VaultCash address u256 bool
  | SourceUnknown

record liquidity_target =
  tgt_token :: address
  tgt_source :: liquidity_source
  tgt_balance :: balance_state
  tgt_active :: bool

record 'p liquidity_index =
  li_targets :: "liquidity_target list"
  by_pool_token :: "('p \<times> address) \<rightharpoonup> nat"
  by_token_holder :: "(address \<times> address) \<rightharpoonup> nat list"
  by_storage_slot :: "(address \<times> u256) \<rightharpoonup> nat list"
  by_pool :: "'p \<rightharpoonup> nat list"
  pool_token_counts :: "'p \<rightharpoonup> nat"
  free_targets :: "nat list"

definition balance_state_of :: "'p liquidity_index \<Rightarrow> 'p \<Rightarrow> address \<Rightarrow> balance_state" where
  "balance_state_of ix pool token =
     (case by_pool_token ix (pool, token) of
        None \<Rightarrow> BalanceUnknown
      | Some i \<Rightarrow> (if i < length (li_targets ix) then tgt_balance (li_targets ix ! i) else BalanceUnknown))"

definition fresh_balance :: "'p liquidity_index \<Rightarrow> 'p \<Rightarrow> address \<Rightarrow> u256 option" where
  "fresh_balance ix pool token = fresh (balance_state_of ix pool token)"

definition is_two_token_pool :: "'p liquidity_index \<Rightarrow> 'p \<Rightarrow> bool" where
  "is_two_token_pool ix pool \<longleftrightarrow> pool_token_counts ix pool = Some 2"

end
