(* ===== verification/HopRanking.thy ===== *)
theory HopRanking
  imports Enumerate Quoting PruneStats Liquidity "HOL-Library.Option_ord"
begin

text \<open>
  How the heuristic search of \<^verbatim>\<open>src/search.rs\<close> orders and prunes what it looks at: connector
  tokens by degree and liquidity, parallel edges by liquidity bucket, protocol and fee, branch
  groups by target, liquidity, connector and degree; and its pruning rules. Every function
  that records pruning counters takes the counters and returns them merged.

  Memoisation of token degrees and connector scores (\<^verbatim>\<open>HeuristicRunCache\<close>) is shown
  transparent; the callers use the plain functions.
\<close>

section \<open>Comparators\<close>

datatype ordering = OrdLess | OrdEqual | OrdGreater

definition cmp :: "'a::linorder \<Rightarrow> 'a \<Rightarrow> ordering" where
  "cmp a b = (if a < b then OrdLess else if a = b then OrdEqual else OrdGreater)"

fun then_with :: "ordering \<Rightarrow> ordering \<Rightarrow> ordering" where
  "then_with OrdEqual o2 = o2"
| "then_with o1 o2 = o1"

text \<open>\<^verbatim>\<open>sort_by\<close>: a stable sort; \<open>insert_by\<close> puts an element before the first one it is not
  greater than.\<close>

fun insert_by :: "('a \<Rightarrow> 'a \<Rightarrow> ordering) \<Rightarrow> 'a \<Rightarrow> 'a list \<Rightarrow> 'a list" where
  "insert_by c x [] = [x]"
| "insert_by c x (y # ys) = (if c x y = OrdGreater then y # insert_by c x ys else x # y # ys)"

definition sort_by :: "('a \<Rightarrow> 'a \<Rightarrow> ordering) \<Rightarrow> 'a list \<Rightarrow> 'a list" where
  "sort_by c xs = foldr (insert_by c) xs []"

lemma mset_insert_by [simp]: "mset (insert_by c x ys) = add_mset x (mset ys)"
  by (induction ys) auto

lemma mset_sort_by [simp]: "mset (sort_by c xs) = mset xs"
  by (induction xs) (auto simp: sort_by_def)

lemma set_sort_by [simp]: "set (sort_by c xs) = set xs"
  by (metis mset_sort_by set_mset_mset)

lemma length_sort_by [simp]: "length (sort_by c xs) = length xs"
  by (metis mset_sort_by size_mset)

section \<open>The searcher\<close>

text \<open>\<^verbatim>\<open>AmmSearcher\<close>: registry, graph and optional liquidity index. The two last fields are the
  \<^verbatim>\<open>Debug\<close> renderings the sort keys are made of.\<close>

record ('g, 'p, 'a, 'c, 's, 'e) amm_searcher =
  se_ops :: "('g, 'p) stable_graph_ops"
  se_graph :: "('g, 'p) amm_graph"
  se_registry :: "('p, 'a, 'c, 's, 'e) adapter_registry"
  se_liquidity :: "'p liquidity_index option"
  se_debug_pool :: "'p \<Rightarrow> string"
  se_debug_address :: "address \<Rightarrow> string"

definition hop_sort_key :: "('g, 'p, 'a, 'c, 's, 'e) amm_searcher \<Rightarrow> 'p hop \<Rightarrow> string" where
  "hop_sort_key S h =
     se_debug_pool S (hop_pool h) @ '':'' @ se_debug_address S (hop_in h) @ '':'' @ se_debug_address S (hop_out h)"

fun join_keys :: "string list \<Rightarrow> string" where
  "join_keys [] = []"
| "join_keys [k] = k"
| "join_keys (k # ks) = k @ ''|'' @ join_keys ks"

definition route_path_sort_key :: "('g, 'p, 'a, 'c, 's, 'e) amm_searcher \<Rightarrow> 'p route_path \<Rightarrow> string" where
  "route_path_sort_key S path = join_keys (map (hop_sort_key S) path)"

fun protocol_bonus :: "protocol_id \<Rightarrow> nat" where
  "protocol_bonus UniswapV3 = 30"
| "protocol_bonus PancakeV3 = 30"
| "protocol_bonus Slipstream = 30"
| "protocol_bonus Curve = 25"
| "protocol_bonus BalancerV2 = 22"
| "protocol_bonus UniswapV2 = 10"
| "protocol_bonus SolidlyV2 = 10"
| "protocol_bonus _ = 0"

definition u64_max :: nat where
  "u64_max = 2 ^ 64 - 1"

definition fee_or_max :: "nat option \<Rightarrow> nat" where
  "fee_or_max fee = (case fee of None \<Rightarrow> u64_max | Some f \<Rightarrow> f)"

fun pool_fee_sort :: "protocol_metadata \<Rightarrow> nat" where
  "pool_fee_sort (MetaUniswapV2 m) = fee_or_max (pair_fee m)"
| "pool_fee_sort (MetaUniswapV3 m) = fee_or_max (pair_fee m)"
| "pool_fee_sort (MetaPancakeV3 m) = fee_or_max (pair_fee m)"
| "pool_fee_sort (MetaSlipstream m) = fee_or_max (pair_fee m)"
| "pool_fee_sort _ = u64_max"

definition fee_sort :: "('g, 'p, 'a, 'c, 's, 'e) amm_searcher \<Rightarrow> 'p \<Rightarrow> nat" where
  "fee_sort S pool =
     (case ar_pool (se_registry S) pool of None \<Rightarrow> u64_max | Some reg \<Rightarrow> pool_fee_sort (reg_metadata reg))"

text \<open>The bit-counting loop of \<^verbatim>\<open>u256_log2\<close>.\<close>

function count_bits :: "u256 \<Rightarrow> nat \<Rightarrow> nat" where
  "count_bits v bits = (if v = 0 then bits else count_bits (drop_bit 1 v) (Suc bits))"
  by pat_completeness auto

termination
proof (relation "measure (\<lambda>(v, bits). unat v)")
  fix v :: u256 and bits :: nat
  assume "v \<noteq> 0"
  then have "0 < unat v" by (simp add: unat_gt_0)
  then show "((drop_bit 1 v, Suc bits), v, bits) \<in> measure (\<lambda>(v, bits). unat v)"
    by (simp only: in_measure prod.case unat_drop_bit_eq) (simp add: drop_bit_eq_div)
qed simp

declare count_bits.simps [simp del]

definition u256_log2 :: "u256 \<Rightarrow> nat" where
  "u256_log2 v = (if v = 0 then 0 else saturating_sub (count_bits v 0) 1)"

lemma count_bits_spec: "v \<noteq> 0 \<Longrightarrow> \<exists>k. count_bits v bits = bits + Suc k \<and> 2 ^ k \<le> unat v \<and> unat v < 2 ^ Suc k"
proof (induction v bits rule: count_bits.induct)
  case (1 v bits)
  have half: "unat (drop_bit 1 v) = unat v div 2" by (simp only: unat_drop_bit_eq) (simp add: drop_bit_eq_div)
  show ?case
  proof (cases "drop_bit 1 v = 0")
    case True
    then have "unat v div 2 = 0" using half by simp
    then have "unat v = 1" using "1.prems" by (metis One_nat_def div_eq_0_iff less_2_cases unat_eq_zero zero_neq_numeral)
    then show ?thesis using True "1.prems"
      by (intro exI [of _ 0]) (simp add: count_bits.simps [of v bits] count_bits.simps [of 0])
  next
    case False
    from "1.IH" [OF "1.prems" this] obtain k where
      k: "count_bits (drop_bit 1 v) (Suc bits) = Suc bits + Suc k" "2 ^ k \<le> unat v div 2" "unat v div 2 < 2 ^ Suc k"
      unfolding half by blast
    then show ?thesis using "1.prems"
      by (intro exI [of _ "Suc k"]) (auto simp: count_bits.simps [of v bits])
  qed
qed

text \<open>The loop computes the position of the highest bit.\<close>

lemma u256_log2_spec: "v \<noteq> 0 \<Longrightarrow> 2 ^ u256_log2 v \<le> unat v \<and> unat v < 2 ^ Suc (u256_log2 v)"
  using count_bits_spec [of v 0] by (auto simp: u256_log2_def saturating_sub_def)

section \<open>Connector tokens\<close>

definition token_degree :: "('g, 'p, 'a, 'c, 's, 'e) amm_searcher \<Rightarrow> nat \<Rightarrow> nat" where
  "token_degree S node =
     length (sg_edges_directed (se_ops S) (graph (se_graph S)) node Incoming) +
     length (sg_edges_directed (se_ops S) (graph (se_graph S)) node Outgoing)"

definition connector_order :: "nat \<times> address \<Rightarrow> nat \<times> address \<Rightarrow> ordering" where
  "connector_order left right = then_with (cmp (fst right) (fst left)) (cmp (snd left) (snd right))"

definition connector_candidate ::
  "('g, 'p, 'a, 'c, 's, 'e) amm_searcher \<Rightarrow> address \<Rightarrow> address \<Rightarrow> heuristic_config \<Rightarrow> nat \<Rightarrow> (nat \<times> address) option" where
  "connector_candidate S token_in token_out h node =
     (case node_token (se_ops S) (se_graph S) node of
        None \<Rightarrow> None
      | Some token \<Rightarrow>
          (if token = token_in \<or> token = token_out then None
           else if min_auto_connector_degree h \<le> token_degree S node then Some (token_degree S node, token)
           else None))"

definition auto_connector_tokens ::
  "('g, 'p, 'a, 'c, 's, 'e) amm_searcher \<Rightarrow> address \<Rightarrow> address \<Rightarrow> heuristic_config \<Rightarrow> address set" where
  "auto_connector_tokens S token_in token_out h =
     (if max_auto_connectors h = 0 then {}
      else set (map snd (take (max_auto_connectors h)
             (sort_by connector_order
               (List.map_filter (connector_candidate S token_in token_out h)
                 (sg_node_indices (se_ops S) (graph (se_graph S))))))))"

definition connector_tokens_for_heuristic ::
  "('g, 'p, 'a, 'c, 's, 'e) amm_searcher \<Rightarrow> address \<Rightarrow> address \<Rightarrow> search_config \<Rightarrow> heuristic_config \<Rightarrow> address set option" where
  "connector_tokens_for_heuristic S token_in token_out config h =
     (case connector_tokens config of
        Some tokens \<Rightarrow> Some tokens
      | None \<Rightarrow> Some (auto_connector_tokens S token_in token_out h))"

record connector_score =
  known_balances :: nat
  score_degree :: nat
  log_sum :: nat

definition default_score :: connector_score where
  "default_score = \<lparr>known_balances = 0, score_degree = 0, log_sum = 0\<rparr>"

text \<open>The loop over the edges of a node, skipping pools already seen.\<close>

fun score_edges :: "'p liquidity_index \<Rightarrow> address \<Rightarrow> 'p list \<Rightarrow> 'p set \<Rightarrow> connector_score \<Rightarrow> connector_score" where
  "score_edges ix token [] seen score = score"
| "score_edges ix token (pool # pools) seen score =
     (if pool \<in> seen then score_edges ix token pools seen score
      else score_edges ix token pools (insert pool seen)
             (case fresh (balance_state_of ix pool token) of
                None \<Rightarrow> score
              | Some balance \<Rightarrow> score\<lparr>known_balances := Suc (known_balances score),
                                     log_sum := log_sum score + u256_log2 balance\<rparr>))"

definition connector_score_from ::
  "('g, 'p, 'a, 'c, 's, 'e) amm_searcher \<Rightarrow> address \<Rightarrow> nat \<Rightarrow> nat \<Rightarrow> connector_score" where
  "connector_score_from S token node degree =
     (let start = default_score\<lparr>score_degree := degree\<rparr>;
          gr = graph (se_graph S);
          edges = sg_edges_directed (se_ops S) gr node Incoming @ sg_edges_directed (se_ops S) gr node Outgoing
      in case se_liquidity S of
           None \<Rightarrow> start
         | Some ix \<Rightarrow>
             score_edges ix token
               (List.map_filter (\<lambda>e. map_option edge_pool (sg_edge_weight (se_ops S) gr e)) edges) {} start)"

definition connector_liquidity_score :: "('g, 'p, 'a, 'c, 's, 'e) amm_searcher \<Rightarrow> address \<Rightarrow> connector_score" where
  "connector_liquidity_score S token =
     (case node_index (se_graph S) token of
        None \<Rightarrow> default_score
      | Some node \<Rightarrow> connector_score_from S token node (token_degree S node))"

text \<open>\<^verbatim>\<open>HeuristicRunCache\<close>: degrees and scores computed earlier in the same run, on the same graph
  and liquidity index.\<close>

record run_cache =
  token_degrees :: "nat \<rightharpoonup> nat"
  connector_scores :: "address \<rightharpoonup> connector_score"

definition empty_run_cache :: run_cache where
  "empty_run_cache = \<lparr>token_degrees = Map.empty, connector_scores = Map.empty\<rparr>"

definition token_degree_cached ::
  "('g, 'p, 'a, 'c, 's, 'e) amm_searcher \<Rightarrow> nat \<Rightarrow> run_cache \<Rightarrow> nat \<times> run_cache" where
  "token_degree_cached S node c =
     (case token_degrees c node of
        Some degree \<Rightarrow> (degree, c)
      | None \<Rightarrow> (let degree = token_degree S node
                 in (degree, c\<lparr>token_degrees := (token_degrees c)(node \<mapsto> degree)\<rparr>)))"

definition connector_liquidity_score_cached ::
  "('g, 'p, 'a, 'c, 's, 'e) amm_searcher \<Rightarrow> address \<Rightarrow> run_cache \<Rightarrow> connector_score \<times> run_cache" where
  "connector_liquidity_score_cached S token c =
     (case connector_scores c token of
        Some score \<Rightarrow> (score, c)
      | None \<Rightarrow>
          (let (score, c1) =
             (case node_index (se_graph S) token of
                None \<Rightarrow> (default_score, c)
              | Some node \<Rightarrow>
                  (let (degree, c1) = token_degree_cached S node c in (connector_score_from S token node degree, c1)))
           in (score, c1\<lparr>connector_scores := (connector_scores c1)(token \<mapsto> score)\<rparr>)))"

definition run_cache_ok :: "('g, 'p, 'a, 'c, 's, 'e) amm_searcher \<Rightarrow> run_cache \<Rightarrow> bool" where
  "run_cache_ok S c \<longleftrightarrow>
     (\<forall>node degree. token_degrees c node = Some degree \<longrightarrow> degree = token_degree S node) \<and>
     (\<forall>token score. connector_scores c token = Some score \<longrightarrow> score = connector_liquidity_score S token)"

lemma token_degree_cached_ok:
  "run_cache_ok S c \<Longrightarrow> \<exists>c'. token_degree_cached S node c = (token_degree S node, c') \<and> run_cache_ok S c'"
  by (auto simp: token_degree_cached_def run_cache_ok_def Let_def split: option.split)

text \<open>Memoisation is transparent: a run that starts with the empty cache sees the plain degrees and
  scores, so the callers below use the plain functions.\<close>

lemma connector_score_cached_ok:
  assumes "run_cache_ok S c"
  shows "\<exists>c'. connector_liquidity_score_cached S token c = (connector_liquidity_score S token, c') \<and> run_cache_ok S c'"
proof (cases "connector_scores c token")
  case None
  show ?thesis
  proof (cases "node_index (se_graph S) token")
    case node: (Some node)
    obtain c1 where c1: "token_degree_cached S node c = (token_degree S node, c1)" "run_cache_ok S c1"
      using token_degree_cached_ok [OF assms] by blast
    then show ?thesis using None node
      by (auto simp: connector_liquidity_score_cached_def connector_liquidity_score_def run_cache_ok_def)
  qed (use None assms in \<open>auto simp: connector_liquidity_score_cached_def connector_liquidity_score_def run_cache_ok_def\<close>)
qed (use assms in \<open>auto simp: connector_liquidity_score_cached_def run_cache_ok_def\<close>)

lemma run_cache_ok_empty: "run_cache_ok S empty_run_cache"
  by (simp add: run_cache_ok_def empty_run_cache_def)

definition score_order ::
  "('g, 'p, 'a, 'c, 's, 'e) amm_searcher \<Rightarrow> address \<Rightarrow> address \<Rightarrow> ordering" where
  "score_order S left right =
     (let l = connector_liquidity_score S left; r = connector_liquidity_score S right
      in then_with (cmp (known_balances r) (known_balances l))
          (then_with (cmp (score_degree r) (score_degree l))
            (then_with (cmp (log_sum r) (log_sum l)) (cmp left right))))"

text \<open>The candidates come out of a hash set in no particular order; the sort key ends with the
  token, so the result does not depend on it. The model lists them in ascending order.\<close>

definition ranked_central_connectors ::
  "('g, 'p, 'a, 'c, 's, 'e) amm_searcher \<Rightarrow> address \<Rightarrow> address \<Rightarrow> address set option \<Rightarrow> address list" where
  "ranked_central_connectors S token_in token_out allowed =
     (let candidates = (case allowed of
            Some tokens \<Rightarrow> sorted_list_of_set tokens
          | None \<Rightarrow> sorted_list_of_set (auto_connector_tokens S token_in token_out heuristic_balanced))
      in remdups_adj (sort_by (score_order S)
           (filter (\<lambda>token. token \<noteq> token_in \<and> token \<noteq> token_out) candidates)))"

section \<open>Parallel edges\<close>

record 'p liquidity_ranked_hop =
  rh_hop :: "'p hop"
  rh_input :: balance_state
  rh_output :: balance_state
  rh_active :: bool
  rh_known :: bool
  rh_score :: nat
  rh_bonus :: nat
  rh_fee :: nat

definition u16_max :: nat where
  "u16_max = 65535"

definition is_fresh :: "balance_state \<Rightarrow> bool" where
  "is_fresh b \<longleftrightarrow> fresh b \<noteq> None"

definition balance_of ::
  "('g, 'p, 'a, 'c, 's, 'e) amm_searcher \<Rightarrow> bool \<Rightarrow> 'p \<Rightarrow> address \<Rightarrow> balance_state" where
  "balance_of S active pool token =
     (case se_liquidity S of
        Some ix \<Rightarrow> (if active then balance_state_of ix pool token else BalanceUnknown)
      | None \<Rightarrow> BalanceUnknown)"

definition rank_hop ::
  "('g, 'p, 'a, 'c, 's, 'e) amm_searcher \<Rightarrow> bool \<Rightarrow> bool \<Rightarrow> 'p hop \<Rightarrow> 'p liquidity_ranked_hop" where
  "rank_hop S active protocol_ordering h =
     (let input = balance_of S active (hop_pool h) (hop_in h);
          output = balance_of S active (hop_pool h) (hop_out h);
          bonus = protocol_bonus (ar_protocol (se_registry S) (hop_pool h));
          bucket = (case (fresh input, fresh output) of
                      (Some i, Some o') \<Rightarrow> u256_log2 (min i o')
                    | _ \<Rightarrow> 0)
      in \<lparr>rh_hop = h, rh_input = input, rh_output = output, rh_active = active,
          rh_known = (is_fresh input \<and> is_fresh output),
          rh_score = min (min (bucket * 100) u16_max + (if protocol_ordering then bonus else 0)) u16_max,
          rh_bonus = bonus, rh_fee = fee_sort S (hop_pool h)\<rparr>)"

definition rank_tail ::
  "('g, 'p, 'a, 'c, 's, 'e) amm_searcher \<Rightarrow> 'p liquidity_ranked_hop \<Rightarrow> 'p liquidity_ranked_hop \<Rightarrow> ordering" where
  "rank_tail S left right =
     then_with (cmp (rh_bonus right) (rh_bonus left))
       (then_with (cmp (rh_fee left) (rh_fee right))
         (cmp (hop_sort_key S (rh_hop left)) (hop_sort_key S (rh_hop right))))"

definition rank_order ::
  "('g, 'p, 'a, 'c, 's, 'e) amm_searcher \<Rightarrow> 'p liquidity_ranked_hop \<Rightarrow> 'p liquidity_ranked_hop \<Rightarrow> ordering" where
  "rank_order S left right =
     (if rh_known left \<and> \<not> rh_known right then OrdLess
      else if \<not> rh_known left \<and> rh_known right then OrdGreater
      else if rh_known left
      then then_with (cmp (rh_score right) (rh_score left))
            (then_with (cmp (fresh (rh_output right)) (fresh (rh_output left)))
              (then_with (cmp (fresh (rh_input right)) (fresh (rh_input left)))
                (then_with (cmp (rh_fee left) (rh_fee right))
                  (then_with (cmp (hop_sort_key S (rh_hop left)) (hop_sort_key S (rh_hop right)))
                    (rank_tail S left right)))))
      else rank_tail S left right)"

definition liquidity_ranked_hops ::
  "('g, 'p, 'a, 'c, 's, 'e) amm_searcher \<Rightarrow> 'p hop list \<Rightarrow> edge_shortlist_config \<Rightarrow> liquidity_pruning_config \<Rightarrow>
     liquidity_prune_stats \<Rightarrow> 'p liquidity_ranked_hop list \<times> liquidity_prune_stats" where
  "liquidity_ranked_hops S hops sl lp stats =
     (let active = (lp_enabled lp \<and> se_liquidity S \<noteq> None \<and> 2 \<le> length hops);
          ordering = (sl_protocol_ordering sl \<and> 2 \<le> length hops);
          ranked = map (rank_hop S active ordering) hops;
          delta = no_prune_stats\<lparr>
            ordered_groups := (if active \<and> lp_order_by_output lp then 1 else 0),
            balance_reads := (if active then length hops * 2 else 0),
            protocol_ranked_edges := (if ordering then length hops else 0),
            stale_or_unknown_skipped :=
              length (filter (\<lambda>r. active \<and> (\<not> is_fresh (rh_input r) \<or> \<not> is_fresh (rh_output r))) ranked)\<rparr>
      in (if ordering \<or> (active \<and> lp_order_by_output lp) then sort_by (rank_order S) ranked else ranked,
          merge_stats stats delta))"

lemma map_rank_hop [simp]: "map rh_hop (map (rank_hop S active po) hops) = hops"
  by (induction hops) (simp_all add: rank_hop_def Let_def)

lemma liquidity_ranked_hops_mset:
  assumes "liquidity_ranked_hops S hops sl lp stats = (ranked, stats')"
  shows "mset (map rh_hop ranked) = mset hops"
proof -
  define active where "active \<longleftrightarrow> lp_enabled lp \<and> se_liquidity S \<noteq> None \<and> 2 \<le> length hops"
  define po where "po \<longleftrightarrow> sl_protocol_ordering sl \<and> 2 \<le> length hops"
  have "fst (liquidity_ranked_hops S hops sl lp stats) =
      (if po \<or> (active \<and> lp_order_by_output lp) then sort_by (rank_order S) (map (rank_hop S active po) hops)
       else map (rank_hop S active po) hops)"
    unfolding liquidity_ranked_hops_def Let_def active_def [symmetric] po_def [symmetric] by simp
  then have "mset ranked = mset (map (rank_hop S active po) hops)" using assms by (simp split: if_splits)
  then have "image_mset rh_hop (mset ranked) = mset (map rh_hop (map (rank_hop S active po) hops))"
    by (simp only: mset_map)
  then show ?thesis by (simp only: map_rank_hop mset_map)
qed

definition ranked_hops_between ::
  "('g, 'p, 'a, 'c, 's, 'e) amm_searcher \<Rightarrow> address \<Rightarrow> address \<Rightarrow> edge_shortlist_config \<Rightarrow>
     liquidity_pruning_config \<Rightarrow> liquidity_prune_stats \<Rightarrow> 'p liquidity_ranked_hop list \<times> liquidity_prune_stats" where
  "ranked_hops_between S token_in token_out sl lp stats =
     (case node_index (se_graph S) token_in of
        None \<Rightarrow> ([], stats)
      | Some node \<Rightarrow>
          liquidity_ranked_hops S
            (map edge_hop (filter (\<lambda>e. edge_token_out e = token_out) (outgoing_edges (se_graph S) node)))
            sl lp stats)"

end
