(* ===== verification/HeuristicRules.thy ===== *)
theory HeuristicRules
  imports HopRanking
begin

text \<open>
  The rules of the heuristic search of \<^verbatim>\<open>src/search.rs\<close>: which edges a prefix may take, how
  they are grouped and ordered, which are shortlisted, and the pruning rules (static
  reachability, upper bound on the reachable output, dominance of prefixes, beam width).
\<close>

section \<open>States and context\<close>

record 'p heuristic_state =
  hs_node :: nat
  hs_path :: "'p route_path"
  hs_quotes :: "'p hop_quote list"
  hs_amount :: u256
  hs_visited :: "address set"
  hs_used :: "'p set"

text \<open>The endpoints of a search and the tokens it may pass through.\<close>

record search_ends =
  se_source :: nat
  se_target :: nat
  se_in :: address
  se_out :: address
  se_connectors :: "address set option"
  se_revisit :: bool

text \<open>The filter on edges shared by grouping, blocked pools and reachability.\<close>

definition closes_source_cycle :: "search_ends \<Rightarrow> nat \<Rightarrow> bool" where
  "closes_source_cycle E node \<longleftrightarrow> se_revisit E \<and> se_source E = se_target E \<and> node = se_source E"

definition edge_open :: "search_ends \<Rightarrow> address set \<Rightarrow> 'p cached_outgoing_edge \<Rightarrow> bool" where
  "edge_open E visited e \<longleftrightarrow>
     (edge_token_out e \<notin> visited \<or> closes_source_cycle E (edge_target e)) \<and>
     (edge_target e = se_target E \<or>
      connector_allowed_with_tokens (edge_token_out e) (se_in E) (se_out E) (se_connectors E))"

section \<open>Reachability\<close>

function static_route_dfs ::
  "(nat \<Rightarrow> 'p cached_outgoing_edge list) \<Rightarrow> search_ends \<Rightarrow> nat \<Rightarrow> 'p cached_outgoing_edge list \<Rightarrow>
     address set \<Rightarrow> 'p set \<Rightarrow> bool" where
  "static_route_dfs out E n [] visited used = False"
| "static_route_dfs out E n (e # es) visited used =
     (if cached_pool e \<in> used \<or> \<not> edge_open E visited e then static_route_dfs out E n es visited used
      else if edge_target e = se_target E then True
      else if n \<le> 1 then static_route_dfs out E n es visited used
      else if static_route_dfs out E (n - 1) (out (edge_target e))
                (insert (edge_token_out e) visited) (insert (cached_pool e) used)
      then True
      else static_route_dfs out E n es visited used)"
  by pat_completeness auto

termination
  by (relation "measures [\<lambda>(out, E, n, es, v, u). n, \<lambda>(out, E, n, es, v, u). length es]") auto

definition has_static_route_to_target ::
  "('g, 'p, 'a, 'c, 's, 'e) amm_searcher \<Rightarrow> search_ends \<Rightarrow> nat \<Rightarrow> address set \<Rightarrow> 'p set \<Rightarrow> nat \<Rightarrow> bool" where
  "has_static_route_to_target S E start visited used n \<longleftrightarrow>
     start = se_target E \<or>
     (n \<noteq> 0 \<and> static_route_dfs (outgoing_edges (se_graph S)) E n (outgoing_edges (se_graph S) start) visited used)"

definition future_blocked_pools ::
  "('g, 'p, 'a, 'c, 's, 'e) amm_searcher \<Rightarrow> search_ends \<Rightarrow> nat \<Rightarrow> address set \<Rightarrow> 'p set \<Rightarrow> 'p set" where
  "future_blocked_pools S E node visited used =
     set (map cached_pool (filter (\<lambda>e. cached_pool e \<in> used \<and> edge_open E visited e) (outgoing_edges (se_graph S) node)))"

section \<open>Groups of parallel edges\<close>

definition heuristic_edge_usable ::
  "('g, 'p, 'a, 'c, 's, 'e) amm_searcher \<Rightarrow> search_ends \<Rightarrow> nat \<Rightarrow> 'p heuristic_state \<Rightarrow>
     'p cached_outgoing_edge \<Rightarrow> bool" where
  "heuristic_edge_usable S E n st e \<longleftrightarrow>
     cached_pool e \<notin> hs_used st \<and> edge_open E (hs_visited st) e \<and>
     (edge_target e = se_target E \<or>
      (let remaining = saturating_sub n (length (hs_path st) + 1)
       in remaining \<noteq> 0 \<and>
          has_static_route_to_target S E (edge_target e) (insert (edge_token_out e) (hs_visited st))
            (insert (cached_pool e) (hs_used st)) remaining))"

text \<open>\<^verbatim>\<open>grouped.entry(next_token).or_default().push(hop)\<close>, as an association list.\<close>

fun group_push :: "'p hop \<Rightarrow> (address \<times> 'p hop list) list \<Rightarrow> (address \<times> 'p hop list) list" where
  "group_push h [] = [(hop_out h, [h])]"
| "group_push h ((t, hs) # gs) = (if t = hop_out h then (t, hs @ [h]) # gs else (t, hs) # group_push h gs)"

definition grouped_hops ::
  "('g, 'p, 'a, 'c, 's, 'e) amm_searcher \<Rightarrow> search_ends \<Rightarrow> nat \<Rightarrow> 'p heuristic_state \<Rightarrow> (address \<times> 'p hop list) list" where
  "grouped_hops S E n st =
     fold group_push (map edge_hop (filter (heuristic_edge_usable S E n st) (outgoing_edges (se_graph S) (hs_node st)))) []"

record 'p hop_group =
  hg_token :: address
  hg_hops :: "'p hop list"
  hg_closes :: bool

record branch_score =
  max_input_balance :: "u256 option"
  sum_input_balance :: "u256 option"

definition default_branch_score :: branch_score where
  "default_branch_score = \<lparr>max_input_balance = None, sum_input_balance = None\<rparr>"

definition score_known :: "branch_score \<Rightarrow> bool" where
  "score_known s \<longleftrightarrow> max_input_balance s \<noteq> None"

fun add_balances :: "'p liquidity_index \<Rightarrow> 'p hop list \<Rightarrow> branch_score \<Rightarrow> branch_score" where
  "add_balances ix [] score = score"
| "add_balances ix (h # hs) score =
     add_balances ix hs
       (case fresh (balance_state_of ix (hop_pool h) (hop_in h)) of
          None \<Rightarrow> score
        | Some b \<Rightarrow>
            \<lparr>max_input_balance = Some (case max_input_balance score of None \<Rightarrow> b | Some m \<Rightarrow> max m b),
             sum_input_balance = Some ((case sum_input_balance score of None \<Rightarrow> 0 | Some s \<Rightarrow> s) + b)\<rparr>)"

definition branch_liquidity_score ::
  "('g, 'p, 'a, 'c, 's, 'e) amm_searcher \<Rightarrow> 'p hop list \<Rightarrow> bool \<Rightarrow> liquidity_pruning_config \<Rightarrow>
     liquidity_prune_stats \<Rightarrow> branch_score \<times> liquidity_prune_stats" where
  "branch_liquidity_score S hops closes lp stats =
     (if closes \<or> \<not> lp_enabled lp \<or> \<not> lp_rank_branches lp then (default_branch_score, stats)
      else case se_liquidity S of
             None \<Rightarrow> (default_branch_score, stats)
           | Some ix \<Rightarrow>
               (let score = add_balances ix hops default_branch_score;
                    unknown = length (filter (\<lambda>h. fresh (balance_state_of ix (hop_pool h) (hop_in h)) = None) hops);
                    counted = stats\<lparr>balance_reads := balance_reads stats + length hops,
                                    stale_or_unknown_skipped := stale_or_unknown_skipped stats + unknown\<rparr>
                in (score,
                    if score_known score
                    then counted\<lparr>liquidity_ranked_branch_groups := Suc (liquidity_ranked_branch_groups counted)\<rparr>
                    else counted\<lparr>liquidity_unknown_branch_groups := Suc (liquidity_unknown_branch_groups counted)\<rparr>)))"

record 'p scored_group =
  sg_group :: "'p hop_group"
  sg_liquidity :: branch_score
  sg_connector :: nat
  sg_degree :: nat

text \<open>The comparator of \<^verbatim>\<open>sorted_heuristic_hop_groups\<close>.\<close>

definition group_tail :: "'p scored_group \<Rightarrow> 'p scored_group \<Rightarrow> ordering" where
  "group_tail left right =
     then_with (cmp (sg_connector right) (sg_connector left))
       (then_with (cmp (sg_degree right) (sg_degree left))
         (cmp (hg_token (sg_group left)) (hg_token (sg_group right))))"

definition group_order ::
  "heuristic_config \<Rightarrow> liquidity_pruning_config \<Rightarrow> 'p scored_group \<Rightarrow> 'p scored_group \<Rightarrow> ordering" where
  "group_order h lp left right =
     (let lc = hg_closes (sg_group left); rc = hg_closes (sg_group right);
          ll = sg_liquidity left; rl = sg_liquidity right
      in if target_first h \<and> lc \<noteq> rc then cmp rc lc
         else if lp_enabled lp \<and> lp_rank_branches lp \<and> \<not> lc \<and> \<not> rc
         then (case (score_known ll, score_known rl) of
                 (True, True) \<Rightarrow>
                   then_with (then_with (cmp (max_input_balance rl) (max_input_balance ll))
                                        (cmp (sum_input_balance rl) (sum_input_balance ll)))
                     (group_tail left right)
               | (True, False) \<Rightarrow> OrdLess
               | (False, True) \<Rightarrow> OrdGreater
               | (False, False) \<Rightarrow> group_tail left right)
         else group_tail left right)"

fun score_groups ::
  "('g, 'p, 'a, 'c, 's, 'e) amm_searcher \<Rightarrow> search_ends \<Rightarrow> heuristic_config \<Rightarrow> liquidity_pruning_config \<Rightarrow>
     (address \<times> 'p hop list) list \<Rightarrow> liquidity_prune_stats \<Rightarrow> 'p scored_group list \<times> liquidity_prune_stats" where
  "score_groups S E h lp [] stats = ([], stats)"
| "score_groups S E h lp ((token, hops) # gs) stats =
     (let closes = (node_index (se_graph S) token = Some (se_target E));
          stats1 = (if closes \<and> target_first h
                    then stats\<lparr>target_first_groups := Suc (target_first_groups stats)\<rparr> else stats);
          (liquidity, stats2) = branch_liquidity_score S hops closes lp stats1;
          connector = (case se_connectors E of None \<Rightarrow> 0 | Some ts \<Rightarrow> (if token \<in> ts then 1 else 0));
          degree = (case node_index (se_graph S) token of None \<Rightarrow> 0 | Some node \<Rightarrow> token_degree S node);
          (rest, stats3) = score_groups S E h lp gs stats2
      in (\<lparr>sg_group = \<lparr>hg_token = token, hg_hops = hops, hg_closes = closes\<rparr>, sg_liquidity = liquidity,
           sg_connector = connector, sg_degree = degree\<rparr> # rest, stats3))"

definition sorted_heuristic_hop_groups ::
  "('g, 'p, 'a, 'c, 's, 'e) amm_searcher \<Rightarrow> search_ends \<Rightarrow> heuristic_config \<Rightarrow> liquidity_pruning_config \<Rightarrow>
     (address \<times> 'p hop list) list \<Rightarrow> liquidity_prune_stats \<Rightarrow> 'p hop_group list \<times> liquidity_prune_stats" where
  "sorted_heuristic_hop_groups S E h lp grouped stats =
     (let (scored, delta) = score_groups S E h lp grouped no_prune_stats
      in (map sg_group (sort_by (group_order h lp) scored), merge_stats stats delta))"

definition group_heuristic_hops ::
  "('g, 'p, 'a, 'c, 's, 'e) amm_searcher \<Rightarrow> search_ends \<Rightarrow> search_config \<Rightarrow> heuristic_config \<Rightarrow>
     'p heuristic_state \<Rightarrow> liquidity_prune_stats \<Rightarrow> 'p hop_group list \<times> liquidity_prune_stats" where
  "group_heuristic_hops S E config h st stats =
     sorted_heuristic_hop_groups S E h (liquidity_pruning config)
       (grouped_hops S E (max_hops config) st) stats"

section \<open>Shortlists and balance pruning\<close>

datatype heuristic_pass_mode = InitialPass | RefinementPass

definition edge_limit :: "heuristic_pass_mode \<Rightarrow> heuristic_config \<Rightarrow> nat" where
  "edge_limit mode h =
     (if \<not> sl_enabled (edge_shortlist h) then usize_max
      else case mode of
             InitialPass \<Rightarrow> sl_initial_edges (edge_shortlist h)
           | RefinementPass \<Rightarrow> sl_refinement_edges (edge_shortlist h))"

definition heuristic_pass_modes :: "heuristic_config \<Rightarrow> heuristic_pass_mode list" where
  "heuristic_pass_modes h =
     (if sl_enabled (edge_shortlist h) \<and> sl_refine (edge_shortlist h) \<and>
         sl_initial_edges (edge_shortlist h) < sl_refinement_edges (edge_shortlist h)
      then [InitialPass, RefinementPass] else [InitialPass])"

definition shortlisted_ranked_hops ::
  "'p liquidity_ranked_hop list \<Rightarrow> heuristic_config \<Rightarrow> heuristic_pass_mode \<Rightarrow> liquidity_prune_stats \<Rightarrow>
     'p liquidity_ranked_hop list \<times> liquidity_prune_stats" where
  "shortlisted_ranked_hops ranked h mode stats =
     (if \<not> sl_enabled (edge_shortlist h) \<or> length ranked \<le> 1 then (ranked, stats)
      else
        (let limit = edge_limit mode h;
             considered = min (length ranked) limit;
             deferred = saturating_sub (length ranked) limit
         in (take limit ranked,
             merge_stats stats
               (case mode of
                  InitialPass \<Rightarrow> no_prune_stats\<lparr>shortlist_initial_edges := considered, shortlist_deferred_edges := deferred\<rparr>
                | RefinementPass \<Rightarrow> no_prune_stats\<lparr>shortlist_refinement_edges := considered\<rparr>))))"

definition should_prune_liquidity_hop ::
  "('g, 'p, 'a, 'c, 's, 'e) amm_searcher \<Rightarrow> 'p liquidity_ranked_hop \<Rightarrow> u256 option \<Rightarrow> liquidity_pruning_config \<Rightarrow>
     bool \<Rightarrow> liquidity_prune_stats \<Rightarrow> bool \<times> liquidity_prune_stats" where
  "should_prune_liquidity_hop S r best lp closes stats =
     (if \<not> rh_active r \<or> \<not> lp_enabled lp \<or> \<not> lp_prune_dominated lp then (False, stats)
      else case (best, fresh (rh_output r)) of
             (Some b, Some balance) \<Rightarrow>
               (let hard = (closes \<or> (case se_liquidity S of None \<Rightarrow> False
                                       | Some ix \<Rightarrow> is_two_token_pool ix (hop_pool (rh_hop r))))
                in if \<not> hard \<or> b < balance then (False, stats)
                   else (True, merge_stats stats (no_prune_stats\<lparr>pruned_edges := 1\<rparr>)))
           | _ \<Rightarrow> (False, stats))"

section \<open>Upper bounds\<close>

datatype upper_bound_cap = CapKnown u256 | CapUnknown

text \<open>The edges of one queued node: \<open>None\<close> as soon as a closing edge has no fresh balance,
  otherwise the updated cap and the nodes to queue.\<close>

fun cap_edges ::
  "'p liquidity_index \<Rightarrow> nat \<Rightarrow> address \<Rightarrow> nat \<Rightarrow> nat \<Rightarrow> 'p cached_outgoing_edge list \<Rightarrow> u256 option \<Rightarrow>
     (nat \<times> nat) list \<Rightarrow> (u256 option \<times> (nat \<times> nat) list) option" where
  "cap_edges ix target token n depth [] cap queue = Some (cap, queue)"
| "cap_edges ix target token n depth (e # es) cap queue =
     (if Suc depth > n then cap_edges ix target token n depth es cap queue
      else if edge_target e = target then
        (case fresh (balance_state_of ix (cached_pool e) token) of
           Some b \<Rightarrow> cap_edges ix target token n depth es (Some (case cap of None \<Rightarrow> b | Some c \<Rightarrow> max c b)) queue
         | None \<Rightarrow> None)
      else if Suc depth < n then cap_edges ix target token n depth es cap (queue @ [(edge_target e, Suc depth)])
      else cap_edges ix target token n depth es cap queue)"

lemma cap_edges_queue:
  "cap_edges ix target token n depth es cap queue = Some (cap', queue') \<Longrightarrow>
     \<exists>new. queue' = queue @ new \<and> (\<forall>x \<in> set new. snd x = Suc depth)"
proof (induction es arbitrary: cap queue)
  case (Cons e es)
  then show ?case by (fastforce split: if_splits option.splits)
qed simp

definition depth_measure :: "nat \<Rightarrow> (nat \<times> nat) list \<Rightarrow> nat multiset" where
  "depth_measure n queue = mset (map (\<lambda>x. n - snd x) queue)"

lemma depth_measure_step:
  assumes "depth < n" and "\<forall>x \<in> set new. snd x = Suc depth"
  shows "(depth_measure n (queue @ new), depth_measure n ((node, depth) # queue)) \<in> mult less_than"
proof -
  have "(mset (map (\<lambda>x. n - snd x) queue) + mset (map (\<lambda>x. n - snd x) new),
      mset (map (\<lambda>x. n - snd x) queue) + {#n - depth#}) \<in> mult less_than"
    using assms by (intro one_step_implies_mult) auto
  then show ?thesis by (simp add: depth_measure_def)
qed

lemma depth_measure_pop: "(depth_measure n queue, depth_measure n (x # queue)) \<in> mult less_than"
proof -
  have "(mset (map (\<lambda>x. n - snd x) queue) + {#}, mset (map (\<lambda>x. n - snd x) queue) + {#n - snd x#}) \<in> mult less_than"
    by (intro one_step_implies_mult) auto
  then show ?thesis by (simp add: depth_measure_def)
qed

function cap_loop ::
  "(nat \<Rightarrow> 'p cached_outgoing_edge list) \<Rightarrow> 'p liquidity_index \<Rightarrow> nat \<Rightarrow> address \<Rightarrow> nat \<Rightarrow> (nat \<times> nat) list \<Rightarrow>
     (nat \<times> nat) set \<Rightarrow> u256 option \<Rightarrow> upper_bound_cap" where
  "cap_loop out ix target token n [] seen cap = (case cap of None \<Rightarrow> CapUnknown | Some c \<Rightarrow> CapKnown c)"
| "cap_loop out ix target token n ((node, depth) # queue) seen cap =
     (if n \<le> depth \<or> (node, depth) \<in> seen then cap_loop out ix target token n queue seen cap
      else case cap_edges ix target token n depth (out node) cap queue of
             None \<Rightarrow> CapUnknown
           | Some (cap', queue') \<Rightarrow> cap_loop out ix target token n queue' (insert (node, depth) seen) cap')"
  by pat_completeness auto

termination
proof (relation "inv_image (mult less_than) (\<lambda>(out, ix, target, token, n, queue, seen, cap). depth_measure n queue)", goal_cases)
  case 1
  show ?case by (intro wf_inv_image wf_mult) simp
next
  case 2
  show ?case by (simp add: depth_measure_pop)
next
  case (3 out ix target token n node depth queue seen cap x2 cap' queue')
  then have "depth < n" and c: "cap_edges ix target token n depth (out node) cap queue = Some (cap', queue')" by auto
  from cap_edges_queue [OF c] obtain new where "queue' = queue @ new" "\<forall>x \<in> set new. snd x = Suc depth" by blast
  then show ?case using depth_measure_step [OF \<open>depth < n\<close>, of new queue node] by simp
qed

definition target_balance_cap ::
  "('g, 'p, 'a, 'c, 's, 'e) amm_searcher \<Rightarrow> nat \<Rightarrow> nat \<Rightarrow> address \<Rightarrow> nat \<Rightarrow> upper_bound_cap" where
  "target_balance_cap S start target token n =
     (case se_liquidity S of
        None \<Rightarrow> CapUnknown
      | Some ix \<Rightarrow>
          (if n = 0 then CapUnknown
           else cap_loop (outgoing_edges (se_graph S)) ix target token n [(start, 0)] {} None))"

definition should_prune_upper_bound_prefix ::
  "('g, 'p, 'a, 'c, 's, 'e) amm_searcher \<Rightarrow> search_ends \<Rightarrow> nat \<Rightarrow> upper_bound_config \<Rightarrow> u256 option \<Rightarrow>
     'p heuristic_state \<Rightarrow> liquidity_prune_stats \<Rightarrow> bool \<times> liquidity_prune_stats" where
  "should_prune_upper_bound_prefix S E n ub incumbent st stats =
     (if se_revisit E \<or> \<not> ub_enabled ub \<or> \<not> ub_balance_cap ub \<or> incumbent = None \<or>
         hs_node st = se_target E \<or> n \<le> length (hs_path st)
      then (False, stats)
      else case incumbent of
             None \<Rightarrow> (False, stats)
           | Some best \<Rightarrow>
               (case target_balance_cap S (hs_node st) (se_target E) (se_out E) (saturating_sub n (length (hs_path st))) of
                  CapKnown cap \<Rightarrow>
                    (if cap \<le> best
                     then (True, merge_stats stats (no_prune_stats\<lparr>upper_bound_pruned_prefixes := 1\<rparr>))
                     else (False, stats))
                | CapUnknown \<Rightarrow>
                    (if ub_fail_open ub
                     then (False, merge_stats stats (no_prune_stats\<lparr>upper_bound_unknown_prefixes := 1\<rparr>))
                     else (False, stats))))"

section \<open>Prefix dominance\<close>

record 'p prefix_label =
  pl_amount :: u256
  pl_visited :: "address set"
  pl_used :: "'p set"

type_synonym 'p dominance_index = "address \<rightharpoonup> 'p prefix_label list"

definition labels_at :: "'p dominance_index \<Rightarrow> address \<Rightarrow> 'p prefix_label list" where
  "labels_at D token = (case D token of None \<Rightarrow> [] | Some ls \<Rightarrow> ls)"

text \<open>A label is at least as good as a prefix: no less output, no stricter constraints.\<close>

definition covers :: "'p prefix_label \<Rightarrow> 'p prefix_label \<Rightarrow> bool" where
  "covers l m \<longleftrightarrow> pl_amount m \<le> pl_amount l \<and> pl_visited l \<subseteq> pl_visited m \<and> pl_used l \<subseteq> pl_used m"

definition insert_or_dominated ::
  "address \<Rightarrow> 'p prefix_label \<Rightarrow> 'p dominance_index \<Rightarrow> bool \<times> 'p dominance_index" where
  "insert_or_dominated token m D =
     (let labels = labels_at D token
      in if \<exists>l \<in> set labels. covers l m then (True, D(token \<mapsto> labels))
         else (False, D(token \<mapsto> filter (\<lambda>l. \<not> covers m l) labels @ [m])))"

definition is_strictly_dominated :: "address \<Rightarrow> 'p prefix_label \<Rightarrow> 'p dominance_index \<Rightarrow> bool" where
  "is_strictly_dominated token m D \<longleftrightarrow>
     (\<exists>l \<in> set (labels_at D token). covers l m \<and>
        (pl_amount m < pl_amount l \<or> card (pl_visited l) < card (pl_visited m) \<or>
         card (pl_used l) < card (pl_used m)))"

section \<open>Beam width\<close>

definition frontier_order ::
  "('g, 'p, 'a, 'c, 's, 'e) amm_searcher \<Rightarrow> 'p heuristic_state \<Rightarrow> 'p heuristic_state \<Rightarrow> ordering" where
  "frontier_order S left right =
     then_with (cmp (hs_amount right) (hs_amount left))
       (cmp (route_path_sort_key S (hs_path left)) (route_path_sort_key S (hs_path right)))"

definition apply_beam_width ::
  "('g, 'p, 'a, 'c, 's, 'e) amm_searcher \<Rightarrow> nat option \<Rightarrow> bool \<Rightarrow> 'p heuristic_state list \<Rightarrow> 'p heuristic_state list" where
  "apply_beam_width S width sort_without_truncation frontier =
     (let too_wide = (case width of None \<Rightarrow> False | Some w \<Rightarrow> w < length frontier);
          ordered = (if sort_without_truncation \<or> too_wide then sort_by (frontier_order S) frontier else frontier)
      in case width of
           None \<Rightarrow> ordered
         | Some w \<Rightarrow> (if w < length ordered then take w ordered else ordered))"

lemma set_apply_beam_width: "set (apply_beam_width S width b frontier) \<subseteq> set frontier"
  by (auto simp: apply_beam_width_def Let_def split: option.splits if_splits dest: in_set_takeD)

end
