(* ===== verification/QuoteDag.thy ===== *)
theory QuoteDag
  imports Quoting
begin

text \<open>
  Shared evaluation of many candidate paths, \<^verbatim>\<open>quote_paths_with_registry_observed\<close>: the paths
  are inserted in a prefix tree whose evaluation quotes each common prefix once, reporting
  quotes and failures to two optional observers that can stop the evaluation. \<open>'w\<close> is the
  state the hop quoter threads (adapter cache and quote cache), \<open>'o\<close> the state of the
  observers.
\<close>

section \<open>The tree\<close>

datatype 'p dag_node = DagNode (dag_children: "'p dag_child list") (dag_terminals: "'p route_path list")
     and 'p dag_child = DagChild (child_hop: "'p hop") (child_node: "'p dag_node")

definition empty_node :: "'p dag_node" where
  "empty_node = DagNode [] []"

text \<open>\<^verbatim>\<open>child_for_hop\<close>: the first child with this hop, or a new one at the end, updated.\<close>

fun at_child :: "'p hop \<Rightarrow> ('p dag_node \<Rightarrow> 'p dag_node) \<Rightarrow> 'p dag_child list \<Rightarrow> 'p dag_child list" where
  "at_child h f [] = [DagChild h (f empty_node)]"
| "at_child h f (DagChild h' n # cs) =
     (if h' = h then DagChild h' (f n) # cs else DagChild h' n # at_child h f cs)"

fun dag_insert_at :: "'p route_path \<Rightarrow> 'p hop list \<Rightarrow> 'p dag_node \<Rightarrow> 'p dag_node" where
  "dag_insert_at path [] (DagNode cs ts) = DagNode cs (ts @ [path])"
| "dag_insert_at path (h # hs) (DagNode cs ts) = DagNode (at_child h (dag_insert_at path hs) cs) ts"

definition dag_insert :: "'p route_path \<Rightarrow> 'p dag_node \<Rightarrow> 'p dag_node" where
  "dag_insert path root = dag_insert_at path path root"

text \<open>All paths below a node, in the order failures are collected.\<close>

fun node_paths :: "'p dag_node \<Rightarrow> 'p route_path list"
and child_paths :: "'p dag_child \<Rightarrow> 'p route_path list" where
  "node_paths (DagNode cs ts) = ts @ concat (map child_paths cs)"
| "child_paths (DagChild h n) = node_paths n"

definition collect_failures :: "string \<Rightarrow> 'p dag_node \<Rightarrow> 'p path_failure list" where
  "collect_failures reason n = map (\<lambda>p. \<lparr>pf_path = p, pf_reason = reason\<rparr>) (node_paths n)"

section \<open>Evaluation\<close>

record ('p, 'w, 'o) dag_evaluator =
  ev_quotes :: "'p route_quote list"
  ev_failures :: "'p path_failure list"
  ev_stopped :: bool
  ev_world :: 'w
  ev_observer :: 'o

record ('p, 'w, 'o) dag_env =
  de_quote_hop :: "'p hop \<Rightarrow> u256 \<Rightarrow> 'w \<Rightarrow> (string + u256) \<times> 'w"
  de_amount_in :: u256
  de_on_quote :: "('p route_quote \<Rightarrow> 'o \<Rightarrow> bool \<times> 'o) option"
  de_on_failure :: "('p path_failure \<Rightarrow> 'o \<Rightarrow> bool \<times> 'o) option"

definition notify :: "('x \<Rightarrow> 'o \<Rightarrow> bool \<times> 'o) option \<Rightarrow> 'x \<Rightarrow> 'o \<Rightarrow> bool \<times> 'o" where
  "notify callback x obs = (case callback of None \<Rightarrow> (True, obs) | Some f \<Rightarrow> f x obs)"

definition push_quote ::
  "('p, 'w, 'o) dag_env \<Rightarrow> 'p route_quote \<Rightarrow> ('p, 'w, 'o) dag_evaluator \<Rightarrow> ('p, 'w, 'o) dag_evaluator" where
  "push_quote env q st =
     (let (keep, obs) = notify (de_on_quote env) q (ev_observer st)
      in st\<lparr>ev_quotes := ev_quotes st @ [q], ev_stopped := \<not> keep \<or> ev_stopped st, ev_observer := obs\<rparr>)"

definition push_failure ::
  "('p, 'w, 'o) dag_env \<Rightarrow> 'p path_failure \<Rightarrow> ('p, 'w, 'o) dag_evaluator \<Rightarrow> ('p, 'w, 'o) dag_evaluator" where
  "push_failure env f st =
     (let (keep, obs) = notify (de_on_failure env) f (ev_observer st)
      in st\<lparr>ev_failures := ev_failures st @ [f], ev_stopped := \<not> keep \<or> ev_stopped st, ev_observer := obs\<rparr>)"

fun push_all ::
  "('x \<Rightarrow> ('p, 'w, 'o) dag_evaluator \<Rightarrow> ('p, 'w, 'o) dag_evaluator) \<Rightarrow> 'x list \<Rightarrow>
     ('p, 'w, 'o) dag_evaluator \<Rightarrow> ('p, 'w, 'o) dag_evaluator" where
  "push_all push [] st = st"
| "push_all push (x # xs) st = (if ev_stopped st then st else push_all push xs (push x st))"

fun evaluate ::
  "('p, 'w, 'o) dag_env \<Rightarrow> 'p dag_node \<Rightarrow> u256 \<Rightarrow> 'p hop_quote list \<Rightarrow>
     ('p, 'w, 'o) dag_evaluator \<Rightarrow> ('p, 'w, 'o) dag_evaluator"
and evaluate_children ::
  "('p, 'w, 'o) dag_env \<Rightarrow> 'p dag_child list \<Rightarrow> u256 \<Rightarrow> 'p hop_quote list \<Rightarrow>
     ('p, 'w, 'o) dag_evaluator \<Rightarrow> ('p, 'w, 'o) dag_evaluator" where
  "evaluate env (DagNode cs ts) amount trace st =
     (let st1 = push_all (push_quote env)
                  (map (\<lambda>p. \<lparr>rq_path = p, rq_amount_in = de_amount_in env, rq_amount_out = amount,
                             rq_hops = trace\<rparr>) ts) st
      in evaluate_children env cs amount trace st1)"
| "evaluate_children env [] amount trace st = st"
| "evaluate_children env (DagChild h n # cs) amount trace st =
     (if ev_stopped st then st
      else case de_quote_hop env h amount (ev_world st) of
             (Inr out, w) \<Rightarrow>
               evaluate_children env cs amount trace
                 (evaluate env n out
                    (trace @ [\<lparr>hq_hop = h, hq_amount_in = amount, hq_amount_out = out\<rparr>])
                    (st\<lparr>ev_world := w\<rparr>))
           | (Inl reason, w) \<Rightarrow>
               evaluate_children env cs amount trace
                 (push_all (push_failure env) (collect_failures reason n) (st\<lparr>ev_world := w\<rparr>)))"

text \<open>The insertion loop: empty paths fail at once, the others go into the tree. \<open>empty_reason\<close>
  is the rendering of the empty-path error.\<close>

fun insert_paths ::
  "('p, 'w, 'o) dag_env \<Rightarrow> string \<Rightarrow> 'p route_path list \<Rightarrow> 'p dag_node \<Rightarrow>
     ('p, 'w, 'o) dag_evaluator \<Rightarrow> 'p dag_node \<times> ('p, 'w, 'o) dag_evaluator" where
  "insert_paths env empty_reason [] root st = (root, st)"
| "insert_paths env empty_reason (p # ps) root st =
     (if p = [] then
        (let st1 = push_failure env \<lparr>pf_path = p, pf_reason = empty_reason\<rparr> st
         in if ev_stopped st1 then (root, st1) else insert_paths env empty_reason ps root st1)
      else insert_paths env empty_reason ps (dag_insert p root) st)"

definition quote_paths_observed ::
  "('p, 'w, 'o) dag_env \<Rightarrow> string \<Rightarrow> 'p route_path list \<Rightarrow> 'w \<Rightarrow> 'o \<Rightarrow> ('p, 'w, 'o) dag_evaluator" where
  "quote_paths_observed env empty_reason paths w obs =
     (let st0 = \<lparr>ev_quotes = [], ev_failures = [], ev_stopped = False, ev_world = w, ev_observer = obs\<rparr>;
          (root, st) = insert_paths env empty_reason paths empty_node st0
      in if ev_stopped st then st else evaluate env root (de_amount_in env) [] st)"

definition quote_paths ::
  "('p hop \<Rightarrow> u256 \<Rightarrow> 'w \<Rightarrow> (string + u256) \<times> 'w) \<Rightarrow> string \<Rightarrow> 'p route_path list \<Rightarrow> u256 \<Rightarrow> 'w \<Rightarrow>
     'p route_quote list \<times> 'p path_failure list \<times> 'w" where
  "quote_paths quote empty_reason paths amount_in w =
     (let st = quote_paths_observed
                 \<lparr>de_quote_hop = quote, de_amount_in = amount_in, de_on_quote = None, de_on_failure = None\<rparr>
                 empty_reason paths w ()
      in (ev_quotes st, ev_failures st, ev_world st))"

end
