(* ===== verification/QuoteDagProps.thy ===== *)
theory QuoteDagProps
  imports QuoteDag "HOL-Library.Sublist"
begin

text \<open>
  Evaluating the prefix tree gives every inserted path exactly the quote, or the failure
  reason, that pricing it on its own would give; observers that stop the evaluation cut the
  results short but never change them. The proofs are done against the hop quoter interface.
\<close>

section \<open>Insertion\<close>

fun dag_ok :: "'p hop list \<Rightarrow> 'p dag_node \<Rightarrow> bool"
and child_ok :: "'p hop list \<Rightarrow> 'p dag_child \<Rightarrow> bool" where
  "dag_ok pre (DagNode cs ts) \<longleftrightarrow> (\<forall>t \<in> set ts. t = pre) \<and> (\<forall>c \<in> set cs. child_ok pre c)"
| "child_ok pre (DagChild h n) \<longleftrightarrow> dag_ok (pre @ [h]) n"

lemma at_child_paths:
  assumes "\<And>n. mset (node_paths (f n)) = add_mset p (mset (node_paths n))"
  shows "mset (concat (map child_paths (at_child h f cs))) = add_mset p (mset (concat (map child_paths cs)))"
proof (induction cs)
  case Nil
  have "mset (node_paths (f empty_node)) = {#p#}" by (simp add: assms, simp add: empty_node_def)
  then show ?case by simp
next
  case (Cons c cs)
  then show ?case by (cases c) (simp add: assms)
qed

lemma dag_insert_at_paths:
  "mset (node_paths (dag_insert_at path hs n)) = add_mset path (mset (node_paths n))"
proof (induction path hs n rule: dag_insert_at.induct)
  case (2 path h hs cs ts)
  have "mset (node_paths (dag_insert_at path hs n)) = add_mset path (mset (node_paths n))" for n
    by (rule 2)
  then show ?case by (simp only: dag_insert_at.simps node_paths.simps mset_append at_child_paths union_mset_add_mset_right)
qed simp

lemma at_child_ok:
  assumes "\<And>n. dag_ok (pre @ [h]) n \<Longrightarrow> dag_ok (pre @ [h]) (f n)"
  shows "\<forall>c \<in> set cs. child_ok pre c \<Longrightarrow> \<forall>c \<in> set (at_child h f cs). child_ok pre c"
proof (induction cs)
  case Nil
  have "dag_ok (pre @ [h]) (f empty_node)" by (rule assms) (simp add: empty_node_def)
  then show ?case by simp
next
  case (Cons c cs)
  then show ?case by (cases c) (auto simp: assms)
qed

lemma dag_insert_at_ok:
  "dag_ok pre n \<Longrightarrow> path = pre @ hs \<Longrightarrow> dag_ok pre (dag_insert_at path hs n)"
proof (induction path hs n arbitrary: pre rule: dag_insert_at.induct)
  case (2 path h hs cs ts)
  have "\<forall>c \<in> set (at_child h (dag_insert_at path hs) cs). child_ok pre c"
    using 2 by (intro at_child_ok) simp_all
  with 2 show ?case by simp
qed auto

lemma dag_insert_ok: "dag_ok [] n \<Longrightarrow> dag_ok [] (dag_insert p n)"
  by (simp add: dag_insert_def dag_insert_at_ok)

lemma dag_insert_paths: "mset (node_paths (dag_insert p n)) = add_mset p (mset (node_paths n))"
  by (simp add: dag_insert_def dag_insert_at_paths)

lemma node_paths_prefix:
  "dag_ok pre n \<Longrightarrow> p \<in> set (node_paths n) \<Longrightarrow> \<exists>hs. p = pre @ hs"
  "child_ok pre c \<Longrightarrow> p \<in> set (child_paths c) \<Longrightarrow> \<exists>hs. p = pre @ child_hop c # hs"
proof (induction n and c arbitrary: pre and pre rule: node_paths_child_paths.induct)
  case (1 cs ts)
  then show ?case by fastforce
next
  case (2 h n)
  then show ?case by fastforce
qed

section \<open>Reference results\<close>

definition priced ::
  "('p hop \<Rightarrow> u256 \<Rightarrow> string + u256) \<Rightarrow> u256 \<Rightarrow> 'p route_path list \<Rightarrow> 'p route_quote list" where
  "priced price amount ps =
     concat (map (\<lambda>p. case price_path price amount p of Inr q \<Rightarrow> [q] | Inl _ \<Rightarrow> []) ps)"

definition unpriced ::
  "('p hop \<Rightarrow> u256 \<Rightarrow> string + u256) \<Rightarrow> u256 \<Rightarrow> 'p route_path list \<Rightarrow> 'p path_failure list" where
  "unpriced price amount ps =
     concat (map (\<lambda>p. case price_path price amount p of
                        Inl reason \<Rightarrow> [\<lparr>pf_path = p, pf_reason = reason\<rparr>] | Inr _ \<Rightarrow> []) ps)"

lemma priced_append [simp]:
  "priced price a (ps @ qs) = priced price a ps @ priced price a qs"
  "unpriced price a (ps @ qs) = unpriced price a ps @ unpriced price a qs"
  "priced price a [] = []" "unpriced price a [] = []"
  by (simp_all add: priced_def unpriced_def)

lemma mset_concat_map: "mset (concat (map f xs)) = (\<Sum>x \<in># mset xs. mset (f x))"
  by (induction xs) auto

lemma priced_perm:
  "mset ps = mset qs \<Longrightarrow> mset (priced price a ps) = mset (priced price a qs)"
  "mset ps = mset qs \<Longrightarrow> mset (unpriced price a ps) = mset (unpriced price a qs)"
  unfolding priced_def unpriced_def mset_concat_map by simp_all

text \<open>The effect of a stretch of evaluation that owes the quotes \<open>qs\<close> and the failures \<open>fs\<close>.\<close>

definition delivers ::
  "('w \<Rightarrow> bool) \<Rightarrow> ('p, 'w, 'o) dag_evaluator \<Rightarrow> 'p route_quote list \<Rightarrow> 'p path_failure list \<Rightarrow>
     ('p, 'w, 'o) dag_evaluator \<Rightarrow> bool" where
  "delivers good st qs fs st' \<longleftrightarrow>
     good (ev_world st') \<and>
     (\<exists>qs' fs'. ev_quotes st' = ev_quotes st @ qs' \<and> ev_failures st' = ev_failures st @ fs' \<and>
        (if ev_stopped st' then prefix qs' qs \<and> prefix fs' fs else qs' = qs \<and> fs' = fs))"

lemma delivers_append:
  assumes "delivers good st qs fs st1" and "\<not> ev_stopped st1 \<Longrightarrow> delivers good st1 qs2 fs2 st2"
    and "ev_stopped st1 \<Longrightarrow> st2 = st1"
  shows "delivers good st (qs @ qs2) (fs @ fs2) st2"
proof (cases "ev_stopped st1")
  case True
  then show ?thesis
    using assms(1,3) unfolding delivers_def by (auto intro: prefix_prefix)
next
  case False
  then obtain qs' fs' where "good (ev_world st2)" "ev_quotes st2 = ev_quotes st1 @ qs'" "ev_failures st2 = ev_failures st1 @ fs'"
      "if ev_stopped st2 then prefix qs' qs2 \<and> prefix fs' fs2 else qs' = qs2 \<and> fs' = fs2"
    using assms(2) unfolding delivers_def by blast
  then show ?thesis using False assms(1) unfolding delivers_def
    by (intro conjI exI [of _ "qs @ qs'"] exI [of _ "fs @ fs'"]) auto
qed

lemma delivers_refl: "good (ev_world st) \<Longrightarrow> \<not> ev_stopped st \<Longrightarrow> delivers good st [] [] st"
  by (simp add: delivers_def)

lemma push_fields:
  "ev_quotes (push_quote env q st) = ev_quotes st @ [q]" "ev_failures (push_quote env q st) = ev_failures st"
  "ev_world (push_quote env q st) = ev_world st"
  "ev_quotes (push_failure env f st) = ev_quotes st" "ev_failures (push_failure env f st) = ev_failures st @ [f]"
  "ev_world (push_failure env f st) = ev_world st"
  by (simp_all add: push_quote_def push_failure_def split: prod.split)

lemma push_all_stopped: "ev_stopped st \<Longrightarrow> push_all push xs st = st"
  by (cases xs) auto

lemma push_all_quotes:
  "good (ev_world st) \<Longrightarrow> \<not> ev_stopped st \<Longrightarrow> delivers good st qs [] (push_all (push_quote env) qs st)"
proof (induction qs arbitrary: st)
  case (Cons q qs)
  let ?st1 = "push_quote env q st"
  have "delivers good st [q] [] ?st1"
    using Cons.prems by (auto simp: delivers_def push_fields)
  then have "delivers good st ([q] @ qs) ([] @ []) (push_all (push_quote env) qs ?st1)"
    using Cons by (intro delivers_append [of good st _ _ ?st1]) (simp_all add: push_fields push_all_stopped)
  then show ?case using Cons.prems(2) by simp
qed (simp add: delivers_refl)

lemma push_all_failures:
  "good (ev_world st) \<Longrightarrow> \<not> ev_stopped st \<Longrightarrow> delivers good st [] fs (push_all (push_failure env) fs st)"
proof (induction fs arbitrary: st)
  case (Cons f fs)
  let ?st1 = "push_failure env f st"
  have "delivers good st [] [f] ?st1"
    using Cons.prems by (auto simp: delivers_def push_fields)
  then have "delivers good st ([] @ []) ([f] @ fs) (push_all (push_failure env) fs ?st1)"
    using Cons by (intro delivers_append [of good st _ _ ?st1]) (simp_all add: push_fields push_all_stopped)
  then show ?case using Cons.prems(2) by simp
qed (simp add: delivers_refl)

lemma evaluate_children_stopped: "ev_stopped st \<Longrightarrow> evaluate_children env cs amount trace st = st"
  by (cases "(env, cs, amount, trace, st)" rule: evaluate_children.cases) auto

section \<open>Evaluation\<close>

context hop_quoter
begin

lemma quote_cases:
  assumes "good w"
  obtains out w' where "quote h a w = (Inr out, w')" "price h a = Inr out" "good w'"
    | reason w' where "quote h a w = (Inl reason, w')" "price h a = Inl reason" "good w'"
  using quote_price [OF assms, of h a] quote_good [OF assms, of h a]
  by (cases "quote h a w"; cases "price h a") auto

lemma failed_child:
  assumes "dag_ok (pre @ [h]) n" and "price_hops price amount0 pre = Inr (amount, trace)"
    and "price h amount = Inl reason"
  shows "priced price amount0 (node_paths n) = []"
    and "unpriced price amount0 (node_paths n) = collect_failures reason n"
proof -
  have f: "price_path price amount0 p = Inl reason" if p: "p \<in> set (node_paths n)" for p
  proof -
    obtain hs where "p = (pre @ [h]) @ hs" using node_paths_prefix(1) [OF assms(1) p] by blast
    then show ?thesis using assms(2,3) by (simp add: price_path_def price_hops_append)
  qed
  have "priced price amount0 ps = [] \<and>
      unpriced price amount0 ps = map (\<lambda>p. \<lparr>pf_path = p, pf_reason = reason\<rparr>) ps"
    if "set ps \<subseteq> set (node_paths n)" for ps
    using that f by (induction ps) (simp_all add: priced_def unpriced_def)
  then show "priced price amount0 (node_paths n) = []"
    and "unpriced price amount0 (node_paths n) = collect_failures reason n"
    by (simp_all add: collect_failures_def)
qed

lemma priced_terminals:
  assumes "\<forall>t \<in> set ts. t = pre" and "price_hops price amount0 pre = Inr (amount, trace)"
  shows "priced price amount0 ts =
      map (\<lambda>p. \<lparr>rq_path = p, rq_amount_in = amount0, rq_amount_out = amount, rq_hops = trace\<rparr>) ts"
    and "unpriced price amount0 ts = []"
  using assms by (induction ts) (simp_all add: priced_def unpriced_def price_path_def)

text \<open>Evaluating a node whose prefix is priced delivers exactly the results of the paths
  below it, in the order of the tree.\<close>

lemma evaluate_delivers:
  fixes env :: "('p, 'w, 'o) dag_env"
  assumes "de_quote_hop env = quote"
  shows "dag_ok pre n \<Longrightarrow> price_hops price (de_amount_in env) pre = Inr (amount, trace) \<Longrightarrow>
      good (ev_world st) \<Longrightarrow> \<not> ev_stopped st \<Longrightarrow>
      delivers good st (priced price (de_amount_in env) (node_paths n))
        (unpriced price (de_amount_in env) (node_paths n)) (evaluate env n amount trace st)"
    and "\<forall>c \<in> set cs. child_ok pre c \<Longrightarrow> price_hops price (de_amount_in env) pre = Inr (amount, trace) \<Longrightarrow>
      good (ev_world st) \<Longrightarrow> \<not> ev_stopped st \<Longrightarrow>
      delivers good st (priced price (de_amount_in env) (concat (map child_paths cs)))
        (unpriced price (de_amount_in env) (concat (map child_paths cs))) (evaluate_children env cs amount trace st)"
  using assms
proof (induction env n amount trace st and env cs amount trace st arbitrary: pre and pre
    rule: evaluate_evaluate_children.induct)
  case (1 env cs ts amount trace st)
  let ?a = "de_amount_in env"
  let ?qs = "map (\<lambda>p. \<lparr>rq_path = p, rq_amount_in = ?a, rq_amount_out = amount, rq_hops = trace\<rparr>) ts"
  let ?st1 = "push_all (push_quote env) ?qs st"
  have ts: "priced price ?a ts = ?qs" "unpriced price ?a ts = []"
    using priced_terminals [of ts pre ?a amount trace] "1.prems"(1,2) by auto
  have d: "delivers good st ?qs [] ?st1" using "1.prems"(3,4) by (rule push_all_quotes)
  then have "good (ev_world ?st1)" by (simp add: delivers_def)
  then have "delivers good st (?qs @ priced price ?a (concat (map child_paths cs)))
      ([] @ unpriced price ?a (concat (map child_paths cs))) (evaluate_children env cs amount trace ?st1)"
    using "1.prems" by (intro delivers_append [OF d] "1.IH") (simp_all add: evaluate_children_stopped)
  then show ?case by (simp add: ts)
next
  case (2 env amount trace st)
  then show ?case by (simp add: delivers_refl)
next
  case (3 env h n cs amount trace st)
  let ?a = "de_amount_in env"
  have ok: "dag_ok (pre @ [h]) n" "\<forall>c \<in> set cs. child_ok pre c" using "3.prems"(1) by auto
  show ?case
  proof (cases rule: quote_cases [OF "3.prems"(3), of h amount])
    case (1 out w')
    let ?t = "trace @ [\<lparr>hq_hop = h, hq_amount_in = amount, hq_amount_out = out\<rparr>]"
    let ?st1 = "evaluate env n out ?t (st\<lparr>ev_world := w'\<rparr>)"
    have q: "(Inr out, w') = de_quote_hop env h amount (ev_world st)" using 1(1) "3.prems"(5) by simp
    have "price_hops price ?a (pre @ [h]) = Inr (out, ?t)"
      using "3.prems"(2) 1(2) by (simp add: price_hops_append)
    from "3.IH"(2) [OF "3.prems"(4) q refl ok(1) this] 1(3) "3.prems"(4,5)
    have d: "delivers good st (priced price ?a (node_paths n)) (unpriced price ?a (node_paths n)) ?st1"
      by (simp add: delivers_def)
    then have g: "good (ev_world ?st1)" by (simp add: delivers_def)
    have "delivers good st (priced price ?a (node_paths n) @ priced price ?a (concat (map child_paths cs)))
        (unpriced price ?a (node_paths n) @ unpriced price ?a (concat (map child_paths cs)))
        (evaluate_children env cs amount trace ?st1)"
      using "3.IH"(3) [OF "3.prems"(4) q refl ok(2) "3.prems"(2) g _ "3.prems"(5)]
      by (intro delivers_append [OF d]) (simp_all add: evaluate_children_stopped)
    then show ?thesis using 1 "3.prems"(4,5) by simp
  next
    case (2 reason w')
    let ?st1 = "push_all (push_failure env) (collect_failures reason n) (st\<lparr>ev_world := w'\<rparr>)"
    have q: "(Inl reason, w') = de_quote_hop env h amount (ev_world st)" using 2(1) "3.prems"(5) by simp
    note f = failed_child [OF ok(1) "3.prems"(2) 2(2)]
    have d: "delivers good st (priced price ?a (node_paths n)) (unpriced price ?a (node_paths n)) ?st1"
      using push_all_failures [of good "st\<lparr>ev_world := w'\<rparr>" "collect_failures reason n" env] 2(3) "3.prems"(4)
      unfolding f by (simp add: delivers_def)
    then have g: "good (ev_world ?st1)" by (simp add: delivers_def)
    have "delivers good st (priced price ?a (node_paths n) @ priced price ?a (concat (map child_paths cs)))
        (unpriced price ?a (node_paths n) @ unpriced price ?a (concat (map child_paths cs)))
        (evaluate_children env cs amount trace ?st1)"
      using "3.IH"(1) [OF "3.prems"(4) q refl ok(2) "3.prems"(2) g _ "3.prems"(5)]
      by (intro delivers_append [OF d]) (simp_all add: evaluate_children_stopped)
    then show ?thesis using 2 "3.prems"(4,5) by simp
  qed
qed

lemma insert_paths_delivers:
  assumes "insert_paths env reason paths root st = (root', st')"
    and "dag_ok [] root" and "good (ev_world st)" and "\<not> ev_stopped st"
  shows "dag_ok [] root' \<and>
    delivers good st [] (map (\<lambda>p. \<lparr>pf_path = p, pf_reason = reason\<rparr>) (filter (\<lambda>p. p = []) paths)) st' \<and>
    (\<not> ev_stopped st' \<longrightarrow>
       mset (node_paths root') = mset (node_paths root) + mset (filter (\<lambda>p. p \<noteq> []) paths))"
  using assms
proof (induction paths arbitrary: root st)
  case (Cons p ps)
  show ?case
  proof (cases "p = []")
    case False
    with Cons.IH [of "dag_insert p root" st] Cons.prems dag_insert_ok show ?thesis
      by (auto simp: dag_insert_paths)
  next
    case True
    let ?f = "\<lparr>pf_path = p, pf_reason = reason\<rparr>"
    let ?st1 = "push_failure env ?f st"
    have d: "delivers good st [] [?f] ?st1" using Cons.prems(3) by (auto simp: delivers_def push_fields)
    show ?thesis
    proof (cases "ev_stopped ?st1")
      case stop: True
      then have "root' = root" "st' = ?st1" using Cons.prems(1) True by (auto simp: Let_def)
      moreover have "delivers good st ([] @ []) ([?f] @ map (\<lambda>p. \<lparr>pf_path = p, pf_reason = reason\<rparr>) (filter (\<lambda>p. p = []) ps)) ?st1"
        by (rule delivers_append [OF d]) (simp_all add: stop)
      ultimately show ?thesis using Cons.prems(2) True stop by simp
    next
      case go: False
      then have rest: "insert_paths env reason ps root ?st1 = (root', st')"
        using Cons.prems(1) True by (simp add: Let_def)
      have "good (ev_world ?st1)" using Cons.prems(3) by (simp add: push_fields)
      note ih = Cons.IH [OF rest Cons.prems(2) this go]
      then have "delivers good st ([] @ []) ([?f] @ map (\<lambda>p. \<lparr>pf_path = p, pf_reason = reason\<rparr>) (filter (\<lambda>p. p = []) ps)) st'"
        using go by (intro delivers_append [OF d]) simp_all
      with ih True show ?thesis by simp
    qed
  qed
qed (simp add: delivers_refl)

text \<open>Evaluating a batch of paths: some order of the non-empty paths is quoted, and what is
  delivered is the results of a prefix of that order.\<close>

lemma quote_paths_observed_delivers:
  assumes "de_quote_hop env = quote" and "good w"
    and st: "st = quote_paths_observed env reason paths w obs"
  obtains order where "mset order = mset (filter (\<lambda>p. p \<noteq> []) paths)"
    and "delivers good \<lparr>ev_quotes = [], ev_failures = [], ev_stopped = False, ev_world = w, ev_observer = obs\<rparr>
      (priced price (de_amount_in env) order)
      (map (\<lambda>p. \<lparr>pf_path = p, pf_reason = reason\<rparr>) (filter (\<lambda>p. p = []) paths) @
       unpriced price (de_amount_in env) order) st"
proof -
  let ?st0 = "\<lparr>ev_quotes = [], ev_failures = [], ev_stopped = False, ev_world = w, ev_observer = obs\<rparr>"
  let ?F = "map (\<lambda>p. \<lparr>pf_path = p, pf_reason = reason\<rparr>) (filter (\<lambda>p. p = []) paths)"
  obtain root st1 where i: "insert_paths env reason paths empty_node ?st0 = (root, st1)" by fastforce
  have "dag_ok [] empty_node" by (simp add: empty_node_def)
  note ins = insert_paths_delivers [OF i this]
  have d: "dag_ok [] root" "delivers good ?st0 [] ?F st1" using ins assms(2) by auto
  have s: "st = (if ev_stopped st1 then st1 else evaluate env root (de_amount_in env) [] st1)"
    using st i by (simp add: quote_paths_observed_def Let_def)
  show thesis
  proof (cases "ev_stopped st1")
    case True
    have "delivers good ?st0 ([] @ priced price (de_amount_in env) (filter (\<lambda>p. p \<noteq> []) paths))
        (?F @ unpriced price (de_amount_in env) (filter (\<lambda>p. p \<noteq> []) paths)) st"
      by (rule delivers_append [OF d(2)]) (simp_all add: True s)
    then show thesis by (intro that [of "filter (\<lambda>p. p \<noteq> []) paths"]) simp_all
  next
    case False
    have "good (ev_world st1)" using d(2) by (simp add: delivers_def)
    then have "delivers good ?st0 ([] @ priced price (de_amount_in env) (node_paths root))
        (?F @ unpriced price (de_amount_in env) (node_paths root)) st"
      using False s evaluate_delivers(1) [OF assms(1) d(1)]
      by (intro delivers_append [OF d(2)]) simp_all
    moreover have "mset (node_paths root) = mset (filter (\<lambda>p. p \<noteq> []) paths)"
      using ins assms(2) False by (simp add: empty_node_def)
    ultimately show thesis by (intro that [of "node_paths root"]) simp_all
  qed
qed

text \<open>Without observers nothing stops the evaluation.\<close>

lemma push_all_unobserved:
  "de_on_quote env = None \<Longrightarrow> ev_stopped (push_all (push_quote env) qs st) = ev_stopped st"
  "de_on_failure env = None \<Longrightarrow> ev_stopped (push_all (push_failure env) fs st) = ev_stopped st"
  by (induction qs arbitrary: st) (simp_all add: push_quote_def notify_def,
      induction fs arbitrary: st, simp_all add: push_failure_def notify_def)

lemma evaluate_unobserved:
  "de_on_quote env = None \<Longrightarrow> de_on_failure env = None \<Longrightarrow> ev_stopped (evaluate env n amount trace st) = ev_stopped st"
  "de_on_quote env = None \<Longrightarrow> de_on_failure env = None \<Longrightarrow>
     ev_stopped (evaluate_children env cs amount trace st) = ev_stopped st"
  by (induction env n amount trace st and env cs amount trace st rule: evaluate_evaluate_children.induct)
    (auto simp: Let_def push_all_unobserved split: prod.splits sum.splits)

lemma insert_paths_unobserved:
  "de_on_failure env = None \<Longrightarrow> insert_paths env reason paths root st = (root', st') \<Longrightarrow>
     ev_stopped st' = ev_stopped st"
  by (induction paths arbitrary: root st) (auto simp: Let_def push_failure_def notify_def split: if_splits)

lemma quote_paths_results:
  assumes "good w" and "quote_paths quote reason paths amount_in w = (quotes, failures, w')"
  shows "mset quotes = mset (priced price amount_in (filter (\<lambda>p. p \<noteq> []) paths))"
    and "mset failures = mset (map (\<lambda>p. \<lparr>pf_path = p, pf_reason = reason\<rparr>) (filter (\<lambda>p. p = []) paths)) +
      mset (unpriced price amount_in (filter (\<lambda>p. p \<noteq> []) paths))"
    and "good w'"
proof -
  let ?env = "\<lparr>de_quote_hop = quote, de_amount_in = amount_in, de_on_quote = None, de_on_failure = None\<rparr>
    :: ('p, 'w, unit) dag_env"
  let ?st0 = "\<lparr>ev_quotes = [], ev_failures = [], ev_stopped = False, ev_world = w, ev_observer = ()\<rparr>
    :: ('p, 'w, unit) dag_evaluator"
  define st where "st = quote_paths_observed ?env reason paths w ()"
  have r: "quotes = ev_quotes st" "failures = ev_failures st" "w' = ev_world st"
    using assms(2) by (auto simp: quote_paths_def st_def Let_def)
  obtain root st1 where i: "insert_paths ?env reason paths empty_node ?st0 = (root, st1)" by fastforce
  have "\<not> ev_stopped st1" using insert_paths_unobserved [OF _ i] by simp
  then have ns: "\<not> ev_stopped st" using i evaluate_unobserved(1) [of ?env] by (simp add: st_def quote_paths_observed_def Let_def)
  obtain order where o2: "mset order = mset (filter (\<lambda>p. p \<noteq> []) paths)"
    "delivers good ?st0 (priced price amount_in order)
      (map (\<lambda>p. \<lparr>pf_path = p, pf_reason = reason\<rparr>) (filter (\<lambda>p. p = []) paths) @ unpriced price amount_in order) st"
    by (rule quote_paths_observed_delivers [of ?env w st reason paths "()"]) (simp_all add: assms(1) st_def)
  then show "mset quotes = mset (priced price amount_in (filter (\<lambda>p. p \<noteq> []) paths))"
    and "mset failures = mset (map (\<lambda>p. \<lparr>pf_path = p, pf_reason = reason\<rparr>) (filter (\<lambda>p. p = []) paths)) +
      mset (unpriced price amount_in (filter (\<lambda>p. p \<noteq> []) paths))"
    and "good w'"
    using ns priced_perm [OF o2(1)] by (auto simp: delivers_def r)
qed

end

end
