(* ===== verification/QuoteCacheConc.thy ===== *)
theory QuoteCacheConc
  imports QuoteCache
begin

text \<open>
  The quote cache under concurrency. Workers run \<^verbatim>\<open>get_or_quote\<close> interleaved at the
  granularity of its critical sections; pools may be invalidated and a simulation may panic
  at any moment. \<open>outcomes key\<close> is the set of results an adapter may give for a key, so the
  safety statements hold for adapters that are not deterministic too.
\<close>

section \<open>Interleavings\<close>

datatype ('p, 'l) worker =
    Idle
  | Seeking "('p, 'l) hop_quote_key"
  | Quoting "('p, 'l) hop_quote_key"
  | Answered "('p, 'l) hop_quote_key" "string + u256"
  | Panicked

fun is_free :: "('p, 'l) worker \<Rightarrow> bool" where
  "is_free Idle = True"
| "is_free (Answered _ _) = True"
| "is_free _ = False"

datatype cache_event = Work | Panic | Invalidate

type_synonym ('p, 'l) cache_run = "('p, 'l) quote_cache \<times> (nat \<Rightarrow> ('p, 'l) worker)"

inductive cache_step ::
  "('l \<Rightarrow> 'p) \<Rightarrow> (('p, 'l) hop_quote_key \<Rightarrow> (string + u256) set) \<Rightarrow> cache_event \<Rightarrow>
     ('p, 'l) cache_run \<Rightarrow> ('p, 'l) cache_run \<Rightarrow> bool"
  for ref_pool and outcomes where
  seek: "is_free (w t) \<Longrightarrow>
      cache_step ref_pool outcomes Work (c, w) (c, w(t := Seeking key))"
| hit: "w t = Seeking key \<Longrightarrow> cache_begin ref_pool key c = (Hit entry, c') \<Longrightarrow>
      cache_step ref_pool outcomes Work (c, w) (c', w(t := Answered key (into_result entry)))"
| wait: "w t = Seeking key \<Longrightarrow> cache_begin ref_pool key c = (Blocked, c') \<Longrightarrow>
      cache_step ref_pool outcomes Work (c, w) (c', w)"
| miss: "w t = Seeking key \<Longrightarrow> cache_begin ref_pool key c = (Started, c') \<Longrightarrow>
      cache_step ref_pool outcomes Work (c, w) (c', w(t := Quoting key))"
| finish: "w t = Quoting key \<Longrightarrow> r \<in> outcomes key \<Longrightarrow>
      cache_step ref_pool outcomes Work (c, w)
        (cache_publish key (entry_of r) c, w(t := Answered key r))"
| panic: "w t = Quoting key \<Longrightarrow>
      cache_step ref_pool outcomes Panic (c, w) (cache_abort ref_pool key c, w(t := Panicked))"
| invalidate: "cache_step ref_pool outcomes Invalidate (c, w) (invalidate_pools pools c, w)"

inductive_cases cache_stepE: "cache_step ref_pool outcomes e (c, w) (c', w')"

lemmas cache_step_cases =
  cache_stepE [consumes 1, case_names seek hit wait miss finish panic invalidate]

inductive cache_run ::
  "('l \<Rightarrow> 'p) \<Rightarrow> (('p, 'l) hop_quote_key \<Rightarrow> (string + u256) set) \<Rightarrow> cache_event set \<Rightarrow>
     ('p, 'l) cache_run \<Rightarrow> bool"
  for ref_pool and outcomes and events where
  start: "cache_run ref_pool outcomes events (empty_cache, \<lambda>t. Idle)"
| step: "cache_run ref_pool outcomes events s \<Longrightarrow> e \<in> events \<Longrightarrow>
      cache_step ref_pool outcomes e s s' \<Longrightarrow> cache_run ref_pool outcomes events s'"

section \<open>What a critical section does to the entries\<close>

lemma begin_Hit:
  "cache_begin ref_pool key c = (Hit entry, c') \<longleftrightarrow>
     qc_entries c key = Some (ReadyEntry entry) \<and>
     c' = c\<lparr>qc_stats := (qc_stats c)\<lparr>qs_hits := Suc (qs_hits (qc_stats c))\<rparr>\<rparr>"
  by (auto simp: cache_begin_def split: option.splits quote_cache_state.splits)

lemma begin_Blocked:
  "cache_begin ref_pool key c = (Blocked, c') \<longleftrightarrow>
     qc_entries c key = Some InFlight \<and>
     c' = c\<lparr>qc_stats := (qc_stats c)\<lparr>qs_waits := Suc (qs_waits (qc_stats c))\<rparr>\<rparr>"
  by (auto simp: cache_begin_def split: option.splits quote_cache_state.splits)

lemma begin_Started:
  "cache_begin ref_pool key c = (Started, c') \<Longrightarrow>
     qc_entries c key = None \<and> qc_entries c' = (qc_entries c)(key \<mapsto> InFlight)"
  by (auto simp: cache_begin_def split: option.splits quote_cache_state.splits)

lemma publish_entries:
  "qc_entries (cache_publish key entry c) k =
     (if k = key \<and> qc_entries c key = Some InFlight then Some (ReadyEntry entry) else qc_entries c k)"
  by (simp add: cache_publish_def Let_def)

lemma abort_entries: "qc_entries (cache_abort ref_pool key c) = (qc_entries c)(key := None)"
  by (simp add: cache_abort_def remove_quote_key_from_pool_index_def)

lemma invalidate_subset:
  "qc_entries (invalidate_pools pools c) k = Some e \<Longrightarrow> qc_entries c k = Some e"
  by (simp add: invalidate_pools_def split: if_splits)

lemmas begin_iffs = begin_Hit begin_Blocked

section \<open>Invariants of every interleaving\<close>

definition run_ok ::
  "('l \<Rightarrow> 'p) \<Rightarrow> (('p, 'l) hop_quote_key \<Rightarrow> (string + u256) set) \<Rightarrow> ('p, 'l) cache_run \<Rightarrow> bool" where
  "run_ok ref_pool outcomes s \<longleftrightarrow>
     index_exact ref_pool (fst s) \<and>
     (\<forall>k. qc_entries (fst s) k = Some InFlight \<longrightarrow> (\<exists>t. snd s t = Quoting k)) \<and>
     (\<forall>k e. qc_entries (fst s) k = Some (ReadyEntry e) \<longrightarrow> into_result e \<in> outcomes k) \<and>
     (\<forall>t k r. snd s t = Answered k r \<longrightarrow> r \<in> outcomes k)"

lemma run_okD:
  assumes "run_ok ref_pool outcomes (c, w)"
  shows "index_exact ref_pool c"
    and "qc_entries c k = Some InFlight \<Longrightarrow> \<exists>t. w t = Quoting k"
    and "qc_entries c k = Some (ReadyEntry e) \<Longrightarrow> into_result e \<in> outcomes k"
    and "w t = Answered k r \<Longrightarrow> r \<in> outcomes k"
  using assms by (auto simp: run_ok_def)

lemma run_ok_step:
  assumes "run_ok ref_pool outcomes (c, w)" and "cache_step ref_pool outcomes e (c, w) (c', w')"
  shows "run_ok ref_pool outcomes (c', w')"
proof -
  note ok = run_okD [OF assms(1)]
  have ix: "index_exact ref_pool c'"
    using assms(2) ok(1) by (cases rule: cache_step_cases) (auto intro: index_exact_steps)
  show ?thesis
    using assms(2)
  proof (cases rule: cache_step_cases)
    case (seek t key)
    have "\<exists>u. w' u = Quoting k" if "qc_entries c k = Some InFlight" for k
      using ok(2) [OF that] seek by (metis fun_upd_apply is_free.simps(4))
    then show ?thesis using seek ix ok by (auto simp: run_ok_def split: if_splits)
  next
    case (hit t key entry)
    have "\<exists>u. w' u = Quoting k" if "qc_entries c k = Some InFlight" for k
      using ok(2) [OF that] hit by (metis fun_upd_apply worker.distinct)
    then show ?thesis using hit ix ok by (auto simp: run_ok_def begin_iffs split: if_splits)
  next
    case (wait t key)
    then show ?thesis using ix ok by (auto simp: run_ok_def begin_iffs)
  next
    case (miss t key)
    have b: "cache_begin ref_pool key c = (Started, c')" using miss by simp
    have "\<exists>u. w' u = Quoting k" if "qc_entries c' k = Some InFlight" for k
      using that ok(2) [of k] miss begin_Started [OF b] by (metis fun_upd_apply worker.distinct)
    then show ?thesis using miss ix ok begin_Started [OF b] by (auto simp: run_ok_def split: if_splits)
  next
    case (finish t key r)
    have "\<exists>u. w' u = Quoting k" if "qc_entries c' k = Some InFlight" for k
    proof -
      have k: "k \<noteq> key" "qc_entries c k = Some InFlight"
        using that finish by (auto simp: publish_entries split: if_splits)
      then obtain u where "w u = Quoting k" using ok(2) by blast
      with k finish have "w' u = Quoting k" by auto
      then show ?thesis by blast
    qed
    then show ?thesis using finish ix ok by (auto simp: run_ok_def publish_entries split: if_splits)
  next
    case (panic t key)
    have "\<exists>u. w' u = Quoting k" if "qc_entries c' k = Some InFlight" for k
    proof -
      have k: "k \<noteq> key" "qc_entries c k = Some InFlight"
        using that panic by (auto simp: abort_entries split: if_splits)
      then obtain u where "w u = Quoting k" using ok(2) by blast
      with k panic have "w' u = Quoting k" by auto
      then show ?thesis by blast
    qed
    then show ?thesis using panic ix ok by (auto simp: run_ok_def abort_entries split: if_splits)
  next
    case (invalidate pools)
    then show ?thesis using ix ok by (auto simp: run_ok_def dest: invalidate_subset)
  qed
qed

lemma cache_run_ok: "cache_run ref_pool outcomes events s \<Longrightarrow> run_ok ref_pool outcomes s"
proof (induction rule: cache_run.induct)
  case start
  then show ?case using index_exact_empty by (simp add: run_ok_def) (simp add: empty_cache_def)
next
  case (step s e s')
  then show ?case by (cases s; cases s') (auto intro: run_ok_step)
qed

section \<open>Runs without invalidation\<close>

definition single_flight :: "('p, 'l) cache_run \<Rightarrow> bool" where
  "single_flight s \<longleftrightarrow>
     (\<forall>t k. snd s t = Quoting k \<longrightarrow> qc_entries (fst s) k = Some InFlight) \<and>
     (\<forall>t u k. snd s t = Quoting k \<longrightarrow> snd s u = Quoting k \<longrightarrow> t = u) \<and>
     (\<forall>t k r. snd s t = Answered k r \<longrightarrow> (\<exists>e. qc_entries (fst s) k = Some (ReadyEntry e) \<and> into_result e = r))"

lemma single_flightD:
  assumes "single_flight (c, w)"
  shows "w t = Quoting k \<Longrightarrow> qc_entries c k = Some InFlight"
    and "w t = Quoting k \<Longrightarrow> w u = Quoting k \<Longrightarrow> t = u"
    and "w t = Answered k r \<Longrightarrow> \<exists>e. qc_entries c k = Some (ReadyEntry e) \<and> into_result e = r"
  using assms by (simp_all add: single_flight_def)

text \<open>A worker that leaves the quoting state leaves the other keys as they were.\<close>

lemma single_flight_leave:
  assumes s: "single_flight (c, w)" and t: "w t = Quoting key"
    and other: "\<And>k. k \<noteq> key \<Longrightarrow> qc_entries c' k = qc_entries c k"
    and x: "\<And>k. x \<noteq> Quoting k"
    and ans: "\<And>k r. x = Answered k r \<Longrightarrow> \<exists>e. qc_entries c' k = Some (ReadyEntry e) \<and> into_result e = r"
  shows "single_flight (c', w(t := x))"
proof -
  note d = single_flightD [OF s]
  have q: "u \<noteq> t \<and> w u = Quoting k \<and> k \<noteq> key" if "(w(t := x)) u = Quoting k" for u k
    using that x t d(2) by (auto split: if_splits)
  have a: "\<exists>e. qc_entries c' k = Some (ReadyEntry e) \<and> into_result e = r" if u: "(w(t := x)) u = Answered k r" for u k r
  proof (cases "u = t")
    case True
    then show ?thesis using u ans by simp
  next
    case False
    then obtain e where e: "qc_entries c k = Some (ReadyEntry e)" "into_result e = r" using u d(3) [of u k r] by auto
    then have "k \<noteq> key" using d(1) [OF t] by auto
    then show ?thesis using e other by simp
  qed
  show ?thesis unfolding single_flight_def using q a other d(1,2) by (metis fst_conv snd_conv)
qed

lemma single_flight_step:
  assumes "single_flight (c, w)" and "cache_step ref_pool outcomes e (c, w) (c', w')" and "e \<noteq> Invalidate"
  shows "single_flight (c', w')"
  using assms(2)
proof (cases rule: cache_step_cases)
  case (seek t key)
  then show ?thesis using assms(1) by (auto simp: single_flight_def split: if_splits)
next
  case (hit t key entry)
  then show ?thesis using assms(1) by (auto simp: single_flight_def begin_iffs split: if_splits)
next
  case (wait t key)
  then show ?thesis using assms(1) by (auto simp: single_flight_def begin_iffs)
next
  case (miss t key)
  have "cache_begin ref_pool key c = (Started, c')" using miss by simp
  note b = begin_Started [OF this]
  have "w u \<noteq> Quoting key" "w u \<noteq> Answered key r" for u r
    using assms(1) b by (fastforce simp: single_flight_def)+
  then show ?thesis using assms(1) miss b by (auto simp: single_flight_def split: if_splits)
next
  case (finish t key r)
  have "qc_entries c key = Some InFlight" using single_flightD(1) [OF assms(1)] finish by blast
  then show ?thesis unfolding finish
    by (intro single_flight_leave [OF assms(1) finish(2)]) (simp_all add: publish_entries)
next
  case (panic t key)
  then show ?thesis unfolding panic
    by (intro single_flight_leave [OF assms(1) panic(2)]) (simp_all add: abort_entries)
next
  case (invalidate pools)
  then show ?thesis using assms(3) by simp
qed

lemma cache_run_single_flight:
  "cache_run ref_pool outcomes events s \<Longrightarrow> Invalidate \<notin> events \<Longrightarrow> single_flight s"
proof (induction rule: cache_run.induct)
  case start
  then show ?case by (simp add: single_flight_def)
next
  case (step s e s')
  then show ?case by (cases s; cases s') (auto intro: single_flight_step)
qed

end
