(* ===== verification/QuoteProps.thy ===== *)
theory QuoteProps
  imports QuoteDagProps QuoteCacheConc
begin

text \<open>
  Quoting through the prefix tree and the shared cache gives the same results as quoting
  each path on its own with the adapters; the cache is safe under every interleaving of its
  workers.
\<close>

section \<open>The cached hop quoter\<close>

text \<open>What is assumed of the adapters: their quotes do not depend on the state of their cache
  (\<open>adapters_deterministic\<close>), and read of the simulation config only what the cache key
  holds. What is assumed of a live snapshot: a state reference names its pool.\<close>

definition sim_key_sufficient ::
  "('p hop \<Rightarrow> u256 \<Rightarrow> 's sim_config_scheme \<Rightarrow> ('p, 'e) search_error + u256) \<Rightarrow> bool" where
  "sim_key_sufficient price \<longleftrightarrow>
     (\<forall>h a sim sim'. sim_config_key_of sim = sim_config_key_of sim' \<longrightarrow> price h a sim = price h a sim')"

fun context_names_pools :: "('i \<times> 'v \<times> 't \<Rightarrow> 'p) \<Rightarrow> ('p, 'i, 'v, 't) quote_key_context \<Rightarrow> bool" where
  "context_names_pools ref_pool ContextStatic \<longleftrightarrow> True"
| "context_names_pools ref_pool (ContextLive point instance_of revision) \<longleftrightarrow>
     (\<forall>pool inst rev. instance_of pool = Some inst \<longrightarrow> revision inst = Some rev \<longrightarrow>
        ref_pool (inst, rev, point) = pool)"

definition rendered :: "('p, 'a, 'c, 's, 'e) adapter_registry \<Rightarrow> ('p, 'e) search_error + 'x \<Rightarrow> string + 'x" where
  "rendered R r = (case r of Inl err \<Rightarrow> Inl (ar_render R err) | Inr x \<Rightarrow> Inr x)"

lemma rendered_simps [simp]: "rendered R (Inl err) = Inl (ar_render R err)" "rendered R (Inr x) = Inr x"
  by (simp_all add: rendered_def)

lemma quote_key_inj:
  assumes "context_names_pools ref_pool context"
    and "quote_key missing context h a sim = Inr key" and "quote_key missing context h' a' sim' = Inr key"
  shows "h = h'" and "a = a'" and "sim_config_key_of sim = sim_config_key_of sim'"
proof -
  have "hop_pool h = hop_pool h'"
    using assms by (cases "context")
      (auto simp: quote_key_def and_then_def split: sum.splits option.splits Option.bind_splits, metis)
  then show "h = h'" and "a = a'" and "sim_config_key_of sim = sim_config_key_of sim'"
    using assms(2,3) by (auto simp: quote_key_def and_then_def split: sum.splits)
qed

text \<open>A cache fit for use by a lone worker: nothing is in flight and every entry holds what the
  adapters answer for its key.\<close>

definition cache_good ::
  "('p, 'a, 'c, 's, 'e) adapter_registry \<Rightarrow> ('p \<Rightarrow> string) \<Rightarrow>
     ('p hop \<Rightarrow> u256 \<Rightarrow> 's sim_config_scheme \<Rightarrow> ('p, 'e) search_error + u256) \<Rightarrow>
     ('p, 'i, 'v, 't) quote_key_context \<Rightarrow> ('p, 'i \<times> 'v \<times> 't) quote_cache \<Rightarrow> bool" where
  "cache_good R missing price context c \<longleftrightarrow>
     (\<forall>key. qc_entries c key \<noteq> Some InFlight) \<and>
     (\<forall>h a sim key e. quote_key missing context h a sim = Inr key \<longrightarrow>
        qc_entries c key = Some (ReadyEntry e) \<longrightarrow> into_result e = rendered R (price h a sim))"

definition cached_price ::
  "('p, 'a, 'c, 's, 'e) adapter_registry \<Rightarrow> ('p \<Rightarrow> string) \<Rightarrow>
     ('p hop \<Rightarrow> u256 \<Rightarrow> 's sim_config_scheme \<Rightarrow> ('p, 'e) search_error + u256) \<Rightarrow>
     ('p, 'i, 'v, 't) quote_key_context \<Rightarrow> 's sim_config_scheme \<Rightarrow> 'p hop \<Rightarrow> u256 \<Rightarrow> string + u256" where
  "cached_price R missing price context sim h a =
     and_then (quote_key missing context h a sim) (\<lambda>_. rendered R (price h a sim))"

lemma cache_good_empty: "cache_good R missing price context empty_cache"
  by (simp add: cache_good_def empty_cache_def)

lemma begin_cases:
  assumes "qc_entries c key \<noteq> Some InFlight"
  obtains entry where "qc_entries c key = Some (ReadyEntry entry)"
      "cache_begin ref_pool key c = (Hit entry, c\<lparr>qc_stats := (qc_stats c)\<lparr>qs_hits := Suc (qs_hits (qc_stats c))\<rparr>\<rparr>)"
    | c' where "qc_entries c key = None" "cache_begin ref_pool key c = (Started, c')"
      "qc_entries c' = (qc_entries c)(key \<mapsto> InFlight)"
proof (cases "qc_entries c key")
  case None
  then show thesis by (intro that(2)) (auto simp: cache_begin_def)
next
  case (Some s)
  then show thesis using assms by (cases s) (auto simp: cache_begin_def intro!: that(1))
qed

lemma cache_good_publish:
  assumes "context_names_pools ref_pool context" and "sim_key_sufficient price"
    and "cache_good R missing price context c" and "quote_key missing context h a sim = Inr key"
    and "qc_entries c' = (qc_entries c)(key \<mapsto> InFlight)"
  shows "cache_good R missing price context (cache_publish key (entry_of (rendered R (price h a sim))) c')"
proof -
  let ?c = "cache_publish key (entry_of (rendered R (price h a sim))) c'"
  have e: "qc_entries ?c = (qc_entries c)(key \<mapsto> ReadyEntry (entry_of (rendered R (price h a sim))))"
    using assms(5) by (auto simp: publish_entries)
  have "price h a sim = price h' a' sim'" if "quote_key missing context h' a' sim' = Inr key" for h' a' sim'
    using quote_key_inj [OF assms(1,4) that] assms(2) unfolding sim_key_sufficient_def by metis
  moreover have "qc_entries c k \<noteq> Some InFlight" for k
    using assms(3) by (simp add: cache_good_def)
  moreover have "into_result e = rendered R (price h' a' sim')"
    if "quote_key missing context h' a' sim' = Inr k" "qc_entries c k = Some (ReadyEntry e)" for h' a' sim' k e
    using assms(3) that by (simp add: cache_good_def)
  ultimately show ?thesis unfolding cache_good_def e by (simp split: if_splits)
qed

lemma cached_hop_quoter:
  fixes R :: "('p, 'a, 'c, 's, 'e) adapter_registry"
    and await :: "('p, 'i \<times> 'v \<times> 't) hop_quote_key \<Rightarrow> 'c \<Rightarrow> ('p, 'i \<times> 'v \<times> 't) quote_cache \<Rightarrow>
        (string + u256) \<times> 'c \<times> ('p, 'i \<times> 'v \<times> 't) quote_cache"
  assumes det: "adapters_deterministic R price" and names: "context_names_pools ref_pool context"
    and simk: "sim_key_sufficient price"
  shows "hop_quoter (quote_hop_with_cache R missing ref_pool await context sim)
    (cached_price R missing price context sim) (\<lambda>w. cache_good R missing price context (snd w))"
proof
  fix w :: "'c \<times> ('p, 'i \<times> 'v \<times> 't) quote_cache" and h :: "'p hop" and amount :: u256
  assume good: "cache_good R missing price context (snd w)"
  obtain cache c where w: "w = (cache, c)" by fastforce
  let ?q = "quote_hop_with_cache R missing ref_pool await context sim h amount w"
  have "fst ?q = cached_price R missing price context sim h amount \<and>
      cache_good R missing price context (snd (snd ?q))"
  proof (cases "quote_key missing context h amount sim")
    case (Inl reason)
    then show ?thesis using good by (simp add: quote_hop_with_cache_def cached_price_def)
  next
    case (Inr key)
    have "qc_entries c key \<noteq> Some InFlight" using good w by (simp add: cache_good_def)
    then show ?thesis
    proof (cases rule: begin_cases [of _ _ ref_pool])
      case (1 entry)
      then have "into_result entry = rendered R (price h amount sim)"
        using good Inr w by (auto simp: cache_good_def)
      with 1 Inr w good show ?thesis
        by (simp add: quote_hop_with_cache_def get_or_quote_def cached_price_def cache_good_def)
    next
      case (2 c')
      obtain cache' where "simulate_hop R h amount cache sim = (price h amount sim, cache')"
        by (rule simulate_hop_price [OF det])
      then have "quote_hop_uncached R h amount cache sim = (rendered R (price h amount sim), cache')"
        by (simp add: quote_hop_uncached_def rendered_def split: sum.split)
      moreover have "cache_good R missing price context (cache_publish key (entry_of (rendered R (price h amount sim))) c')"
        using cache_good_publish [OF names simk _ Inr 2(3)] good w by simp
      ultimately show ?thesis using 2 Inr w
        by (simp add: quote_hop_with_cache_def get_or_quote_def cached_price_def)
    qed
  qed
  then show "fst ?q = cached_price R missing price context sim h amount"
    and "cache_good R missing price context (snd (snd ?q))" by simp_all
qed

text \<open>The adapters and the snapshot a search quotes against, as an interface; the cached quoter
  provides the hop quoter path evaluation needs.\<close>

locale quoting_backend =
  fixes R :: "('p, 'a, 'c, 's, 'e) adapter_registry"
    and price :: "'p hop \<Rightarrow> u256 \<Rightarrow> 's sim_config_scheme \<Rightarrow> ('p, 'e) search_error + u256"
    and missing :: "'p \<Rightarrow> string"
    and ref_pool :: "'i \<times> 'v \<times> 't \<Rightarrow> 'p"
    and await :: "('p, 'i \<times> 'v \<times> 't) hop_quote_key \<Rightarrow> 'c \<Rightarrow> ('p, 'i \<times> 'v \<times> 't) quote_cache \<Rightarrow>
        (string + u256) \<times> 'c \<times> ('p, 'i \<times> 'v \<times> 't) quote_cache"
    and ctx :: "('p, 'i, 'v, 't) quote_key_context"
    and sim :: "'s sim_config_scheme"
  assumes deterministic: "adapters_deterministic R price"
    and names_pools: "context_names_pools ref_pool ctx"
    and key_sufficient: "sim_key_sufficient price"

sublocale quoting_backend \<subseteq> hop_quoter "quote_hop_with_cache R missing ref_pool await ctx sim"
  "cached_price R missing price ctx sim" "\<lambda>w. cache_good R missing price ctx (snd w)"
  by (rule cached_hop_quoter [OF deterministic names_pools key_sufficient])

section \<open>Agreement with quoting each path\<close>

lemma price_hops_rendered:
  assumes "\<forall>h \<in> set hs. \<forall>a. f h a = rendered R (g h a)"
  shows "price_hops f a hs = rendered R (price_hops g a hs)"
  using assms by (induction hs arbitrary: a) (auto split: sum.splits prod.splits simp: rendered_def)

lemma price_path_rendered:
  assumes "\<forall>h \<in> set path. \<forall>a. f h a = rendered R (g h a)"
  shows "price_path f a path = rendered R (price_path g a path)"
  using price_hops_rendered [OF assms] by (auto simp: price_path_def rendered_def split: sum.splits prod.splits)

definition path_result ::
  "('p, 'a, 'c, 's, 'e) adapter_registry \<Rightarrow> u256 \<Rightarrow> 'c \<Rightarrow> 's sim_config_scheme \<Rightarrow> 'p route_path \<Rightarrow>
     ('p, 'e) search_error + 'p route_quote" where
  "path_result R amount cache sim p = fst (quote_path_with_registry R p amount cache sim)"

text \<open>The quotes and failures of a list of paths quoted one by one.\<close>

definition direct_quotes ::
  "('p, 'a, 'c, 's, 'e) adapter_registry \<Rightarrow> u256 \<Rightarrow> 'c \<Rightarrow> 's sim_config_scheme \<Rightarrow> 'p route_path list \<Rightarrow>
     'p route_quote list" where
  "direct_quotes R amount cache sim ps =
     concat (map (\<lambda>p. case path_result R amount cache sim p of Inr q \<Rightarrow> [q] | Inl _ \<Rightarrow> []) ps)"

definition direct_failures ::
  "('p, 'a, 'c, 's, 'e) adapter_registry \<Rightarrow> u256 \<Rightarrow> 'c \<Rightarrow> 's sim_config_scheme \<Rightarrow> 'p route_path list \<Rightarrow>
     'p path_failure list" where
  "direct_failures R amount cache sim ps =
     concat (map (\<lambda>p. case path_result R amount cache sim p of
                        Inl err \<Rightarrow> [\<lparr>pf_path = p, pf_reason = ar_render R err\<rparr>] | Inr _ \<Rightarrow> []) ps)"

lemma direct_Cons:
  "direct_quotes R amount cache sim (p # ps) =
     (case path_result R amount cache sim p of Inr q \<Rightarrow> [q] | Inl _ \<Rightarrow> []) @ direct_quotes R amount cache sim ps"
  "direct_failures R amount cache sim (p # ps) =
     (case path_result R amount cache sim p of
        Inl err \<Rightarrow> [\<lparr>pf_path = p, pf_reason = ar_render R err\<rparr>] | Inr _ \<Rightarrow> []) @ direct_failures R amount cache sim ps"
  by (simp_all add: direct_quotes_def direct_failures_def)

lemma priced_direct:
  assumes "\<And>p. p \<in> set ps \<Longrightarrow> p \<noteq> [] \<Longrightarrow> price_path f amount p = rendered R (path_result R amount cache sim p)"
  shows "priced f amount (filter (\<lambda>p. p \<noteq> []) ps) = direct_quotes R amount cache sim ps"
    and "mset (map (\<lambda>p. \<lparr>pf_path = p, pf_reason = ar_render R EmptyPath\<rparr>) (filter (\<lambda>p. p = []) ps)) +
      mset (unpriced f amount (filter (\<lambda>p. p \<noteq> []) ps)) = mset (direct_failures R amount cache sim ps)"
proof -
  have e: "path_result R amount cache sim [] = Inl EmptyPath"
    by (simp add: path_result_def quote_path_with_registry_def)
  have "priced f amount (filter (\<lambda>p. p \<noteq> []) ps) = direct_quotes R amount cache sim ps \<and>
    mset (map (\<lambda>p. \<lparr>pf_path = p, pf_reason = ar_render R EmptyPath\<rparr>) (filter (\<lambda>p. p = []) ps)) +
      mset (unpriced f amount (filter (\<lambda>p. p \<noteq> []) ps)) = mset (direct_failures R amount cache sim ps)"
    using assms
  proof (induction ps)
    case Nil
    then show ?case by (simp add: direct_quotes_def direct_failures_def)
  next
    case (Cons p ps)
    then have ih: "priced f amount (filter (\<lambda>p. p \<noteq> []) ps) = direct_quotes R amount cache sim ps"
      "mset (map (\<lambda>p. \<lparr>pf_path = p, pf_reason = ar_render R EmptyPath\<rparr>) (filter (\<lambda>p. p = []) ps)) +
       mset (unpriced f amount (filter (\<lambda>p. p \<noteq> []) ps)) = mset (direct_failures R amount cache sim ps)" by simp_all
    show ?case
    proof (cases "p = []")
      case True
      then show ?thesis using ih e by (simp add: direct_Cons)
    next
      case False
      then have "price_path f amount p = rendered R (path_result R amount cache sim p)" using Cons.prems by simp
      then show ?thesis using ih False
        by (cases "path_result R amount cache sim p")
          (simp_all add: direct_Cons priced_def unpriced_def union_mset_add_mset_right [symmetric] del: union_mset_add_mset_right)
    qed
  qed
  then show "priced f amount (filter (\<lambda>p. p \<noteq> []) ps) = direct_quotes R amount cache sim ps"
    and "mset (map (\<lambda>p. \<lparr>pf_path = p, pf_reason = ar_render R EmptyPath\<rparr>) (filter (\<lambda>p. p = []) ps)) +
      mset (unpriced f amount (filter (\<lambda>p. p \<noteq> []) ps)) = mset (direct_failures R amount cache sim ps)" by blast+
qed

section \<open>Properties\<close>

text \<open>C9. Shared evaluation is exact: over deterministic adapters and a good cache, evaluating a
  batch of paths through the prefix tree and the quote cache yields, up to order, exactly the
  quotes and the rendered failures that quoting each path on its own yields, whatever state
  the adapter cache is in, and leaves the quote cache good.\<close>

theorem quote_paths_agree:
  fixes R :: "('p, 'a, 'c, 's, 'e) adapter_registry"
  assumes det: "adapters_deterministic R price" and names: "context_names_pools ref_pool context"
    and simk: "sim_key_sufficient price" and good: "cache_good R missing price context c"
    and scoped: "\<forall>p \<in> set paths. \<forall>h \<in> set p. \<exists>scope. pool_scope missing context (hop_pool h) = Inr scope"
    and run: "quote_paths (quote_hop_with_cache R missing ref_pool await context sim) (ar_render R EmptyPath)
      paths amount (cache, c) = (quotes, failures, w')"
  shows "mset quotes = mset (direct_quotes R amount any_cache sim paths) \<and>
    mset failures = mset (direct_failures R amount any_cache sim paths) \<and>
    cache_good R missing price context (snd w')"
proof -
  let ?f = "cached_price R missing price context sim"
  note hq = cached_hop_quoter [OF det names simk, of missing await sim]
  have good': "cache_good R missing price context (snd (cache, c))" using good by simp
  note res = hop_quoter.quote_paths_results [OF hq good' run]
  have "price_path ?f amount p = rendered R (path_result R amount any_cache sim p)" if p: "p \<in> set paths" "p \<noteq> []" for p
  proof -
    have "\<forall>h \<in> set p. \<forall>a. ?f h a = rendered R (price h a sim)"
      using scoped p(1) by (force simp: cached_price_def quote_key_def)
    from price_path_rendered [OF this] quote_path_price [OF det p(2)] show ?thesis
      by (simp add: path_result_def)
  qed
  from priced_direct [of paths ?f amount R any_cache sim, OF this] res show ?thesis by simp
qed

text \<open>A registry with one pool that doubles the amount.\<close>

definition demo_registry :: "(nat, unit, unit, unit, unit) adapter_registry" where
  "demo_registry =
     \<lparr>ar_pool = (\<lambda>p. if p = 2 then Some \<lparr>reg_key = 2, reg_status = Ready, reg_metadata = MetaUnknown\<rparr> else None),
      ar_protocol = (\<lambda>_. UniswapV2), ar_adapter = (\<lambda>_. Some ()),
      ar_simulate_swap = (\<lambda>_ _ cache _ _ amount _. (Inr (amount + amount), cache)),
      ar_render = (\<lambda>_. ''failed'')\<rparr>"

definition demo_price :: "nat hop \<Rightarrow> u256 \<Rightarrow> unit sim_config_scheme \<Rightarrow> (nat, unit) search_error + u256" where
  "demo_price h a sim = (if hop_pool h = 2 then Inr (a + a) else Inl (MissingPool (hop_pool h)))"

definition demo_sim :: "unit sim_config_scheme" where
  "demo_sim = \<lparr>v3_quoter = 0, v2_router = 0, sim_from = 0\<rparr>"

definition demo_path :: "nat route_path" where
  "demo_path = [\<lparr>hop_pool = 2, hop_in = 1, hop_out = 2\<rparr>]"

lemma demo_simulate:
  "simulate_hop demo_registry h a cache sim = (demo_price h a sim, cache)"
  by (simp add: simulate_hop_def demo_registry_def demo_price_def)

lemma demo_deterministic: "adapters_deterministic demo_registry demo_price" "sim_key_sufficient demo_price"
  by (simp_all add: adapters_deterministic_def demo_simulate sim_key_sufficient_def demo_price_def)

interpretation demo_backend: quoting_backend demo_registry demo_price "\<lambda>_. []" "\<lambda>_. 0"
  "\<lambda>_ w c. (Inl [], w, c)" "ContextStatic :: (nat, nat, nat, nat) quote_key_context" demo_sim
  by unfold_locales (simp_all add: demo_deterministic)

lemma demo_path_results:
  "path_result demo_registry a () sim demo_path =
     Inr \<lparr>rq_path = demo_path, rq_amount_in = a, rq_amount_out = a + a,
          rq_hops = [\<lparr>hq_hop = hd demo_path, hq_amount_in = a, hq_amount_out = a + a\<rparr>]\<rparr>"
  "path_result demo_registry a () sim [\<lparr>hop_pool = 9, hop_in = 1, hop_out = 2\<rparr>] = Inl (MissingPool 9)"
  by (simp_all add: path_result_def quote_path_with_registry_def demo_path_def demo_simulate demo_price_def)

theorem quote_paths_agree_witness:
  "\<exists>quotes failures w'.
     quote_paths (quote_hop_with_cache demo_registry (\<lambda>_. []) (\<lambda>_. 0 :: nat) (\<lambda>_ w c. (Inl [], w, c))
         (ContextStatic :: (nat, nat, nat, nat) quote_key_context) demo_sim)
       ''failed'' [demo_path, [\<lparr>hop_pool = 9, hop_in = 1, hop_out = 2\<rparr>], []] 5 ((), empty_cache)
     = (quotes, failures, w') \<and>
     image_mset rq_amount_out (mset quotes) = {#10#} \<and> size (mset failures) = 2"
proof -
  let ?ctx = "ContextStatic :: (nat, nat, nat, nat) quote_key_context"
  let ?await = "\<lambda>_ w c. (Inl [], w, c)"
  let ?ps = "[demo_path, [\<lparr>hop_pool = 9, hop_in = 1, hop_out = 2\<rparr>], []]"
  obtain quotes failures w' where run: "quote_paths (quote_hop_with_cache demo_registry (\<lambda>_. [])
      (\<lambda>_. 0 :: nat) ?await ?ctx demo_sim) (ar_render demo_registry EmptyPath) ?ps 5 ((), empty_cache)
      = (quotes, failures, w')" by (metis prod_cases3)
  have names: "context_names_pools (\<lambda>_. 0 :: nat) ?ctx" by simp
  have scoped: "\<forall>p \<in> set ?ps. \<forall>h \<in> set p. \<exists>scope. pool_scope (\<lambda>_. []) ?ctx (hop_pool h) = Inr scope" by simp
  note agree = quote_paths_agree [OF demo_deterministic(1) names demo_deterministic(2) cache_good_empty scoped run,
      where any_cache = "()"]
  have e: "path_result demo_registry 5 () demo_sim [] = Inl EmptyPath"
    by (simp add: path_result_def quote_path_with_registry_def)
  have q: "image_mset rq_amount_out (mset (direct_quotes demo_registry 5 () demo_sim ?ps)) = {#10#}"
    by (simp add: direct_quotes_def demo_path_results e)
  have f: "size (mset (direct_failures demo_registry 5 () demo_sim ?ps)) = 2"
    by (simp add: direct_failures_def demo_path_results e)
  have "image_mset rq_amount_out (mset quotes) = {#10#} \<and> size (mset failures) = 2"
    using agree q f by simp
  moreover have "ar_render demo_registry EmptyPath = ''failed''" by (simp add: demo_registry_def)
  ultimately show ?thesis using run by (cases w') auto
qed


definition demo_key :: "(nat, nat) hop_quote_key" where
  "demo_key = \<lparr>key_pool = ScopeStatic 2, key_in = 1, key_out = 2, key_amount = 5,
     key_sim = \<lparr>key_v3_quoter = 0, key_v2_router = 0, key_from = 0\<rparr>\<rparr>"

text \<open>Two workers on one key: the second waits while the first is quoting.\<close>

lemma demo_cache_run:
  "\<exists>c. cache_run (\<lambda>_. 0) (\<lambda>_. {Inr 10}) {Work} (c, (\<lambda>t. Idle)(0 := Quoting demo_key, 1 := Seeking demo_key)) \<and>
       qc_entries c demo_key = Some InFlight"
proof -
  let ?rp = "\<lambda>_ :: nat. 0 :: nat" and ?out = "\<lambda>_ :: (nat, nat) hop_quote_key. {Inr 10 :: string + u256}"
  obtain c where c: "cache_begin ?rp demo_key empty_cache = (Started, c)" "qc_entries c demo_key = Some InFlight"
    by (simp add: cache_begin_def empty_cache_def)
  have "cache_run ?rp ?out {Work} (empty_cache, (\<lambda>t. Idle)(0 := Seeking demo_key))"
    by (rule cache_run.step [OF cache_run.start, of Work]) (simp_all add: cache_step.seek)
  then have "cache_run ?rp ?out {Work} (c, ((\<lambda>t. Idle)(0 := Seeking demo_key))(0 := Quoting demo_key))"
    by (rule cache_run.step [where e = Work]) (simp, rule cache_step.miss [OF _ c(1)], simp)
  then have "cache_run ?rp ?out {Work} (c, (((\<lambda>t. Idle)(0 := Seeking demo_key))(0 := Quoting demo_key))(1 := Seeking demo_key))"
    by (rule cache_run.step [where e = Work]) (simp_all add: cache_step.seek)
  then show ?thesis using c(2) by auto
qed




text \<open>C12. Invalidation is exact: it drops the entries of the given pools, keeps every other
  entry, and keeps the pool index exact.\<close>

theorem invalidate_pools_exact:
  assumes "index_exact ref_pool c"
  shows "qc_entries (invalidate_pools pools c) =
      (\<lambda>key. if logical_pool ref_pool key \<in> pools then None else qc_entries c key) \<and>
    index_exact ref_pool (invalidate_pools pools c)"
  using invalidate_entries [OF assms] index_exact_invalidate [OF assms] by blast

theorem invalidate_pools_exact_witness:
  "\<exists>c. qc_entries c demo_key = Some InFlight \<and> qc_entries (invalidate_pools {2} c) demo_key = None \<and>
       qc_entries (invalidate_pools {3} c) demo_key = Some InFlight"
proof -
  obtain c w where "cache_run (\<lambda>_. 0) (\<lambda>_. {Inr 10}) {Work} (c, w)" and e: "qc_entries c demo_key = Some InFlight"
    using demo_cache_run by blast
  then have ix: "index_exact (\<lambda>_. 0) c" using cache_run_ok by (fastforce simp: run_ok_def)
  have "logical_pool (\<lambda>_. 0) demo_key = 2" by (simp add: logical_pool_def demo_key_def)
  with e invalidate_pools_exact [OF ix, of "{2}"] invalidate_pools_exact [OF ix, of "{3}"] show ?thesis
    by (intro exI [of _ c]) simp
qed

end
