(* ===== verification/Ranking.thy ===== *)
theory Ranking
  imports QuoteProps
begin

text \<open>
  Ranking of quoted paths, distribution of work over workers and collection of their
  results: \<^verbatim>\<open>rank_or_no_viable\<close>, \<^verbatim>\<open>split_paths\<close>, \<^verbatim>\<open>split_indexed_items\<close>,
  \<^verbatim>\<open>collect_ordered_results\<close>, \<^verbatim>\<open>quote_and_rank_with_cache\<close> and \<^verbatim>\<open>quote_and_rank_parallel\<close>.
  What a spawned worker returns on its share of the work is an argument (\<open>run_worker\<close>, \<open>None\<close>
  when its thread panicked), so the statements do not depend on the interleaving of workers.
\<close>

definition rank_or_no_viable ::
  "nat \<Rightarrow> 'p route_quote list \<Rightarrow> 'p path_failure list \<Rightarrow> ('p, 'e) search_error + 'p route_quote list" where
  "rank_or_no_viable candidates quotes failures =
     (let ranked = sort_desc rq_amount_out quotes
      in if ranked = [] then Inl (NoViableRoute candidates failures) else Inr ranked)"

text \<open>Dealing items out round robin, and dropping idle workers.\<close>

fun deal :: "nat \<Rightarrow> nat \<Rightarrow> 'a list \<Rightarrow> 'a list list \<Rightarrow> 'a list list" where
  "deal workers index [] chunks = chunks"
| "deal workers index (x # xs) chunks =
     deal workers (Suc index) xs
       (chunks[index mod workers := (chunks ! (index mod workers)) @ [x]])"

definition split_paths :: "'p route_path list \<Rightarrow> nat \<Rightarrow> 'p route_path list list" where
  "split_paths paths workers = filter (\<lambda>chunk. chunk \<noteq> []) (deal workers 0 paths (replicate workers []))"

definition split_indexed_items :: "'a list \<Rightarrow> nat \<Rightarrow> (nat \<times> 'a) list list" where
  "split_indexed_items items workers =
     filter (\<lambda>chunk. chunk \<noteq> [])
       (deal workers 0 (zip [0..<length items] items) (replicate workers []))"

definition collect_ordered_results :: "(nat \<times> 'a) list \<Rightarrow> 'a list" where
  "collect_ordered_results results = map snd (sort_key fst results)"

definition quote_and_rank_with_cache ::
  "('p hop \<Rightarrow> u256 \<Rightarrow> 'w \<Rightarrow> (string + u256) \<times> 'w) \<Rightarrow> string \<Rightarrow> 'p route_path list \<Rightarrow> u256 \<Rightarrow> 'w \<Rightarrow>
     (('p, 'e) search_error + 'p route_quote list) \<times> 'w" where
  "quote_and_rank_with_cache quote empty_reason paths amount_in w =
     (case quote_paths quote empty_reason paths amount_in w of
        (quotes, failures, w') \<Rightarrow> (rank_or_no_viable (length paths) quotes failures, w'))"

text \<open>Joining the workers in spawn order; the first panicked one is an error.\<close>

fun join_workers :: "('x list \<times> 'y list) option list \<Rightarrow> ('p, 'e) search_error + 'x list \<times> 'y list" where
  "join_workers [] = Inr ([], [])"
| "join_workers (None # rs) = Inl WorkerPanic"
| "join_workers (Some (qs, fs) # rs) =
     and_then (join_workers rs) (\<lambda>(qs', fs'). Inr (qs @ qs', fs @ fs'))"

definition validate_parallel :: "nat \<Rightarrow> ('p, 'e) search_error + unit" where
  "validate_parallel workers = ensure (workers \<noteq> 0) ''workers must be at least 1''"

definition quote_and_rank_parallel ::
  "nat \<Rightarrow> ('p route_path list \<Rightarrow> 'p route_quote list \<times> 'p path_failure list) \<Rightarrow>
     (nat \<Rightarrow> 'p route_path list \<Rightarrow> ('p route_quote list \<times> 'p path_failure list) option) \<Rightarrow>
     'p route_path list \<Rightarrow> ('p, 'e) search_error + 'p route_quote list" where
  "quote_and_rank_parallel workers inline run_worker paths =
     and_then (validate_parallel workers) (\<lambda>_.
       let candidates = length paths;
           worker_count = min workers (max candidates 1);
           chunks = split_paths paths worker_count
       in if worker_count = 1
          then (case inline (case chunks of [] \<Rightarrow> [] | chunk # _ \<Rightarrow> chunk) of
                  (quotes, failures) \<Rightarrow> rank_or_no_viable candidates quotes failures)
          else and_then (join_workers (map (\<lambda>(i, chunk). run_worker i chunk) (zip [0..<length chunks] chunks)))
                 (\<lambda>(quotes, failures). rank_or_no_viable candidates quotes failures))"

section \<open>Dealing is a partition\<close>

lemma length_deal [simp]: "length (deal workers index xs chunks) = length chunks"
  by (induction xs arbitrary: index chunks) simp_all

lemma mset_concat_update:
  "i < length chunks \<Longrightarrow> mset (concat (chunks[i := chunks ! i @ [x]])) = add_mset x (mset (concat chunks))"
proof (induction chunks arbitrary: i)
  case (Cons c cs)
  then show ?case by (cases i) simp_all
qed simp

lemma mset_deal:
  assumes "0 < workers" and "length chunks = workers"
  shows "mset (concat (deal workers index xs chunks)) = mset (concat chunks) + mset xs"
  using assms(2)
proof (induction xs arbitrary: index chunks)
  case (Cons x xs)
  have "index mod workers < length chunks" using assms(1) Cons.prems by simp
  then show ?case using Cons.IH [of "chunks[index mod workers := (chunks ! (index mod workers)) @ [x]]" "Suc index"] Cons.prems
    by (simp add: mset_concat_update)
qed simp

lemma concat_filter_nonempty: "concat (filter (\<lambda>chunk. chunk \<noteq> []) chunks) = concat chunks"
  by (induction chunks) auto

lemma split_paths_partition: "0 < workers \<Longrightarrow> mset (concat (split_paths paths workers)) = mset paths"
  by (simp add: split_paths_def concat_filter_nonempty mset_deal)

lemma split_indexed_partition:
  "0 < workers \<Longrightarrow> mset (concat (split_indexed_items items workers)) = mset (zip [0..<length items] items)"
  by (simp add: split_indexed_items_def concat_filter_nonempty mset_deal)

lemma collect_sorted:
  assumes "mset results = mset (zip [0..<length xs] xs)"
  shows "collect_ordered_results results = xs"
proof -
  let ?z = "zip [0..<length xs] xs"
  have z: "sorted (map fst ?z)" "distinct (map fst ?z)" by simp_all
  have m: "mset (sort_key fst results) = mset ?z" using assms by simp
  have d: "distinct (map fst (sort_key fst results))"
    using z(2) m by (metis mset_eq_imp_distinct_iff mset_map)
  have "set (sort_key fst results) = set ?z" using m by (metis set_mset_mset)
  moreover have "inj_on fst (set ?z)" using z(2) distinct_map by blast
  ultimately have "sort_key fst results = ?z"
    using z d by (intro map_sorted_distinct_set_unique [of fst]) simp_all
  then show ?thesis by (simp add: collect_ordered_results_def)
qed

lemma mset_map_concat_chunks:
  "mset (concat (map (map f) chunks)) = image_mset f (mset (concat chunks))"
  by (induction chunks) simp_all

lemma mset_zip_map:
  "image_mset (\<lambda>(i, x). (i, f x)) (mset (zip [0..<length xs] xs)) = mset (zip [0..<length (map f xs)] (map f xs))"
  by (simp add: zip_map2 flip: mset_map)

section \<open>Joining\<close>

lemma join_workers_Some:
  "join_workers (map (\<lambda>r. Some (f r, g r)) rs) = Inr (concat (map f rs), concat (map g rs))"
  by (induction rs) simp_all

lemma zip_upt_map: "map (\<lambda>(i, c). h c) (zip [0..<length cs] cs) = map h cs"
  by (metis (mono_tags, lifting) case_prod_unfold length_upt map_eq_conv map_map map_snd_zip comp_apply diff_zero)

section \<open>Ranking\<close>

lemma rank_or_no_viable_Inr:
  "rank_or_no_viable n quotes failures = Inr ranked \<longleftrightarrow> quotes \<noteq> [] \<and> ranked = sort_desc rq_amount_out quotes"
  by (auto simp: rank_or_no_viable_def Let_def)

text \<open>A ranking of a multiset of quotes: best first, nothing lost, nothing added.\<close>

definition ranks :: "'p route_quote list \<Rightarrow> 'p route_quote list \<Rightarrow> bool" where
  "ranks quotes ranked \<longleftrightarrow> descending rq_amount_out ranked \<and> mset ranked = mset quotes"

lemma ranks_best: "ranks quotes ranked \<Longrightarrow> q \<in> set quotes \<Longrightarrow> rq_amount_out q \<le> rq_amount_out (hd ranked)"
  unfolding ranks_def by (metis descending_hd set_mset_mset)

lemma rank_or_no_viable_cases:
  assumes "mset quotes = mset all" and "mset failures = mset bad"
  shows "case (rank_or_no_viable n quotes failures :: ('p, 'e) search_error + 'p route_quote list) of
      Inr ranked \<Rightarrow> ranks all ranked \<and> ranked \<noteq> []
    | Inl err \<Rightarrow> all = [] \<and> (\<exists>fs. err = NoViableRoute n fs \<and> mset fs = mset bad)"
  using assms by (auto simp: rank_or_no_viable_def Let_def ranks_def)

section \<open>Properties\<close>

text \<open>C13. Batch results keep the order of the requests: dealing the requests round robin to any
  positive number of workers, answering every request, and collecting the answers by index
  gives the answers in request order, one per request.\<close>

theorem batch_results_ordered:
  assumes "0 < workers"
  shows "collect_ordered_results
      (concat (map (map (\<lambda>(i, x). (i, answer x))) (split_indexed_items items workers))) = map answer items"
  by (rule collect_sorted)
    (simp only: mset_map_concat_chunks split_indexed_partition [OF assms] mset_zip_map)

theorem batch_results_ordered_witness:
  "collect_ordered_results
     (concat (map (map (\<lambda>(i, x). (i, 2 * x))) (split_indexed_items [10, 11, 12, 13, 14 :: nat] 2))) = [20, 22, 24, 26, 28]"
  using batch_results_ordered [of 2 "\<lambda>x. 2 * x" "[10, 11, 12, 13, 14 :: nat]"] by simp

text \<open>The work of one worker, as a total function of its view of the quoting service.\<close>

definition worker_share ::
  "('p hop \<Rightarrow> u256 \<Rightarrow> 'w \<Rightarrow> (string + u256) \<times> 'w) \<Rightarrow> string \<Rightarrow> u256 \<Rightarrow> 'w \<Rightarrow> 'p route_path list \<Rightarrow>
     'p route_quote list \<times> 'p path_failure list" where
  "worker_share quote reason amount w chunk =
     (case quote_paths quote reason chunk amount w of (quotes, failures, _) \<Rightarrow> (quotes, failures))"

definition share_quotes :: "('p hop \<Rightarrow> u256 \<Rightarrow> string + u256) \<Rightarrow> u256 \<Rightarrow> 'p route_path list \<Rightarrow> 'p route_quote list" where
  "share_quotes price amount ps = priced price amount (filter (\<lambda>p. p \<noteq> []) ps)"

definition share_failures ::
  "('p hop \<Rightarrow> u256 \<Rightarrow> string + u256) \<Rightarrow> string \<Rightarrow> u256 \<Rightarrow> 'p route_path list \<Rightarrow> 'p path_failure list" where
  "share_failures price reason amount ps =
     map (\<lambda>p. \<lparr>pf_path = p, pf_reason = reason\<rparr>) (filter (\<lambda>p. p = []) ps) @
     unpriced price amount (filter (\<lambda>p. p \<noteq> []) ps)"

lemma worker_share_results:
  assumes "hop_quoter quote price good" and "good w" and "worker_share quote reason amount w chunk = (qs, fs)"
  shows "mset qs = mset (share_quotes price amount chunk)" and "mset fs = mset (share_failures price reason amount chunk)"
proof -
  obtain w' where "quote_paths quote reason chunk amount w = (qs, fs, w')"
    using assms(3) by (auto simp: worker_share_def split: prod.splits)
  from hop_quoter.quote_paths_results [OF assms(1,2) this]
  show "mset qs = mset (share_quotes price amount chunk)" and "mset fs = mset (share_failures price reason amount chunk)"
    by (simp_all add: share_quotes_def share_failures_def)
qed

lemma share_append:
  "mset (share_quotes price amount (xs @ ys)) = mset (share_quotes price amount xs) + mset (share_quotes price amount ys)"
  "mset (share_failures price reason amount (xs @ ys)) =
     mset (share_failures price reason amount xs) + mset (share_failures price reason amount ys)"
  by (simp_all add: share_quotes_def share_failures_def)

lemma share_perm:
  assumes "mset xs = mset ys"
  shows "mset (share_quotes price amount xs) = mset (share_quotes price amount ys)"
    and "mset (share_failures price reason amount xs) = mset (share_failures price reason amount ys)"
proof -
  have f: "mset (filter P xs) = mset (filter P ys)" for P using assms by simp
  show "mset (share_quotes price amount xs) = mset (share_quotes price amount ys)"
    unfolding share_quotes_def by (rule priced_perm(1) [OF f])
  show "mset (share_failures price reason amount xs) = mset (share_failures price reason amount ys)"
    unfolding share_failures_def mset_append mset_map f
    by (simp only: priced_perm(2) [OF f])
qed

lemma workers_share:
  assumes "\<forall>i chunk. mset (fst (f i chunk)) = mset (share_quotes price amount chunk) \<and>
      mset (snd (f i chunk)) = mset (share_failures price reason amount chunk)"
  shows "\<exists>qs fs. join_workers (map (\<lambda>(i, chunk). Some (f i chunk)) ics) = Inr (qs, fs) \<and>
    mset qs = mset (share_quotes price amount (concat (map snd ics))) \<and>
    mset fs = mset (share_failures price reason amount (concat (map snd ics)))"
proof (induction ics)
  case Nil
  show ?case by (simp add: share_quotes_def share_failures_def)
next
  case (Cons ic ics)
  obtain i chunk q0 f0 where e: "ic = (i, chunk)" "f i chunk = (q0, f0)" by (metis surj_pair)
  with assms have "mset q0 = mset (share_quotes price amount chunk)" "mset f0 = mset (share_failures price reason amount chunk)"
    by (metis fst_conv, metis snd_conv)
  with Cons e show ?case by (auto simp: share_append)
qed

lemma parallel_ranking_cases:
  assumes "0 < workers"
    and views: "\<forall>i. hop_quoter (quote i) price (good i) \<and> good i (world i)"
  shows "case (quote_and_rank_parallel workers (worker_share (quote 0) reason amount (world 0))
                 (\<lambda>i chunk. Some (worker_share (quote i) reason amount (world i) chunk)) paths
                 :: ('p, 'e) search_error + 'p route_quote list) of
      Inr ranked \<Rightarrow> ranks (share_quotes price amount paths) ranked \<and> ranked \<noteq> []
    | Inl err \<Rightarrow> share_quotes price amount paths = [] \<and>
        (\<exists>fs. err = NoViableRoute (length paths) fs \<and> mset fs = mset (share_failures price reason amount paths))"
proof -
  let ?wc = "min workers (max (length paths) 1)" and ?f = "\<lambda>i. worker_share (quote i) reason amount (world i)"
  let ?chunks = "split_paths paths ?wc"
  have share: "\<forall>i chunk. mset (fst (?f i chunk)) = mset (share_quotes price amount chunk) \<and>
      mset (snd (?f i chunk)) = mset (share_failures price reason amount chunk)"
    using views worker_share_results by (metis prod.collapse)
  have part: "mset (concat ?chunks) = mset paths" using assms(1) by (intro split_paths_partition) simp
  note perm = share_perm [OF part]
  have r: "quote_and_rank_parallel workers (?f 0) (\<lambda>i chunk. Some (?f i chunk)) paths =
      (if ?wc = 1 then (case ?f 0 (case ?chunks of [] \<Rightarrow> [] | c # _ \<Rightarrow> c) of
          (qs, fs) \<Rightarrow> rank_or_no_viable (length paths) qs fs)
       else and_then (join_workers (map (\<lambda>(i, chunk). Some (?f i chunk)) (zip [0..<length ?chunks] ?chunks)))
          (\<lambda>(qs, fs). rank_or_no_viable (length paths) qs fs :: ('p, 'e) search_error + 'p route_quote list))"
    using assms(1) by (simp add: quote_and_rank_parallel_def validate_parallel_def Let_def)
  obtain qs fs where q: "(quote_and_rank_parallel workers (?f 0) (\<lambda>i chunk. Some (?f i chunk)) paths
      :: ('p, 'e) search_error + 'p route_quote list) = rank_or_no_viable (length paths) qs fs"
    "mset qs = mset (share_quotes price amount paths)" "mset fs = mset (share_failures price reason amount paths)"
  proof (cases "?wc = 1")
    case True
    let ?c = "case ?chunks of [] \<Rightarrow> [] | c # _ \<Rightarrow> c"
    have "length ?chunks \<le> 1" using True length_filter_le [of _ "deal ?wc 0 paths (replicate ?wc [])"]
      by (simp add: split_paths_def)
    then have "?c = concat ?chunks" by (cases ?chunks) auto
    then have "mset (fst (?f 0 ?c)) = mset (share_quotes price amount paths)"
      "mset (snd (?f 0 ?c)) = mset (share_failures price reason amount paths)"
      using share perm by simp_all
    then show thesis using True r by (intro that [of "fst (?f 0 ?c)" "snd (?f 0 ?c)"]) (simp_all add: case_prod_unfold)
  next
    case False
    obtain qs fs where "join_workers (map (\<lambda>(i, chunk). Some (?f i chunk)) (zip [0..<length ?chunks] ?chunks))
        = (Inr (qs, fs) :: ('p, 'e) search_error + _)"
      "mset qs = mset (share_quotes price amount (concat ?chunks))"
      "mset fs = mset (share_failures price reason amount (concat ?chunks))"
      using workers_share [OF share, of "zip [0..<length ?chunks] ?chunks"] by auto
    then show thesis using False r perm by (intro that [of qs fs]) simp_all
  qed
  show ?thesis unfolding q(1) by (rule rank_or_no_viable_cases [OF q(2,3)])
qed



end
