(* ===== verification/Heuristic.thy ===== *)
theory Heuristic
  imports HeuristicRules QuoteDag Ranking
begin

text \<open>
  The heuristic route search, \<^verbatim>\<open>find_routes_heuristic_with_cache_observed\<close> of \<^verbatim>\<open>src/search.rs\<close>:
  the fast lane, then one or two passes of frontier expansion, then ranking and optional
  re-quoting of the finalists. Hops are quoted through a stateful service \<open>hx_quote\<close> (the quote
  cache over the adapters) and every quote goes to an optional observer. The \<^verbatim>\<open>expect\<close> on the
  output token of a hop is the flow value \<open>Panicked\<close>; the whole search then has no result
  (\<open>None\<close>). The frontier loop is a total function: each round's prefixes are one hop longer and
  shorter than the hop limit.
\<close>

section \<open>Context and locals\<close>

record ('g, 'p, 'a, 'c, 's, 'e, 'w, 'o) heuristic_ctx =
  hx_searcher :: "('g, 'p, 'a, 'c, 's, 'e) amm_searcher"
  hx_ends :: search_ends
  hx_amount :: u256
  hx_config :: search_config
  hx_heuristic :: heuristic_config
  hx_quote :: "'p hop \<Rightarrow> u256 \<Rightarrow> 'w \<Rightarrow> (string + u256) \<times> 'w"
  hx_on_quote :: "('p route_quote \<Rightarrow> 'o \<Rightarrow> bool \<times> 'o) option"

record ('p, 'w, 'o) heuristic_locals =
  hl_quotes :: "'p route_quote list"
  hl_failures :: "'p path_failure list"
  hl_evaluated :: "'p route_path set"
  hl_incumbent :: "u256 option"
  hl_stopped :: bool
  hl_dominance :: "'p dominance_index"
  hl_stats :: liquidity_prune_stats
  hl_world :: 'w
  hl_observer :: 'o
  hl_deferred :: bool
  hl_next :: "'p heuristic_state list"

datatype flow = Onward | BreakSearch | Panicked

definition max_candidates_reached :: "nat \<Rightarrow> search_config \<Rightarrow> bool" where
  "max_candidates_reached n config \<longleftrightarrow> (case max_candidates config of None \<Rightarrow> False | Some m \<Rightarrow> m \<le> n)"

definition raise_incumbent :: "u256 \<Rightarrow> u256 option \<Rightarrow> u256 option" where
  "raise_incumbent amount best = Some (case best of None \<Rightarrow> amount | Some b \<Rightarrow> max b amount)"

abbreviation prune_count :: "liquidity_prune_stats \<Rightarrow> nat \<Rightarrow> liquidity_prune_stats" where
  "prune_count stats n \<equiv> merge_stats stats (no_prune_stats\<lparr>prefix_dominated_states := n\<rparr>)"

definition state_label ::
  "('g, 'p, 'a, 'c, 's, 'e) amm_searcher \<Rightarrow> search_ends \<Rightarrow> nat \<Rightarrow> u256 \<Rightarrow> address set \<Rightarrow> 'p set \<Rightarrow> 'p prefix_label" where
  "state_label S E node amount visited used =
     \<lparr>pl_amount = amount, pl_visited = visited, pl_used = future_blocked_pools S E node visited used\<rparr>"

section \<open>Taking a quoted hop\<close>

text \<open>A hop that reaches the target: a new route of admissible length is observed and kept.\<close>

definition close_route ::
  "('g, 'p, 'a, 'c, 's, 'e, 'w, 'o) heuristic_ctx \<Rightarrow> 'p route_path \<Rightarrow> 'p hop_quote list \<Rightarrow> u256 \<Rightarrow>
     ('p, 'w, 'o) heuristic_locals \<Rightarrow> flow \<times> ('p, 'w, 'o) heuristic_locals" where
  "close_route X path hops amount l =
     (if length path < min_hops (hx_config X) \<or> path \<in> hl_evaluated l then (Onward, l)
      else
        (let quote = \<lparr>rq_path = path, rq_amount_in = hx_amount X, rq_amount_out = amount, rq_hops = hops\<rparr>;
             (keep, obs) = notify (hx_on_quote X) quote (hl_observer l);
             l1 = l\<lparr>hl_evaluated := insert path (hl_evaluated l),
                    hl_incumbent := raise_incumbent amount (hl_incumbent l),
                    hl_quotes := hl_quotes l @ [quote], hl_observer := obs\<rparr>
         in if \<not> keep then (BreakSearch, l1\<lparr>hl_stopped := True\<rparr>)
            else if max_candidates_reached (length (hl_quotes l1)) (hx_config X) then (BreakSearch, l1)
            else (Onward, l1)))"

text \<open>A hop to another token: the longer prefix joins the next frontier unless a recorded prefix
  dominates it.\<close>

definition extend_prefix ::
  "('g, 'p, 'a, 'c, 's, 'e, 'w, 'o) heuristic_ctx \<Rightarrow> 'p heuristic_state \<Rightarrow>
     ('p, 'w, 'o) heuristic_locals \<Rightarrow> ('p, 'w, 'o) heuristic_locals" where
  "extend_prefix X t l =
     (if \<not> length (hs_path t) < max_hops (hx_config X) then l
      else
        (let token = hop_out (last (hs_path t));
             label = state_label (hx_searcher X) (hx_ends X) (hs_node t) (hs_amount t) (hs_visited t) (hs_used t)
         in if prefix_dominance (hx_heuristic X)
            then (case insert_or_dominated token label (hl_dominance l) of
                    (True, D) \<Rightarrow> l\<lparr>hl_dominance := D, hl_stats := prune_count (hl_stats l) 1\<rparr>
                  | (False, D) \<Rightarrow> l\<lparr>hl_dominance := D, hl_next := hl_next l @ [t]\<rparr>)
            else l\<lparr>hl_next := hl_next l @ [t]\<rparr>))"

fun take_hops ::
  "('g, 'p, 'a, 'c, 's, 'e, 'w, 'o) heuristic_ctx \<Rightarrow> 'p heuristic_state \<Rightarrow> ('p hop \<times> u256) list \<Rightarrow>
     ('p, 'w, 'o) heuristic_locals \<Rightarrow> flow \<times> ('p, 'w, 'o) heuristic_locals" where
  "take_hops X st [] l = (Onward, l)"
| "take_hops X st ((h, out) # qs) l =
     (case node_index (se_graph (hx_searcher X)) (hop_out h) of
        None \<Rightarrow> (Panicked, l)
      | Some node \<Rightarrow>
          (let path = hs_path st @ [h];
               hops = hs_quotes st @ [\<lparr>hq_hop = h, hq_amount_in = hs_amount st, hq_amount_out = out\<rparr>]
           in if node = se_target (hx_ends X)
              then (case close_route X path hops out l of
                      (Onward, l1) \<Rightarrow> take_hops X st qs l1
                    | (flow, l1) \<Rightarrow> (flow, l1))
              else take_hops X st qs
                     (extend_prefix X
                        \<lparr>hs_node = node, hs_path = path, hs_quotes = hops, hs_amount = out,
                         hs_visited = insert (hop_out h) (hs_visited st),
                         hs_used = insert (hop_pool h) (hs_used st)\<rparr> l)))"

section \<open>Quoting a group\<close>

fun quote_ranked ::
  "('g, 'p, 'a, 'c, 's, 'e, 'w, 'o) heuristic_ctx \<Rightarrow> 'p heuristic_state \<Rightarrow> bool \<Rightarrow> 'p liquidity_ranked_hop list \<Rightarrow>
     u256 option \<Rightarrow> ('p hop \<times> u256) list \<Rightarrow> ('p, 'w, 'o) heuristic_locals \<Rightarrow>
     ('p hop \<times> u256) list \<times> ('p, 'w, 'o) heuristic_locals" where
  "quote_ranked X st closes [] best quoted l = (quoted, l)"
| "quote_ranked X st closes (r # rs) best quoted l =
     (case should_prune_liquidity_hop (hx_searcher X) r best (liquidity_pruning (hx_config X)) closes (hl_stats l) of
        (True, stats) \<Rightarrow> quote_ranked X st closes rs best quoted (l\<lparr>hl_stats := stats\<rparr>)
      | (False, stats) \<Rightarrow>
          (case hx_quote X (rh_hop r) (hs_amount st) (hl_world l) of
             (Inr out, w) \<Rightarrow>
               quote_ranked X st closes rs (raise_incumbent out best) (quoted @ [(rh_hop r, out)])
                 (l\<lparr>hl_stats := stats, hl_world := w\<rparr>)
           | (Inl reason, w) \<Rightarrow>
               quote_ranked X st closes rs best quoted
                 (l\<lparr>hl_stats := stats, hl_world := w,
                    hl_failures := hl_failures l @ [\<lparr>pf_path = hs_path st @ [rh_hop r], pf_reason = reason\<rparr>]\<rparr>)))"

definition retain_limit :: "heuristic_config \<Rightarrow> heuristic_pass_mode \<Rightarrow> nat" where
  "retain_limit h mode = (if sl_enabled (edge_shortlist h) then edge_limit mode h else parallel_edge_limit h)"

definition quote_group ::
  "('g, 'p, 'a, 'c, 's, 'e, 'w, 'o) heuristic_ctx \<Rightarrow> heuristic_pass_mode \<Rightarrow> bool \<Rightarrow> 'p heuristic_state \<Rightarrow>
     'p hop_group \<Rightarrow> ('p, 'w, 'o) heuristic_locals \<Rightarrow> ('p hop \<times> u256) list \<times> ('p, 'w, 'o) heuristic_locals" where
  "quote_group X mode refines st grp l =
     (let h = hx_heuristic X;
          (ranked, stats1) = liquidity_ranked_hops (hx_searcher X) (hg_hops grp) (edge_shortlist h)
                               (liquidity_pruning (hx_config X)) (hl_stats l);
          defers = (mode = InitialPass \<and> refines \<and> sl_enabled (edge_shortlist h) \<and> edge_limit mode h < length ranked);
          (shortlist, stats2) = shortlisted_ranked_hops ranked h mode stats1;
          (quoted, l1) = quote_ranked X st (hg_closes grp) shortlist None []
                           (l\<lparr>hl_stats := stats2, hl_deferred := hl_deferred l \<or> defers\<rparr>)
      in (take (retain_limit h mode) (sort_desc snd quoted), l1))"

fun expand_groups ::
  "('g, 'p, 'a, 'c, 's, 'e, 'w, 'o) heuristic_ctx \<Rightarrow> heuristic_pass_mode \<Rightarrow> bool \<Rightarrow> 'p heuristic_state \<Rightarrow>
     'p hop_group list \<Rightarrow> ('p, 'w, 'o) heuristic_locals \<Rightarrow> flow \<times> ('p, 'w, 'o) heuristic_locals" where
  "expand_groups X mode refines st [] l = (Onward, l)"
| "expand_groups X mode refines st (grp # gs) l =
     (case quote_group X mode refines st grp l of
        (quoted, l1) \<Rightarrow>
          (case take_hops X st quoted l1 of
             (Onward, l2) \<Rightarrow> expand_groups X mode refines st gs l2
           | (flow, l2) \<Rightarrow> (flow, l2)))"

section \<open>Expanding the frontier\<close>

text \<open>Whether a prefix is dropped before expansion: too long, bounded away, of an unknown token, or
  strictly dominated.\<close>

definition skip_state ::
  "('g, 'p, 'a, 'c, 's, 'e, 'w, 'o) heuristic_ctx \<Rightarrow> 'p heuristic_state \<Rightarrow>
     ('p, 'w, 'o) heuristic_locals \<Rightarrow> bool \<times> ('p, 'w, 'o) heuristic_locals" where
  "skip_state X st l =
     (if max_hops (hx_config X) \<le> length (hs_path st) then (True, l)
      else
        (let S = hx_searcher X; E = hx_ends X; h = hx_heuristic X
         in case should_prune_upper_bound_prefix S E (max_hops (hx_config X)) (upper_bound_pruning h)
                   (hl_incumbent l) st (hl_stats l) of
              (True, stats) \<Rightarrow> (True, l\<lparr>hl_stats := stats\<rparr>)
            | (False, stats) \<Rightarrow>
                (if \<not> prefix_dominance h then (False, l\<lparr>hl_stats := stats\<rparr>)
                 else case node_token (se_ops S) (se_graph S) (hs_node st) of
                        None \<Rightarrow> (True, l\<lparr>hl_stats := stats\<rparr>)
                      | Some token \<Rightarrow>
                          (if is_strictly_dominated token
                                (state_label S E (hs_node st) (hs_amount st) (hs_visited st) (hs_used st)) (hl_dominance l)
                           then (True, l\<lparr>hl_stats := prune_count stats 1\<rparr>)
                           else (False, l\<lparr>hl_stats := stats\<rparr>)))))"

fun expand_frontier ::
  "('g, 'p, 'a, 'c, 's, 'e, 'w, 'o) heuristic_ctx \<Rightarrow> heuristic_pass_mode \<Rightarrow> bool \<Rightarrow> 'p heuristic_state list \<Rightarrow>
     ('p, 'w, 'o) heuristic_locals \<Rightarrow> flow \<times> ('p, 'w, 'o) heuristic_locals" where
  "expand_frontier X mode refines [] l = (Onward, l)"
| "expand_frontier X mode refines (st # sts) l =
     (case skip_state X st l of
        (True, l1) \<Rightarrow> expand_frontier X mode refines sts l1
      | (False, l1) \<Rightarrow>
          (case group_heuristic_hops (hx_searcher X) (hx_ends X) (hx_config X) (hx_heuristic X) st (hl_stats l1) of
             (groups, stats) \<Rightarrow>
               (case expand_groups X mode refines st groups (l1\<lparr>hl_stats := stats\<rparr>) of
                  (Onward, l2) \<Rightarrow> expand_frontier X mode refines sts l2
                | (flow, l2) \<Rightarrow> (flow, l2))))"

text \<open>Between rounds: strictly dominated prefixes leave the next frontier, then the beam is applied.\<close>

definition retained ::
  "('g, 'p, 'a, 'c, 's, 'e, 'w, 'o) heuristic_ctx \<Rightarrow> 'p dominance_index \<Rightarrow> 'p heuristic_state \<Rightarrow> bool" where
  "retained X D st \<longleftrightarrow>
     (case node_token (se_ops (hx_searcher X)) (se_graph (hx_searcher X)) (hs_node st) of
        None \<Rightarrow> True
      | Some token \<Rightarrow> \<not> is_strictly_dominated token
          (state_label (hx_searcher X) (hx_ends X) (hs_node st) (hs_amount st) (hs_visited st) (hs_used st)) D)"

definition next_round ::
  "('g, 'p, 'a, 'c, 's, 'e, 'w, 'o) heuristic_ctx \<Rightarrow> ('p, 'w, 'o) heuristic_locals \<Rightarrow>
     'p heuristic_state list \<times> ('p, 'w, 'o) heuristic_locals" where
  "next_round X l =
     (let h = hx_heuristic X; lp = liquidity_pruning (hx_config X);
          kept = (if prefix_dominance h then filter (retained X (hl_dominance l)) (hl_next l) else hl_next l);
          removed = saturating_sub (length (hl_next l)) (length kept);
          stats = (if prefix_dominance h \<and> removed > 0 then prune_count (hl_stats l) removed else hl_stats l);
          preserve = (lp_enabled lp \<and> lp_rank_branches lp \<and> se_liquidity (hx_searcher X) \<noteq> None)
      in (apply_beam_width (hx_searcher X) (beam_width h) (\<not> preserve) kept, l\<lparr>hl_next := [], hl_stats := stats\<rparr>))"

lemma set_next_round: "next_round X l = (frontier, l') \<Longrightarrow> set frontier \<subseteq> set (hl_next l)"
  using set_apply_beam_width by (fastforce simp: next_round_def Let_def split: if_splits)

text \<open>What expansion adds to the next frontier: prefixes one hop longer, below the hop limit.\<close>

lemma extend_prefix_next:
  "set (hl_next (extend_prefix X t l)) \<subseteq>
     (if length (hs_path t) < max_hops (hx_config X) then insert t (set (hl_next l)) else set (hl_next l))"
  by (auto simp: extend_prefix_def Let_def split: prod.splits bool.splits)

lemma close_route_next: "close_route X path hops amount l = (flow, l') \<Longrightarrow> hl_next l' = hl_next l"
  by (auto simp: close_route_def Let_def split: if_splits prod.splits)

lemma take_hops_next:
  "take_hops X st qs l = (flow, l') \<Longrightarrow> t \<in> set (hl_next l') \<Longrightarrow>
     t \<in> set (hl_next l) \<or> (length (hs_path t) = Suc (length (hs_path st)) \<and> length (hs_path t) < max_hops (hx_config X))"
proof (induction X st qs l rule: take_hops.induct)
  case (2 X st h out qs l)
  show ?case
  proof (cases "node_index (se_graph (hx_searcher X)) (hop_out h)")
    case (Some node)
    define path where "path = hs_path st @ [h]"
    define hops where "hops = hs_quotes st @ [\<lparr>hq_hop = h, hq_amount_in = hs_amount st, hq_amount_out = out\<rparr>]"
    show ?thesis
    proof (cases "node = se_target (hx_ends X)")
      case True
      obtain f1 l1 where c: "close_route X path hops out l = (f1, l1)" by fastforce
      show ?thesis
        using 2 Some True c close_route_next [OF c]
        by (cases f1) (auto simp: path_def [symmetric] hops_def [symmetric] Let_def)
    next
      case False
      define u where "u = \<lparr>hs_node = node, hs_path = path, hs_quotes = hops, hs_amount = out,
                         hs_visited = insert (hop_out h) (hs_visited st), hs_used = insert (hop_pool h) (hs_used st)\<rparr>"
      have "take_hops X st qs (extend_prefix X u l) = (flow, l')"
        using "2.prems"(1) Some False by (simp add: u_def path_def hops_def)
      then have "t \<in> set (hl_next (extend_prefix X u l)) \<or>
          (length (hs_path t) = Suc (length (hs_path st)) \<and> length (hs_path t) < max_hops (hx_config X))"
        using "2.IH"(2) [OF Some path_def hops_def False] "2.prems"(2) by (simp add: u_def)
      moreover have "length (hs_path u) = Suc (length (hs_path st))" by (simp add: u_def path_def)
      ultimately show ?thesis using extend_prefix_next [of X u l] by (auto split: if_splits)
    qed
  qed (use 2 in simp)
qed simp

lemma quote_ranked_next: "quote_ranked X st closes rs best quoted l = (q, l') \<Longrightarrow> hl_next l' = hl_next l"
  by (induction X st closes rs best quoted l rule: quote_ranked.induct)
    (auto split: prod.splits bool.splits sum.splits)

lemma quote_group_next: "quote_group X mode refines st grp l = (q, l') \<Longrightarrow> hl_next l' = hl_next l"
  by (auto simp: quote_group_def Let_def dest!: quote_ranked_next split: prod.splits)

lemma expand_groups_next:
  "expand_groups X mode refines st gs l = (flow, l') \<Longrightarrow> t \<in> set (hl_next l') \<Longrightarrow>
     t \<in> set (hl_next l) \<or> (length (hs_path t) = Suc (length (hs_path st)) \<and> length (hs_path t) < max_hops (hx_config X))"
proof (induction gs arbitrary: l)
  case (Cons grp gs)
  obtain q l1 where q: "quote_group X mode refines st grp l = (q, l1)" by fastforce
  obtain f2 l2 where t2: "take_hops X st q l1 = (f2, l2)" by fastforce
  have step: "t \<in> set (hl_next l2) \<Longrightarrow> t \<in> set (hl_next l) \<or>
      (length (hs_path t) = Suc (length (hs_path st)) \<and> length (hs_path t) < max_hops (hx_config X))"
    using take_hops_next [OF t2] quote_group_next [OF q] by simp
  show ?case using Cons q t2 step by (cases f2) auto
qed simp

lemma skip_state_next: "skip_state X st l = (b, l') \<Longrightarrow> hl_next l' = hl_next l"
  by (auto simp: skip_state_def Let_def split: if_splits prod.splits bool.splits option.splits)

lemma expand_frontier_next:
  "expand_frontier X mode refines sts l = (flow, l') \<Longrightarrow> t \<in> set (hl_next l') \<Longrightarrow>
     t \<in> set (hl_next l) \<or>
     (\<exists>st \<in> set sts. length (hs_path t) = Suc (length (hs_path st)) \<and> length (hs_path t) < max_hops (hx_config X))"
proof (induction sts arbitrary: l)
  case (Cons st sts)
  obtain b l1 where s: "skip_state X st l = (b, l1)" by fastforce
  obtain groups stats where g: "group_heuristic_hops (hx_searcher X) (hx_ends X) (hx_config X) (hx_heuristic X) st (hl_stats l1) = (groups, stats)"
    by fastforce
  obtain f2 l2 where e: "expand_groups X mode refines st groups (l1\<lparr>hl_stats := stats\<rparr>) = (f2, l2)" by fastforce
  have step: "t \<in> set (hl_next l2) \<Longrightarrow> t \<in> set (hl_next l) \<or>
      (length (hs_path t) = Suc (length (hs_path st)) \<and> length (hs_path t) < max_hops (hx_config X))"
    using expand_groups_next [OF e] skip_state_next [OF s] by simp
  show ?case using Cons s g e step skip_state_next [OF s] by (cases b; cases f2) fastforce+
qed simp

definition frontier_measure :: "nat \<Rightarrow> 'p heuristic_state list \<Rightarrow> nat" where
  "frontier_measure n sts = Max (insert 0 ((\<lambda>st. Suc n - length (hs_path st)) ` set sts))"

lemma frontier_measure_less:
  assumes "sts \<noteq> []" and "\<forall>t \<in> set ts. \<exists>st \<in> set sts. length (hs_path t) = Suc (length (hs_path st)) \<and> length (hs_path t) < n"
    and "ts \<noteq> []"
  shows "frontier_measure n ts < frontier_measure n sts"
proof -
  have "Suc n - length (hs_path t) < frontier_measure n sts" if t: "t \<in> set ts" for t
  proof -
    obtain st where st: "st \<in> set sts" "length (hs_path t) = Suc (length (hs_path st))" "length (hs_path t) < n"
      using assms(2) t by blast
    then have "Suc n - length (hs_path t) < Suc n - length (hs_path st)" by simp
    also have "\<dots> \<le> frontier_measure n sts" unfolding frontier_measure_def using st(1) by (intro Max_ge) auto
    finally show ?thesis .
  qed
  moreover from this have "0 < frontier_measure n sts" using assms(3) by (cases ts) fastforce+
  ultimately show ?thesis unfolding frontier_measure_def [of n ts] by (subst Max_less_iff) auto
qed

text \<open>The \<^verbatim>\<open>'search\<close> loop of one pass.\<close>

function search_rounds ::
  "('g, 'p, 'a, 'c, 's, 'e, 'w, 'o) heuristic_ctx \<Rightarrow> heuristic_pass_mode \<Rightarrow> bool \<Rightarrow> 'p heuristic_state list \<Rightarrow>
     ('p, 'w, 'o) heuristic_locals \<Rightarrow> flow \<times> ('p, 'w, 'o) heuristic_locals" where
  "search_rounds X mode refines frontier l =
     (if frontier = [] then (Onward, l)
      else case expand_frontier X mode refines frontier (l\<lparr>hl_next := []\<rparr>) of
             (Onward, l1) \<Rightarrow>
               (case next_round X l1 of (frontier', l2) \<Rightarrow> search_rounds X mode refines frontier' l2)
           | (flow, l1) \<Rightarrow> (flow, l1))"
  by pat_completeness auto

termination
proof (relation "inv_image (less_than <*lex*> less_than)
    (\<lambda>(X, mode, refines, frontier, l). (if frontier = [] then 0 else 1, frontier_measure (max_hops (hx_config X)) frontier))", goal_cases)
  case 1
  show ?case by (intro wf_inv_image wf_lex_prod) simp_all
next
  case (2 X mode refines frontier l f l1 frontier' l2)
  then have e: "expand_frontier X mode refines frontier (l\<lparr>hl_next := []\<rparr>) = (Onward, l1)"
    and n: "next_round X l1 = (frontier', l2)" and ne: "frontier \<noteq> []" by simp_all
  have "\<forall>t \<in> set frontier'. \<exists>st \<in> set frontier. length (hs_path t) = Suc (length (hs_path st)) \<and>
      length (hs_path t) < max_hops (hx_config X)"
    using expand_frontier_next [OF e] set_next_round [OF n] by auto
  with frontier_measure_less [OF ne this] ne show ?case by (cases "frontier' = []") auto
qed

declare search_rounds.simps [simp del]

section \<open>Passes\<close>

definition first_frontier :: "('g, 'p, 'a, 'c, 's, 'e, 'w, 'o) heuristic_ctx \<Rightarrow> 'p heuristic_state list" where
  "first_frontier X =
     [\<lparr>hs_node = se_source (hx_ends X), hs_path = [], hs_quotes = [], hs_amount = hx_amount X,
       hs_visited = {se_in (hx_ends X)}, hs_used = {}\<rparr>]"

fun search_passes ::
  "('g, 'p, 'a, 'c, 's, 'e, 'w, 'o) heuristic_ctx \<Rightarrow> bool \<Rightarrow> heuristic_pass_mode list \<Rightarrow>
     ('p, 'w, 'o) heuristic_locals \<Rightarrow> ('p, 'w, 'o) heuristic_locals option" where
  "search_passes X refines [] l = Some l"
| "search_passes X refines (mode # modes) l =
     (case search_rounds X mode refines (first_frontier X) (l\<lparr>hl_deferred := False\<rparr>) of
        (Panicked, l1) \<Rightarrow> None
      | (_, l1) \<Rightarrow>
          (if hl_stopped l1 then Some l1
           else if mode = InitialPass \<and> refines \<and> \<not> hl_deferred l1 then Some l1
           else search_passes X refines modes l1))"

section \<open>The fast lane\<close>

definition push_new :: "'p route_path \<Rightarrow> 'p route_path list \<Rightarrow> 'p route_path list" where
  "push_new path paths = (if path \<in> set paths then paths else paths @ [path])"

definition direct_paths ::
  "('g, 'p, 'a, 'c, 's, 'e) amm_searcher \<Rightarrow> address \<Rightarrow> address \<Rightarrow> search_config \<Rightarrow> heuristic_config \<Rightarrow>
     liquidity_prune_stats \<Rightarrow> 'p route_path list \<times> liquidity_prune_stats" where
  "direct_paths S token_in token_out config h stats =
     (if fl_direct_first (fast_lane h) \<and> min_hops config \<le> 1
      then (case ranked_hops_between S token_in token_out (edge_shortlist h) (liquidity_pruning config) stats of
              (ranked, stats') \<Rightarrow>
                (fold (\<lambda>r paths. push_new [rh_hop r] paths) (take (fl_direct_edges (fast_lane h)) ranked) [], stats'))
      else ([], stats))"

fun connector_paths ::
  "('g, 'p, 'a, 'c, 's, 'e) amm_searcher \<Rightarrow> address \<Rightarrow> address \<Rightarrow> search_config \<Rightarrow> heuristic_config \<Rightarrow>
     address list \<Rightarrow> 'p route_path list \<Rightarrow> liquidity_prune_stats \<Rightarrow> 'p route_path list \<times> liquidity_prune_stats" where
  "connector_paths S token_in token_out config h [] paths stats = (paths, stats)"
| "connector_paths S token_in token_out config h (c # cs) paths stats =
     (let n = fl_connector_edges (fast_lane h);
          (first, stats1) = ranked_hops_between S token_in c (edge_shortlist h) (liquidity_pruning config) stats;
          (second, stats2) = ranked_hops_between S c token_out (edge_shortlist h) (liquidity_pruning config) stats1;
          new = [[rh_hop a, rh_hop b]. a \<leftarrow> take n first, b \<leftarrow> take n second, hop_pool (rh_hop a) \<noteq> hop_pool (rh_hop b)]
      in connector_paths S token_in token_out config h cs (fold push_new new paths) stats2)"

definition fast_lane_paths ::
  "('g, 'p, 'a, 'c, 's, 'e) amm_searcher \<Rightarrow> address \<Rightarrow> address \<Rightarrow> search_config \<Rightarrow> heuristic_config \<Rightarrow>
     address set option \<Rightarrow> liquidity_prune_stats \<Rightarrow> 'p route_path list \<times> liquidity_prune_stats" where
  "fast_lane_paths S token_in token_out config h allowed stats =
     (if max_hops config = 0 then ([], stats)
      else case direct_paths S token_in token_out config h stats of
             (paths, stats1) \<Rightarrow>
               (if 2 \<le> max_hops config \<and> min_hops config \<le> 2
                then connector_paths S token_in token_out config h
                       (take (fl_max_connectors (fast_lane h)) (ranked_central_connectors S token_in token_out allowed))
                       paths stats1
                else (paths, stats1)))"

fun keep_fast_quotes ::
  "search_config \<Rightarrow> 'p route_quote list \<Rightarrow> ('p, 'w, 'o) heuristic_locals \<Rightarrow> ('p, 'w, 'o) heuristic_locals" where
  "keep_fast_quotes config [] l = l"
| "keep_fast_quotes config (q # qs) l =
     (let l1 = l\<lparr>hl_incumbent := raise_incumbent (rq_amount_out q) (hl_incumbent l), hl_quotes := hl_quotes l @ [q]\<rparr>
      in if max_candidates_reached (length (hl_quotes l1)) config then l1\<lparr>hl_stopped := True\<rparr>
         else keep_fast_quotes config qs l1)"

definition run_fast_lane ::
  "('g, 'p, 'a, 'c, 's, 'e, 'w, 'o) heuristic_ctx \<Rightarrow> string \<Rightarrow>
     ('p, 'w, 'o) heuristic_locals \<Rightarrow> ('p, 'w, 'o) heuristic_locals" where
  "run_fast_lane X empty_reason l =
     (if se_revisit (hx_ends X) \<or> \<not> fl_enabled (fast_lane (hx_heuristic X)) then l
      else
        (case fast_lane_paths (hx_searcher X) (se_in (hx_ends X)) (se_out (hx_ends X)) (hx_config X) (hx_heuristic X)
                (se_connectors (hx_ends X)) (hl_stats l) of
           (paths, stats) \<Rightarrow>
             (if paths = [] then l\<lparr>hl_stats := stats\<rparr>
              else
                (let report = quote_paths_observed
                       \<lparr>de_quote_hop = hx_quote X, de_amount_in = hx_amount X,
                        de_on_quote = hx_on_quote X, de_on_failure = None\<rparr>
                       empty_reason paths (hl_world l) (hl_observer l);
                     stats1 = merge_stats stats (no_prune_stats\<lparr>fast_lane_routes := length paths\<rparr>);
                     stats2 = merge_stats stats1 (no_prune_stats\<lparr>fast_lane_quotes := length (ev_quotes report)\<rparr>)
                 in keep_fast_quotes (hx_config X) (ev_quotes report)
                      (l\<lparr>hl_evaluated := hl_evaluated l \<union> set paths, hl_stats := stats2,
                         hl_stopped := ev_stopped report, hl_failures := hl_failures l @ ev_failures report,
                         hl_world := ev_world report, hl_observer := ev_observer report\<rparr>)))))"

section \<open>The search\<close>

datatype heuristic_run_limit = LimitFastLane | LimitFull

record 'p heuristic_report =
  hr_quotes :: "'p route_quote list"
  hr_stopped :: bool
  hr_failed :: nat

definition finalists :: "heuristic_config \<Rightarrow> 'p route_quote list \<Rightarrow> 'p route_quote list" where
  "finalists h quotes = take (max_finalists h) (sort_desc rq_amount_out quotes)"

definition report_of :: "heuristic_config \<Rightarrow> ('p, 'w, 'o) heuristic_locals \<Rightarrow> 'p heuristic_report" where
  "report_of h l = \<lparr>hr_quotes = finalists h (hl_quotes l), hr_stopped = hl_stopped l, hr_failed = length (hl_failures l)\<rparr>"

text \<open>The tail of the function: nothing found, finalists as they are, or finalists quoted again.\<close>

definition conclude_search ::
  "('g, 'p, 'a, 'c, 's, 'e, 'w, 'o) heuristic_ctx \<Rightarrow> string \<Rightarrow> ('p, 'w, 'o) heuristic_locals \<Rightarrow>
     (('p, 'e) search_error + 'p heuristic_report) \<times> ('p, 'w, 'o) heuristic_locals" where
  "conclude_search X empty_reason l =
     (if hl_stopped l then (Inr (report_of (hx_heuristic X) l), l)
      else if hl_quotes l = []
      then (if hl_failures l = [] then (Inl (NoPath (se_in (hx_ends X)) (se_out (hx_ends X))), l)
            else (Inl (NoViableRoute (length (hl_failures l)) (hl_failures l)), l))
      else if \<not> simulate_finalists (hx_heuristic X) then (Inr (report_of (hx_heuristic X) l), l)
      else
        (let chosen = finalists (hx_heuristic X) (hl_quotes l)
         in case quote_paths (hx_quote X) empty_reason (map rq_path chosen) (hx_amount X) (hl_world l) of
              (quotes, failures, w) \<Rightarrow>
                (and_then (rank_or_no_viable (length chosen) quotes (hl_failures l @ failures)) (\<lambda>ranked.
                   Inr \<lparr>hr_quotes = ranked, hr_stopped = False, hr_failed = length (hl_failures l) + length failures\<rparr>),
                 l\<lparr>hl_world := w\<rparr>)))"

definition run_heuristic ::
  "('g, 'p, 'a, 'c, 's, 'e, 'w, 'o) heuristic_ctx \<Rightarrow> string \<Rightarrow> heuristic_run_limit \<Rightarrow> ('p, 'w, 'o) heuristic_locals \<Rightarrow>
     ((('p, 'e) search_error + 'p heuristic_report) \<times> ('p, 'w, 'o) heuristic_locals) option" where
  "run_heuristic X empty_reason limit l0 =
     (let h = hx_heuristic X; l = run_fast_lane X empty_reason l0
      in if hl_stopped l \<or> limit = LimitFastLane
         then Some (if hl_quotes l = [] \<and> hl_failures l \<noteq> [] \<and> hl_stopped l
                    then (Inl (NoViableRoute (length (hl_failures l)) (hl_failures l)), l)
                    else (Inr (report_of h l), l))
         else
           (let modes = heuristic_pass_modes h
            in case search_passes X (RefinementPass \<in> set modes) modes l of
                 None \<Rightarrow> None
               | Some l1 \<Rightarrow> Some (conclude_search X empty_reason l1)))"

definition heuristic_start ::
  "liquidity_prune_stats \<Rightarrow> 'w \<Rightarrow> 'o \<Rightarrow> ('p, 'w, 'o) heuristic_locals" where
  "heuristic_start stats w obs =
     \<lparr>hl_quotes = [], hl_failures = [], hl_evaluated = {}, hl_incumbent = None, hl_stopped = False,
      hl_dominance = Map.empty, hl_stats = stats, hl_world = w, hl_observer = obs, hl_deferred = False, hl_next = []\<rparr>"

definition find_routes_heuristic ::
  "('g, 'p, 'a, 'c, 's, 'e) amm_searcher \<Rightarrow> ('p hop \<Rightarrow> u256 \<Rightarrow> 'w \<Rightarrow> (string + u256) \<times> 'w) \<Rightarrow>
     address \<Rightarrow> address \<Rightarrow> u256 \<Rightarrow> search_config \<Rightarrow> heuristic_config \<Rightarrow> bool \<Rightarrow> heuristic_run_limit \<Rightarrow>
     ('p route_quote \<Rightarrow> 'o \<Rightarrow> bool \<times> 'o) option \<Rightarrow> liquidity_prune_stats \<Rightarrow> 'w \<Rightarrow> 'o \<Rightarrow>
     ((('p, 'e) search_error + 'p heuristic_report) \<times> ('p, 'w, 'o) heuristic_locals) option" where
  "find_routes_heuristic S quote token_in token_out amount config h revisit limit on_quote stats w obs =
     (let l0 = heuristic_start stats w obs
      in case validate_search config of
           Inl err \<Rightarrow> Some (Inl err, l0)
         | Inr _ \<Rightarrow>
             (case node_index (se_graph S) token_in of
                None \<Rightarrow> Some (Inl (TokenNotFound token_in), l0)
              | Some source \<Rightarrow>
                  (case node_index (se_graph S) token_out of
                     None \<Rightarrow> Some (Inl (TokenNotFound token_out), l0)
                   | Some target \<Rightarrow>
                       run_heuristic
                         \<lparr>hx_searcher = S,
                          hx_ends = \<lparr>se_source = source, se_target = target, se_in = token_in, se_out = token_out,
                            se_connectors = connector_tokens_for_heuristic S token_in token_out config h,
                            se_revisit = revisit\<rparr>,
                          hx_amount = amount, hx_config = config, hx_heuristic = h, hx_quote = quote,
                          hx_on_quote = on_quote\<rparr>
                         (ar_render (se_registry S) EmptyPath) limit l0)))"

end
