(* ===== verification/HeuristicProps.thy ===== *)
theory HeuristicProps
  imports Heuristic EnumerateProps QuoteProps
begin

text \<open>
  Soundness of the heuristic search over a consistent graph and a quoting service that answers
  reference prices: it never panics, everything it keeps, returns or shows to its observer is a
  route the exhaustive enumeration admits, priced exactly, and no route is kept twice. The
  proofs run in the locale \<open>heuristic_search\<close>, the interface between the search, the graph and the
  quoting service.
\<close>

section \<open>Observers\<close>

text \<open>Showing quotes one by one to an observer, until it refuses.\<close>

fun feed :: "('x \<Rightarrow> 'o \<Rightarrow> bool \<times> 'o) option \<Rightarrow> 'x list \<Rightarrow> 'o \<Rightarrow> bool \<times> 'o" where
  "feed f [] obs = (True, obs)"
| "feed f (x # xs) obs =
     (case notify f x obs of (True, obs') \<Rightarrow> feed f xs obs' | (False, obs') \<Rightarrow> (False, obs'))"

lemma feed_append:
  "feed f (xs @ ys) obs = (case feed f xs obs of (True, obs') \<Rightarrow> feed f ys obs' | (False, obs') \<Rightarrow> (False, obs'))"
  by (induction xs arbitrary: obs) (auto split: prod.splits bool.splits)

lemma feed_None: "feed None xs obs = (True, obs)"
  by (induction xs) (simp_all add: notify_def)

text \<open>An evaluation without failure observer shows exactly the quotes it records.\<close>

definition shows_new :: "('p, 'w, 'o) dag_env \<Rightarrow> ('p, 'w, 'o) dag_evaluator \<Rightarrow> ('p, 'w, 'o) dag_evaluator \<Rightarrow> bool" where
  "shows_new env st st' \<longleftrightarrow>
     (\<exists>qs. ev_quotes st' = ev_quotes st @ qs \<and>
        (if ev_stopped st then st' = st
         else feed (de_on_quote env) qs (ev_observer st) = (\<not> ev_stopped st', ev_observer st')))"

lemma shows_new_refl: "shows_new env st st"
  by (auto simp: shows_new_def)

lemma shows_new_trans: "shows_new env st st1 \<Longrightarrow> shows_new env st1 st2 \<Longrightarrow> shows_new env st st2"
  by (cases "ev_stopped st"; cases "ev_stopped st1") (auto simp: shows_new_def feed_append)

lemma shows_new_world: "shows_new env (st\<lparr>ev_world := w\<rparr>) st' \<Longrightarrow> \<not> ev_stopped st \<Longrightarrow> shows_new env st st'"
  by (simp add: shows_new_def)

lemma push_quote_shows: "\<not> ev_stopped st \<Longrightarrow> shows_new env st (push_quote env q st)"
  by (auto simp: shows_new_def push_quote_def split: prod.splits bool.splits)

lemma push_failure_shows:
  "de_on_failure env = None \<Longrightarrow> \<not> ev_stopped st \<Longrightarrow> shows_new env st (push_failure env f st)"
  by (auto simp: shows_new_def push_failure_def notify_def)

lemma push_all_shows:
  assumes "\<And>x st. \<not> ev_stopped st \<Longrightarrow> shows_new env st (push x st)"
  shows "shows_new env st (push_all push xs st)"
proof (induction xs arbitrary: st)
  case (Cons x xs)
  show ?case
  proof (cases "ev_stopped st")
    case False
    have "shows_new env st (push_all push xs (push x st))" by (rule shows_new_trans [OF assms [OF False] Cons.IH])
    then show ?thesis using False by simp
  qed (simp add: shows_new_refl)
qed (simp add: shows_new_refl)

lemma evaluate_shows:
  assumes f: "de_on_failure env = None"
  shows "shows_new env st (evaluate env n amount trace st)"
    and "shows_new env st (evaluate_children env cs amount trace st)"
  using f
proof (induction env n amount trace st and env cs amount trace st rule: evaluate_evaluate_children.induct)
  case (1 env cs ts amount trace st)
  then show ?case
    using push_all_shows [of env "push_quote env"] by (auto simp: Let_def intro: shows_new_trans push_quote_shows)
next
  case (3 env h n cs amount trace st)
  show ?case
  proof (cases "ev_stopped st")
    case False
    obtain r w where q: "de_quote_hop env h amount (ev_world st) = (r, w)" by fastforce
    show ?thesis
    proof (cases r)
      case (Inl reason)
      have "shows_new env (st\<lparr>ev_world := w\<rparr>) (push_all (push_failure env) (collect_failures reason n) (st\<lparr>ev_world := w\<rparr>))"
        using "3.prems" by (intro push_all_shows push_failure_shows)
      then show ?thesis
        using 3(1) [OF False q [symmetric] Inl "3.prems"] False q Inl
        by (auto intro: shows_new_trans dest: shows_new_world)
    next
      case (Inr out)
      show ?thesis
        using 3(2,3) [OF False q [symmetric] Inr] "3.prems" False q Inr
        by (auto intro: shows_new_trans dest: shows_new_world)
    qed
  qed (simp add: shows_new_refl)
qed (simp add: shows_new_refl)

lemma insert_paths_shows:
  assumes "de_on_failure env = None"
  shows "insert_paths env reason ps root st = (root', st') \<Longrightarrow> \<not> ev_stopped st \<Longrightarrow> shows_new env st st' \<and> \<not> ev_stopped st'"
proof (induction ps arbitrary: root st)
  case (Cons p ps)
  let ?st1 = "push_failure env \<lparr>pf_path = p, pf_reason = reason\<rparr> st"
  have "\<not> ev_stopped ?st1" using assms Cons.prems by (simp add: push_failure_def notify_def)
  then show ?case
    using Cons push_failure_shows [OF assms Cons.prems(2)] shows_new_trans
    by (fastforce simp: Let_def split: if_splits)
qed (simp add: shows_new_refl)

lemma quote_paths_observed_shows:
  assumes "de_on_failure env = None" and "st = quote_paths_observed env reason paths w obs"
  shows "feed (de_on_quote env) (ev_quotes st) obs = (\<not> ev_stopped st, ev_observer st)"
proof -
  let ?st0 = "\<lparr>ev_quotes = [], ev_failures = [], ev_stopped = False, ev_world = w, ev_observer = obs\<rparr>"
  obtain root st1 where i: "insert_paths env reason paths empty_node ?st0 = (root, st1)" by fastforce
  have s: "shows_new env ?st0 st1 \<and> \<not> ev_stopped st1" using insert_paths_shows [OF assms(1) i] by simp
  then have "st = evaluate env root (de_amount_in env) [] st1"
    using assms(2) i by (simp add: quote_paths_observed_def Let_def)
  then have "shows_new env ?st0 st" using s evaluate_shows(1) [OF assms(1)] shows_new_trans by metis
  then show ?thesis by (auto simp: shows_new_def)
qed

section \<open>Grouping keeps the usable hops\<close>

definition group_hops :: "(address \<times> 'p hop list) list \<Rightarrow> 'p hop set" where
  "group_hops gs = (\<Union>(t, hs) \<in> set gs. set hs)"

lemma group_push_hops: "group_hops (group_push h gs) = insert h (group_hops gs)"
  by (induction h gs rule: group_push.induct) (auto simp: group_hops_def)

lemma fold_group_push: "group_hops (fold group_push hs gs) = set hs \<union> group_hops gs"
  by (induction hs arbitrary: gs) (auto simp: group_push_hops)

lemma grouped_hops_set:
  "group_hops (grouped_hops S E n st) =
     edge_hop ` {e \<in> set (outgoing_edges (se_graph S) (hs_node st)). heuristic_edge_usable S E n st e}"
  by (auto simp: grouped_hops_def fold_group_push) (auto simp: group_hops_def)

lemma score_groups_hops:
  "score_groups S E h lp gs stats = (scored, stats') \<Longrightarrow> map (\<lambda>s. (hg_token (sg_group s), hg_hops (sg_group s))) scored = gs"
proof (induction gs arbitrary: stats scored stats')
  case (Cons g gs)
  obtain token hops where g: "g = (token, hops)" by fastforce
  show ?case using Cons by (auto simp: g Let_def split: prod.splits)
qed simp

lemma group_heuristic_hops_sound:
  assumes "group_heuristic_hops S E config h st stats = (groups, stats')" and "grp \<in> set groups" and "hop \<in> set (hg_hops grp)"
  shows "\<exists>e \<in> set (outgoing_edges (se_graph S) (hs_node st)). heuristic_edge_usable S E (max_hops config) st e \<and> edge_hop e = hop"
proof -
  let ?gs = "grouped_hops S E (max_hops config) st"
  obtain scored delta where sc: "score_groups S E h (liquidity_pruning config) ?gs no_prune_stats = (scored, delta)" by fastforce
  have "set groups = sg_group ` set scored"
    using assms(1) sc by (auto simp: group_heuristic_hops_def sorted_heuristic_hop_groups_def)
  then obtain s where s: "s \<in> set scored" "grp = sg_group s" using assms(2) by auto
  have "(hg_token grp, hg_hops grp) \<in> set (map (\<lambda>s. (hg_token (sg_group s), hg_hops (sg_group s))) scored)"
    using s by auto
  then have "(hg_token grp, hg_hops grp) \<in> set ?gs" unfolding score_groups_hops [OF sc] .
  then have "hop \<in> group_hops ?gs" using assms(3) by (auto simp: group_hops_def)
  then show ?thesis unfolding grouped_hops_set by auto
qed

lemma shortlisted_set: "shortlisted_ranked_hops ranked h mode stats = (short, stats') \<Longrightarrow> set short \<subseteq> set ranked"
  by (auto simp: shortlisted_ranked_hops_def Let_def split: if_splits dest: in_set_takeD)

lemma hl_stopped_stats: "hl_stopped (l\<lparr>hl_stats := s\<rparr>) = hl_stopped l"
  by simp

lemma skip_state_frame: "skip_state X st l = (b, l') \<Longrightarrow> l' = l\<lparr>hl_stats := hl_stats l'\<rparr>"
proof -
  assume s: "skip_state X st l = (b, l')"
  obtain p stats where u: "should_prune_upper_bound_prefix (hx_searcher X) (hx_ends X) (max_hops (hx_config X))
      (upper_bound_pruning (hx_heuristic X)) (hl_incumbent l) st (hl_stats l) = (p, stats)" by fastforce
  show ?thesis using s unfolding skip_state_def Let_def u
    by (cases p; cases "node_token (se_ops (hx_searcher X)) (se_graph (hx_searcher X)) (hs_node st)")
      (auto split: if_splits)
qed

section \<open>The interface\<close>

locale heuristic_search = consistent_graph G ends g + hop_quoter quote price good
  for G :: "('g, 'p) stable_graph_ops" and ends :: "'g \<Rightarrow> nat \<Rightarrow> (nat \<times> nat) option" and g :: "('g, 'p) amm_graph"
    and quote :: "'p hop \<Rightarrow> u256 \<Rightarrow> 'w \<Rightarrow> (string + u256) \<times> 'w" and price :: "'p hop \<Rightarrow> u256 \<Rightarrow> string + u256"
    and good :: "'w \<Rightarrow> bool" +
  fixes X :: "('g, 'p, 'a, 'c, 's, 'e, 'w, 'o) heuristic_ctx"
  assumes graph_X: "se_graph (hx_searcher X) = g" and ops_X: "se_ops (hx_searcher X) = G"
    and quote_X: "hx_quote X = quote"
    and source_X: "node_index g (se_in (hx_ends X)) = Some (se_source (hx_ends X))"
    and target_X: "node_index g (se_out (hx_ends X)) = Some (se_target (hx_ends X))"
    and hops_X: "1 \<le> max_hops (hx_config X)"
begin

definition cfg :: search_config where
  "cfg = (hx_config X)\<lparr>connector_tokens := se_connectors (hx_ends X)\<rparr>"

definition env :: "'p enum_env" where
  "env = enumerate_env g (se_source (hx_ends X)) (se_target (hx_ends X)) (se_in (hx_ends X)) (se_out (hx_ends X))
     cfg (se_revisit (hx_ends X)) {} None None"

lemma fits_env: "fits env"
  using source_X target_X hops_X by (simp add: fits_def env_def cfg_def enumerate_env_def)

definition as_state :: "'p heuristic_state \<Rightarrow> 'p search_state" where
  "as_state st = \<lparr>ss_node = hs_node st, ss_path = hs_path st, visited_tokens = hs_visited st, used_pools = hs_used st\<rparr>"

definition prefix_ok :: "'p heuristic_state \<Rightarrow> bool" where
  "prefix_ok st \<longleftrightarrow> state_ok env (as_state st) \<and> length (hs_path st) < max_hops (hx_config X) \<and>
     price_hops price (hx_amount X) (hs_path st) = Inr (hs_amount st, hs_quotes st)"

definition sound_quote :: "'p route_quote \<Rightarrow> bool" where
  "sound_quote q \<longleftrightarrow> route_of env (rq_path q) \<and> price_path price (hx_amount X) (rq_path q) = Inr q"

text \<open>A hop quoted from a prefix.\<close>

definition hop_ok :: "'p heuristic_state \<Rightarrow> 'p hop \<times> u256 \<Rightarrow> bool" where
  "hop_ok st x \<longleftrightarrow>
     (\<exists>e \<in> set (outgoing_edges g (hs_node st)).
        heuristic_edge_usable (hx_searcher X) (hx_ends X) (max_hops (hx_config X)) st e \<and> edge_hop e = fst x) \<and>
     price (fst x) (hs_amount st) = Inr (snd x)"

lemma usable_as_edge:
  "heuristic_edge_usable (hx_searcher X) (hx_ends X) n st e \<Longrightarrow> edge_usable env (as_state st) e"
  by (auto simp: heuristic_edge_usable_def edge_open_def edge_usable_def env_def enumerate_env_def as_state_def cfg_def
      closes_source_cycle_def connector_allowed_def)

lemma price_hops_snoc:
  "price_hops price a hs = Inr (b, trace) \<Longrightarrow> price h b = Inr out \<Longrightarrow>
     price_hops price a (hs @ [h]) = Inr (out, trace @ [\<lparr>hq_hop = h, hq_amount_in = b, hq_amount_out = out\<rparr>])"
  by (simp add: price_hops_append)

lemma hop_node: "hop_ok st (h, out) \<Longrightarrow> \<exists>node. node_index g (hop_out h) = Some node"
  by (auto simp: hop_ok_def edge_hop_def out_exact)

lemma closing_hop_sound:
  assumes "prefix_ok st" and "hop_ok st (h, out)" and "node_index g (hop_out h) = Some (se_target (hx_ends X))"
    and "min_hops (hx_config X) \<le> length (hs_path st @ [h])"
  shows "sound_quote \<lparr>rq_path = hs_path st @ [h], rq_amount_in = hx_amount X, rq_amount_out = out,
    rq_hops = hs_quotes st @ [\<lparr>hq_hop = h, hq_amount_in = hs_amount st, hq_amount_out = out\<rparr>]\<rparr>"
proof -
  obtain e where e: "e \<in> set (outgoing_edges g (hs_node st))" "edge_hop e = h"
      "heuristic_edge_usable (hx_searcher X) (hx_ends X) (max_hops (hx_config X)) st e"
    and p: "price h (hs_amount st) = Inr out" using assms(2) by (auto simp: hop_ok_def)
  have "edge_target e = env_target env"
    using e(1,2) assms(3) by (auto simp: out_exact edge_hop_def env_def enumerate_env_def)
  moreover have "state_ok env (as_state st)" "e \<in> set (outgoing_edges g (ss_node (as_state st)))"
    using assms(1) e(1) by (simp_all add: prefix_ok_def as_state_def)
  moreover have "min_hops (env_config env) \<le> Suc (length (ss_path (as_state st)))"
    "length (ss_path (as_state st)) < max_hops (env_config env)"
    using assms(1,4) by (simp_all add: prefix_ok_def as_state_def env_def enumerate_env_def cfg_def)
  ultimately have "route_of env (ss_path (as_state st) @ [edge_hop e])"
    using usable_closing [OF fits_env] usable_as_edge [OF e(3)] by blast
  then show ?thesis
    using price_hops_snoc [OF _ p] assms(1) e(2) by (simp add: sound_quote_def as_state_def prefix_ok_def price_path_def)
qed

lemma open_hop_ok:
  assumes "prefix_ok st" and "hop_ok st (h, out)" and "node_index g (hop_out h) = Some node"
    and "node \<noteq> se_target (hx_ends X)" and "length (hs_path st @ [h]) < max_hops (hx_config X)"
  shows "prefix_ok \<lparr>hs_node = node, hs_path = hs_path st @ [h],
    hs_quotes = hs_quotes st @ [\<lparr>hq_hop = h, hq_amount_in = hs_amount st, hq_amount_out = out\<rparr>], hs_amount = out,
    hs_visited = insert (hop_out h) (hs_visited st), hs_used = insert (hop_pool h) (hs_used st)\<rparr>"
proof -
  obtain e where e: "e \<in> set (outgoing_edges g (hs_node st))" "edge_hop e = h"
      "heuristic_edge_usable (hx_searcher X) (hx_ends X) (max_hops (hx_config X)) st e"
    and p: "price h (hs_amount st) = Inr out" using assms(2) by (auto simp: hop_ok_def)
  have n: "edge_target e = node" using e(1,2) assms(3) by (auto simp: out_exact edge_hop_def)
  then have ne: "edge_target e \<noteq> env_target env" using assms(4) by (simp add: env_def enumerate_env_def)
  have "child_state (as_state st) e \<in> set (state_pushes env (as_state st))"
    using e(1) usable_as_edge [OF e(3)] ne assms(5)
    by (auto simp: state_pushes_def pushes_def as_state_def env_def enumerate_env_def cfg_def)
  from pushes_ok [OF fits_env _ this] have "state_ok env (child_state (as_state st) e)"
    using assms(1) by (simp add: prefix_ok_def)
  then show ?thesis
    using price_hops_snoc [OF _ p] assms(1,5) e(2) n
    by (auto simp: prefix_ok_def as_state_def child_state_def edge_hop_def)
qed

section \<open>What every step keeps\<close>

text \<open>Everything kept and shown is sound; what was shown since the start \<open>obs0\<close> was shown in order,
  and the observer refused nothing unless the search is stopped.\<close>

definition shown_ok :: "'o \<Rightarrow> ('p, 'w, 'o) heuristic_locals \<Rightarrow> bool" where
  "shown_ok obs0 l \<longleftrightarrow>
     (\<exists>ns b. (\<forall>q \<in> set ns. sound_quote q) \<and> set (hl_quotes l) \<subseteq> set ns \<and>
        (max_candidates (hx_config X) = None \<longrightarrow> ns = hl_quotes l) \<and>
        feed (hx_on_quote X) ns obs0 = (b, hl_observer l) \<and> (b \<or> hl_stopped l))"

definition locals_ok :: "'o \<Rightarrow> ('p, 'w, 'o) heuristic_locals \<Rightarrow> bool" where
  "locals_ok obs0 l \<longleftrightarrow>
     good (hl_world l) \<and> shown_ok obs0 l \<and> distinct (map rq_path (hl_quotes l)) \<and>
     rq_path ` set (hl_quotes l) \<subseteq> hl_evaluated l \<and> (\<forall>t \<in> set (hl_next l). prefix_ok t)"

lemma locals_ok_sound: "locals_ok obs0 l \<Longrightarrow> q \<in> set (hl_quotes l) \<Longrightarrow> sound_quote q"
  by (auto simp: locals_ok_def shown_ok_def)

lemma locals_ok_frame:
  assumes "locals_ok obs0 l"
  shows "locals_ok obs0 (l\<lparr>hl_stats := s\<rparr>)" "locals_ok obs0 (l\<lparr>hl_dominance := D\<rparr>)" "locals_ok obs0 (l\<lparr>hl_deferred := b\<rparr>)"
    "locals_ok obs0 (l\<lparr>hl_failures := f\<rparr>)" "locals_ok obs0 (l\<lparr>hl_next := []\<rparr>)"
    "good w \<Longrightarrow> locals_ok obs0 (l\<lparr>hl_world := w\<rparr>)"
  using assms by (simp_all add: locals_ok_def shown_ok_def)

text \<open>A step that keeps the invariant, does not panic, and stops exactly when it breaks off stopped.\<close>

definition step_ok :: "'o \<Rightarrow> flow \<times> ('p, 'w, 'o) heuristic_locals \<Rightarrow> bool" where
  "step_ok obs0 r \<longleftrightarrow> fst r \<noteq> Panicked \<and> locals_ok obs0 (snd r) \<and> (fst r = Onward \<longrightarrow> \<not> hl_stopped (snd r))"

lemma close_route_ok:
  assumes "locals_ok obs0 l" and "\<not> hl_stopped l"
    and "min_hops (hx_config X) \<le> length path \<Longrightarrow>
      sound_quote \<lparr>rq_path = path, rq_amount_in = hx_amount X, rq_amount_out = amount, rq_hops = hops\<rparr>"
  shows "step_ok obs0 (close_route X path hops amount l)"
proof (cases "length path < min_hops (hx_config X) \<or> path \<in> hl_evaluated l")
  case True
  then show ?thesis using assms by (auto simp: close_route_def step_ok_def)
next
  case False
  define q where "q = \<lparr>rq_path = path, rq_amount_in = hx_amount X, rq_amount_out = amount, rq_hops = hops\<rparr>"
  have sq: "sound_quote q" and pq: "rq_path q = path" using assms(3) False by (simp_all add: q_def)
  obtain keep obs where k: "notify (hx_on_quote X) q (hl_observer l) = (keep, obs)" by fastforce
  define l1 where "l1 = l\<lparr>hl_evaluated := insert path (hl_evaluated l),
    hl_incumbent := raise_incumbent amount (hl_incumbent l), hl_quotes := hl_quotes l @ [q], hl_observer := obs\<rparr>"
  have r: "close_route X path hops amount l =
      (if \<not> keep then (BreakSearch, l1\<lparr>hl_stopped := True\<rparr>)
       else if max_candidates_reached (length (hl_quotes l1)) (hx_config X) then (BreakSearch, l1) else (Onward, l1))"
    using False k by (simp add: close_route_def q_def l1_def Let_def)
  obtain ns where ns: "\<forall>q \<in> set ns. sound_quote q" "set (hl_quotes l) \<subseteq> set ns"
      "max_candidates (hx_config X) = None \<longrightarrow> ns = hl_quotes l" "feed (hx_on_quote X) ns obs0 = (True, hl_observer l)"
    using assms(1,2) by (auto simp: locals_ok_def shown_ok_def)
  then have f: "feed (hx_on_quote X) (ns @ [q]) obs0 = (keep, obs)" using k by (cases keep) (simp_all add: feed_append)
  have "shown_ok obs0 (l1\<lparr>hl_stopped := \<not> keep\<rparr>)"
    unfolding shown_ok_def using ns sq f by (intro exI [of _ "ns @ [q]"] exI [of _ keep]) (auto simp: l1_def)
  moreover have "rq_path q \<notin> rq_path ` set (hl_quotes l)" using False assms(1) by (auto simp: locals_ok_def pq)
  ultimately have "locals_ok obs0 (l1\<lparr>hl_stopped := \<not> keep\<rparr>)"
    using assms(1) pq by (auto simp: locals_ok_def l1_def)
  moreover have same: "l1\<lparr>hl_stopped := False\<rparr> = l1" using assms(2) by (simp add: l1_def)
  moreover have "\<not> hl_stopped l1" using assms(2) by (simp add: l1_def)
  ultimately show ?thesis unfolding r step_ok_def by (cases keep) simp_all
qed

lemma extend_prefix_ok:
  assumes "locals_ok obs0 l" and "\<not> hl_stopped l" and "length (hs_path t) < max_hops (hx_config X) \<Longrightarrow> prefix_ok t"
  shows "locals_ok obs0 (extend_prefix X t l)" and "\<not> hl_stopped (extend_prefix X t l)"
  using assms by (auto simp: extend_prefix_def Let_def locals_ok_def shown_ok_def split: prod.splits bool.splits)

lemma take_hops_ok:
  assumes "prefix_ok st"
  shows "locals_ok obs0 l \<Longrightarrow> \<not> hl_stopped l \<Longrightarrow> \<forall>x \<in> set qs. hop_ok st x \<Longrightarrow> step_ok obs0 (take_hops X st qs l)"
proof (induction qs arbitrary: l)
  case (Cons x qs)
  obtain h out where x: "x = (h, out)" by fastforce
  then have hop: "hop_ok st (h, out)" using Cons.prems(3) by simp
  obtain node where n: "node_index g (hop_out h) = Some node" using hop_node [OF hop] by blast
  let ?path = "hs_path st @ [h]" and ?hops = "hs_quotes st @ [\<lparr>hq_hop = h, hq_amount_in = hs_amount st, hq_amount_out = out\<rparr>]"
  show ?case
  proof (cases "node = se_target (hx_ends X)")
    case True
    obtain f1 l1 where c: "close_route X ?path ?hops out l = (f1, l1)" by fastforce
    have "step_ok obs0 (f1, l1)"
      unfolding c [symmetric] using closing_hop_sound [OF assms hop] n True by (intro close_route_ok Cons.prems) simp
    then show ?thesis
      using Cons.IH [of l1] Cons.prems(3) n True c by (cases f1) (auto simp: x graph_X step_ok_def)
  next
    case False
    define t where "t = \<lparr>hs_node = node, hs_path = ?path, hs_quotes = ?hops, hs_amount = out,
      hs_visited = insert (hop_out h) (hs_visited st), hs_used = insert (hop_pool h) (hs_used st)\<rparr>"
    have "length (hs_path t) < max_hops (hx_config X) \<Longrightarrow> prefix_ok t"
      using open_hop_ok [OF assms hop n False] by (simp add: t_def)
    note e = extend_prefix_ok [OF Cons.prems(1,2) this]
    have "take_hops X st (x # qs) l = take_hops X st qs (extend_prefix X t l)"
      using n False by (simp add: x graph_X t_def)
    then show ?thesis using Cons.IH [OF e] Cons.prems(3) by simp
  qed
qed (simp add: step_ok_def)

lemma quote_ranked_ok:
  "quote_ranked X st closes rs best quoted l = (q, l') \<Longrightarrow> locals_ok obs0 l \<Longrightarrow>
     locals_ok obs0 l' \<and> hl_stopped l' = hl_stopped l \<and>
     (\<forall>x \<in> set q. x \<in> set quoted \<or> (fst x \<in> rh_hop ` set rs \<and> price (fst x) (hs_amount st) = Inr (snd x)))"
proof (induction rs arbitrary: best quoted l)
  case (Cons r rs)
  obtain prune stats where p: "should_prune_liquidity_hop (hx_searcher X) r best (liquidity_pruning (hx_config X)) closes (hl_stats l) = (prune, stats)"
    by fastforce
  show ?case
  proof (cases prune)
    case True
    then show ?thesis
      using Cons.IH [of best quoted "l\<lparr>hl_stats := stats\<rparr>"] Cons.prems p locals_ok_frame(1) by fastforce
  next
    case False
    have gw: "good (hl_world l)" using Cons.prems(2) by (simp add: locals_ok_def)
    obtain w where w: "quote (rh_hop r) (hs_amount st) (hl_world l) = (price (rh_hop r) (hs_amount st), w)" "good w"
      using quote_price [OF gw] quote_good [OF gw] by (metis prod.collapse)
    show ?thesis
    proof (cases "price (rh_hop r) (hs_amount st)")
      case (Inl reason)
      define l1 where "l1 = l\<lparr>hl_stats := stats, hl_world := w,
        hl_failures := hl_failures l @ [\<lparr>pf_path = hs_path st @ [rh_hop r], pf_reason = reason\<rparr>]\<rparr>"
      have "locals_ok obs0 l1" using Cons.prems(2) w(2) by (simp add: l1_def locals_ok_def shown_ok_def)
      moreover have "quote_ranked X st closes rs best quoted l1 = (q, l')"
        using Cons.prems(1) p False w(1) Inl by (simp add: quote_X l1_def)
      ultimately show ?thesis using Cons.IH [of best quoted l1] by (auto simp: l1_def)
    next
      case (Inr out)
      define l1 where "l1 = l\<lparr>hl_stats := stats, hl_world := w\<rparr>"
      have "locals_ok obs0 l1" using Cons.prems(2) w(2) by (simp add: l1_def locals_ok_def shown_ok_def)
      moreover have "quote_ranked X st closes rs (raise_incumbent out best) (quoted @ [(rh_hop r, out)]) l1 = (q, l')"
        using Cons.prems(1) p False w(1) Inr by (simp add: quote_X l1_def)
      ultimately show ?thesis using Cons.IH [of _ "quoted @ [(rh_hop r, out)]" l1] Inr by (fastforce simp: l1_def)
    qed
  qed
qed simp

lemma quote_group_ok:
  assumes "quote_group X mode refines st grp l = (q, l')" and "locals_ok obs0 l"
  shows "locals_ok obs0 l' \<and> hl_stopped l' = hl_stopped l \<and>
    (\<forall>x \<in> set q. fst x \<in> set (hg_hops grp) \<and> price (fst x) (hs_amount st) = Inr (snd x))"
proof -
  obtain ranked stats1 where r: "liquidity_ranked_hops (hx_searcher X) (hg_hops grp) (edge_shortlist (hx_heuristic X))
      (liquidity_pruning (hx_config X)) (hl_stats l) = (ranked, stats1)" by fastforce
  obtain short stats2 where s: "shortlisted_ranked_hops ranked (hx_heuristic X) mode stats1 = (short, stats2)" by fastforce
  let ?d = "mode = InitialPass \<and> refines \<and> sl_enabled (edge_shortlist (hx_heuristic X)) \<and> edge_limit mode (hx_heuristic X) < length ranked"
  define l1 where "l1 = l\<lparr>hl_stats := stats2, hl_deferred := hl_deferred l \<or> ?d\<rparr>"
  obtain quoted l2 where q: "quote_ranked X st (hg_closes grp) short None [] l1 = (quoted, l2)" by fastforce
  have "locals_ok obs0 l1" using assms(2) by (simp add: l1_def locals_ok_def shown_ok_def)
  note ok = quote_ranked_ok [OF q this]
  have "set q \<subseteq> set quoted" and l2: "l' = l2"
    using assms(1) r s q unfolding quote_group_def Let_def l1_def by (auto dest: in_set_takeD)
  moreover have "rh_hop ` set short \<subseteq> set (hg_hops grp)"
    using shortlisted_set [OF s] mset_eq_setD [OF liquidity_ranked_hops_mset [OF r]] by auto
  ultimately show ?thesis using ok by (fastforce simp: l1_def)
qed

lemma expand_groups_ok:
  assumes "prefix_ok st"
    and "\<forall>grp \<in> set gs. \<forall>h \<in> set (hg_hops grp). \<exists>e \<in> set (outgoing_edges g (hs_node st)).
      heuristic_edge_usable (hx_searcher X) (hx_ends X) (max_hops (hx_config X)) st e \<and> edge_hop e = h"
  shows "locals_ok obs0 l \<Longrightarrow> \<not> hl_stopped l \<Longrightarrow> step_ok obs0 (expand_groups X mode refines st gs l)"
  using assms(2)
proof (induction gs arbitrary: l)
  case (Cons grp gs)
  obtain q l1 where q: "quote_group X mode refines st grp l = (q, l1)" by fastforce
  note g1 = quote_group_ok [OF q Cons.prems(1)]
  have "\<forall>x \<in> set q. hop_ok st x" using g1 Cons.prems(3) by (auto simp: hop_ok_def)
  then have t: "step_ok obs0 (take_hops X st q l1)" using g1 Cons.prems(2) by (intro take_hops_ok [OF assms(1)]) simp_all
  obtain f2 l2 where t2: "take_hops X st q l1 = (f2, l2)" by fastforce
  show ?case using Cons.IH [of l2] Cons.prems(3) t q t2 by (cases f2) (auto simp: step_ok_def)
qed (simp add: step_ok_def)

lemma skip_state_ok:
  "skip_state X st l = (b, l') \<Longrightarrow> locals_ok obs0 l \<Longrightarrow> locals_ok obs0 l' \<and> hl_stopped l' = hl_stopped l"
  using locals_ok_frame(1) [of obs0 l "hl_stats l'"] by (metis skip_state_frame hl_stopped_stats)

lemma expand_frontier_ok:
  "\<forall>st \<in> set sts. prefix_ok st \<Longrightarrow> locals_ok obs0 l \<Longrightarrow> \<not> hl_stopped l \<Longrightarrow>
     step_ok obs0 (expand_frontier X mode refines sts l)"
proof (induction sts arbitrary: l)
  case (Cons st sts)
  obtain b l1 where s: "skip_state X st l = (b, l1)" by fastforce
  note ok1 = skip_state_ok [OF s Cons.prems(2)]
  obtain groups stats where gr: "group_heuristic_hops (hx_searcher X) (hx_ends X) (hx_config X) (hx_heuristic X) st (hl_stats l1) = (groups, stats)"
    by fastforce
  obtain f2 l2 where e: "expand_groups X mode refines st groups (l1\<lparr>hl_stats := stats\<rparr>) = (f2, l2)" by fastforce
  have "step_ok obs0 (f2, l2)"
    unfolding e [symmetric] using ok1 Cons.prems group_heuristic_hops_sound [OF gr] locals_ok_frame(1)
    by (intro expand_groups_ok) (auto simp: graph_X)
  then show ?case using Cons s gr e ok1 by (cases b; cases f2) (auto simp: step_ok_def)
qed (simp add: step_ok_def)

lemma next_round_ok:
  "next_round X l = (frontier, l') \<Longrightarrow> locals_ok obs0 l \<Longrightarrow>
     locals_ok obs0 l' \<and> hl_stopped l' = hl_stopped l \<and> (\<forall>t \<in> set frontier. prefix_ok t)"
proof -
  assume n: "next_round X l = (frontier, l')" and ok: "locals_ok obs0 l"
  obtain stats where "l' = l\<lparr>hl_next := [], hl_stats := stats\<rparr>" using n by (auto simp: next_round_def Let_def)
  then show ?thesis
    using ok set_next_round [OF n] locals_ok_frame(1) [OF locals_ok_frame(5) [OF ok]] by (auto simp: locals_ok_def)
qed

lemma search_rounds_ok:
  "\<forall>st \<in> set frontier. prefix_ok st \<Longrightarrow> locals_ok obs0 l \<Longrightarrow> \<not> hl_stopped l \<Longrightarrow>
     step_ok obs0 (search_rounds X mode refines frontier l)"
proof (induction "(mode, refines, frontier, l)" arbitrary: frontier l rule: wf_induct_rule [OF wf_inv_image [OF wf_less_than,
      of "\<lambda>(mode :: heuristic_pass_mode, refines :: bool, frontier :: 'p heuristic_state list, l :: ('p, 'w, 'o) heuristic_locals).
        if frontier = [] then 0 else Suc (frontier_measure (max_hops (hx_config X)) frontier)"]])
  case (1 frontier l)
  show ?case
  proof (cases "frontier = []")
    case True
    then show ?thesis using "1.prems" by (simp add: search_rounds.simps step_ok_def)
  next
    case False
    obtain f1 l1 where e: "expand_frontier X mode refines frontier (l\<lparr>hl_next := []\<rparr>) = (f1, l1)" by fastforce
    have ok1: "step_ok obs0 (f1, l1)"
      unfolding e [symmetric] using "1.prems" locals_ok_frame(5) by (intro expand_frontier_ok) simp_all
    obtain frontier' l2 where n: "next_round X l1 = (frontier', l2)" by fastforce
    have r: "search_rounds X mode refines frontier l =
        (if f1 = Onward then search_rounds X mode refines frontier' l2 else (f1, l1))"
      using False e n by (cases f1) (simp_all add: search_rounds.simps [of X mode refines frontier l])
    show ?thesis
    proof (cases "f1 = Onward")
      case True
      have ok2: "locals_ok obs0 l2 \<and> hl_stopped l2 = hl_stopped l1 \<and> (\<forall>t \<in> set frontier'. prefix_ok t)"
        using next_round_ok [OF n, of obs0] ok1 by (simp add: step_ok_def)
      have "\<forall>t \<in> set frontier'. \<exists>st \<in> set frontier. length (hs_path t) = Suc (length (hs_path st)) \<and>
          length (hs_path t) < max_hops (hx_config X)"
        using expand_frontier_next [OF e] set_next_round [OF n] by auto
      then have "frontier' \<noteq> [] \<Longrightarrow> frontier_measure (max_hops (hx_config X)) frontier' < frontier_measure (max_hops (hx_config X)) frontier"
        by (intro frontier_measure_less [OF False])
      then show ?thesis using "1.hyps" [of frontier' l2] ok1 ok2 r True False by (auto simp: step_ok_def)
    next
      case f: False
      then show ?thesis using ok1 r by simp
    qed
  qed
qed

lemma first_frontier_ok: "\<forall>st \<in> set (first_frontier X). prefix_ok st"
  using initial_ok [OF fits_env] hops_X
  by (simp add: first_frontier_def prefix_ok_def as_state_def initial_state_def env_def enumerate_env_def cfg_def)

lemma search_passes_ok:
  "locals_ok obs0 l \<Longrightarrow> \<not> hl_stopped l \<Longrightarrow> \<exists>l'. search_passes X refines modes l = Some l' \<and> locals_ok obs0 l'"
proof (induction modes arbitrary: l)
  case (Cons mode modes)
  obtain f l1 where r: "search_rounds X mode refines (first_frontier X) (l\<lparr>hl_deferred := False\<rparr>) = (f, l1)" by fastforce
  have "step_ok obs0 (f, l1)"
    unfolding r [symmetric] using Cons.prems locals_ok_frame(3) by (intro search_rounds_ok first_frontier_ok) simp_all
  then show ?case using Cons.IH [of l1] r by (cases f) (auto simp: step_ok_def)
qed simp

section \<open>The fast lane\<close>

lemma ranked_between_edge:
  assumes "ranked_hops_between (hx_searcher X) t u sl lp stats = (ranked, stats')" and "r \<in> set ranked"
  shows "hop_in (rh_hop r) = t \<and> hop_out (rh_hop r) = u \<and> pool_links g (hop_pool (rh_hop r)) t u"
proof (cases "node_index g t")
  case (Some node)
  let ?es = "filter (\<lambda>e. edge_token_out e = u) (outgoing_edges g node)"
  have "mset (map rh_hop ranked) = mset (map edge_hop ?es)"
    using assms(1) Some by (intro liquidity_ranked_hops_mset) (simp add: ranked_hops_between_def graph_X)
  then have "set (map rh_hop ranked) = set (map edge_hop ?es)" by (rule mset_eq_setD)
  then have "rh_hop r \<in> edge_hop ` set ?es" using assms(2) by auto
  then obtain e where e: "e \<in> set (outgoing_edges g node)" "edge_token_out e = u" "rh_hop r = edge_hop e" by auto
  then have "edge_token_in e = t" using Some node_inj by (auto simp: out_exact)
  then show ?thesis using e by (simp add: out_exact edge_hop_def)
qed (use assms in \<open>simp add: ranked_hops_between_def graph_X\<close>)

definition lane_ok :: "'p route_path list \<Rightarrow> bool" where
  "lane_ok paths \<longleftrightarrow> distinct paths \<and> (\<forall>p \<in> set paths. route_of env p)"

lemma lane_ok_push: "lane_ok paths \<Longrightarrow> route_of env p \<Longrightarrow> lane_ok (push_new p paths)"
  by (simp add: lane_ok_def push_new_def)

lemma lane_ok_fold: "lane_ok paths \<Longrightarrow> \<forall>p \<in> set new. route_of env p \<Longrightarrow> lane_ok (fold push_new new paths)"
  by (induction new arbitrary: paths) (simp_all add: lane_ok_push)

lemma direct_paths_ok:
  assumes "se_in (hx_ends X) \<noteq> se_out (hx_ends X)"
    and "direct_paths (hx_searcher X) (se_in (hx_ends X)) (se_out (hx_ends X)) (hx_config X) h stats = (paths, stats')"
  shows "lane_ok paths"
proof (cases "fl_direct_first (fast_lane h) \<and> min_hops (hx_config X) \<le> 1")
  case True
  obtain ranked s2 where r: "ranked_hops_between (hx_searcher X) (se_in (hx_ends X)) (se_out (hx_ends X)) (edge_shortlist h)
      (liquidity_pruning (hx_config X)) stats = (ranked, s2)" by fastforce
  let ?new = "map (\<lambda>r. [rh_hop r]) (take (fl_direct_edges (fast_lane h)) ranked)"
  have "paths = fold push_new ?new []" using assms(2) True r by (simp add: direct_paths_def fold_map comp_def)
  moreover have "route_of env [rh_hop r]" if "r \<in> set ranked" for r
    using ranked_between_edge [OF r that] True assms(1) hops_X
    by (simp add: route_of_def candidate_route_def env_def enumerate_env_def cfg_def linked_path_def)
  then have "\<forall>p \<in> set ?new. route_of env p" by (auto dest: in_set_takeD)
  ultimately show ?thesis using lane_ok_fold [of "[]" ?new] by (simp add: lane_ok_def)
next
  case False
  then show ?thesis using assms(2) by (auto simp: direct_paths_def lane_ok_def)
qed

lemma two_hop_route:
  assumes "se_in (hx_ends X) \<noteq> se_out (hx_ends X)" and "2 \<le> max_hops (hx_config X)" "min_hops (hx_config X) \<le> 2"
    and "c \<noteq> se_in (hx_ends X)" "c \<noteq> se_out (hx_ends X)"
    and "connector_allowed_with_tokens c (se_in (hx_ends X)) (se_out (hx_ends X)) (se_connectors (hx_ends X))"
    and "hop_in a = se_in (hx_ends X) \<and> hop_out a = c \<and> pool_links g (hop_pool a) (se_in (hx_ends X)) c"
    and "hop_in b = c \<and> hop_out b = se_out (hx_ends X) \<and> pool_links g (hop_pool b) c (se_out (hx_ends X))"
    and "hop_pool a \<noteq> hop_pool b"
  shows "route_of env [a, b]"
  using assms by (auto simp: route_of_def candidate_route_def env_def enumerate_env_def cfg_def linked_path_def connector_allowed_def)

lemma connector_paths_ok:
  assumes "se_in (hx_ends X) \<noteq> se_out (hx_ends X)" and "2 \<le> max_hops (hx_config X)" "min_hops (hx_config X) \<le> 2"
  shows "\<forall>c \<in> set cs. c \<noteq> se_in (hx_ends X) \<and> c \<noteq> se_out (hx_ends X) \<and>
      connector_allowed_with_tokens c (se_in (hx_ends X)) (se_out (hx_ends X)) (se_connectors (hx_ends X)) \<Longrightarrow> lane_ok paths \<Longrightarrow>
    connector_paths (hx_searcher X) (se_in (hx_ends X)) (se_out (hx_ends X)) (hx_config X) h cs paths stats = (paths', stats') \<Longrightarrow>
    lane_ok paths'"
proof (induction cs arbitrary: paths stats)
  case (Cons c cs)
  obtain first s1 where f: "ranked_hops_between (hx_searcher X) (se_in (hx_ends X)) c (edge_shortlist h)
      (liquidity_pruning (hx_config X)) stats = (first, s1)" by fastforce
  obtain second s2 where s: "ranked_hops_between (hx_searcher X) c (se_out (hx_ends X)) (edge_shortlist h)
      (liquidity_pruning (hx_config X)) s1 = (second, s2)" by fastforce
  let ?n = "fl_connector_edges (fast_lane h)"
  define new where "new = [[rh_hop a, rh_hop b]. a \<leftarrow> take ?n first, b \<leftarrow> take ?n second, hop_pool (rh_hop a) \<noteq> hop_pool (rh_hop b)]"
  have "route_of env p" if pn: "p \<in> set new" for p
  proof -
    obtain a b where ab: "a \<in> set first" "b \<in> set second" "hop_pool (rh_hop a) \<noteq> hop_pool (rh_hop b)" "p = [rh_hop a, rh_hop b]"
      using pn unfolding new_def by (auto split: if_splits dest!: in_set_takeD)
    then show ?thesis
      using two_hop_route [OF assms, of c] Cons.prems(1) ranked_between_edge [OF f ab(1)] ranked_between_edge [OF s ab(2)] by simp
  qed
  then have "lane_ok (fold push_new new paths)" using Cons.prems(2) by (intro lane_ok_fold) auto
  moreover have "connector_paths (hx_searcher X) (se_in (hx_ends X)) (se_out (hx_ends X)) (hx_config X) h cs
      (fold push_new new paths) s2 = (paths', stats')"
    using Cons.prems(3) f s by (simp add: new_def Let_def)
  ultimately show ?case using Cons.IH Cons.prems(1) by auto
qed simp

lemma ranked_connectors_ok:
  assumes "c \<in> set (ranked_central_connectors S t u allowed)"
  shows "c \<noteq> t \<and> c \<noteq> u \<and> connector_allowed_with_tokens c t u allowed"
proof -
  have "sorted_list_of_set A = [] \<or> set (sorted_list_of_set A) = A" for A :: "address set" by (cases "finite A") auto
  then show ?thesis
    using assms by (fastforce simp: ranked_central_connectors_def connector_allowed_with_tokens_def Let_def split: option.splits)
qed

lemma fast_lane_paths_ok:
  assumes "se_in (hx_ends X) \<noteq> se_out (hx_ends X)"
    and "fast_lane_paths (hx_searcher X) (se_in (hx_ends X)) (se_out (hx_ends X)) (hx_config X) h (se_connectors (hx_ends X)) stats
      = (paths, stats')"
  shows "lane_ok paths"
proof -
  obtain ps s1 where d: "direct_paths (hx_searcher X) (se_in (hx_ends X)) (se_out (hx_ends X)) (hx_config X) h stats = (ps, s1)"
    by fastforce
  note ok = direct_paths_ok [OF assms(1) d]
  show ?thesis
  proof (cases "2 \<le> max_hops (hx_config X) \<and> min_hops (hx_config X) \<le> 2")
    case True
    then show ?thesis
      using assms(2) d hops_X True
      by (intro connector_paths_ok [OF assms(1) _ _ _ ok]) (auto simp: fast_lane_paths_def dest!: in_set_takeD ranked_connectors_ok)
  next
    case False
    then show ?thesis using assms(2) d ok hops_X by (auto simp: fast_lane_paths_def)
  qed
qed

lemma priced_sound:
  assumes "lane_ok order"
  shows "\<forall>q \<in> set (priced price (hx_amount X) order). sound_quote q"
    and "distinct (map rq_path (priced price (hx_amount X) order))"
    and "rq_path ` set (priced price (hx_amount X) order) \<subseteq> set order"
proof -
  have path: "price_path price (hx_amount X) p = Inr q \<Longrightarrow> rq_path q = p" for p q
    by (auto simp: price_path_def split: sum.splits prod.splits)
  have mem: "q \<in> set (priced price (hx_amount X) ps) \<longleftrightarrow> (\<exists>p \<in> set ps. price_path price (hx_amount X) p = Inr q)" for q ps
    by (force simp: priced_def split: sum.splits)
  show "\<forall>q \<in> set (priced price (hx_amount X) order). sound_quote q"
    using assms path mem by (fastforce simp: sound_quote_def lane_ok_def)
  show sub: "rq_path ` set (priced price (hx_amount X) order) \<subseteq> set order" using mem path by fastforce
  have "distinct ps \<Longrightarrow> distinct (map rq_path (priced price (hx_amount X) ps))" for ps
  proof (induction ps)
    case (Cons p ps)
    have "rq_path ` set (priced price (hx_amount X) ps) \<subseteq> set ps" using mem path by fastforce
    then show ?case using Cons path by (auto simp: priced_def split: sum.splits)
  qed simp
  then show "distinct (map rq_path (priced price (hx_amount X) order))" using assms by (simp add: lane_ok_def)
qed

lemma keep_fast_quotes_result:
  "\<exists>qs'. prefix qs' qs \<and> hl_quotes (keep_fast_quotes config qs l) = hl_quotes l @ qs' \<and>
     (hl_stopped l \<longrightarrow> hl_stopped (keep_fast_quotes config qs l)) \<and>
     (max_candidates config = None \<longrightarrow> qs' = qs \<and> hl_stopped (keep_fast_quotes config qs l) = hl_stopped l) \<and>
     hl_world (keep_fast_quotes config qs l) = hl_world l \<and> hl_observer (keep_fast_quotes config qs l) = hl_observer l \<and>
     hl_evaluated (keep_fast_quotes config qs l) = hl_evaluated l \<and> hl_next (keep_fast_quotes config qs l) = hl_next l"
proof (induction qs arbitrary: l)
  case (Cons q qs)
  let ?l1 = "l\<lparr>hl_incumbent := raise_incumbent (rq_amount_out q) (hl_incumbent l), hl_quotes := hl_quotes l @ [q]\<rparr>"
  show ?case
  proof (cases "max_candidates_reached (length (hl_quotes ?l1)) config")
    case True
    then have "max_candidates config \<noteq> None" by (auto simp: max_candidates_reached_def split: option.splits)
    then show ?thesis using True by (intro exI [of _ "[q]"]) auto
  next
    case False
    then have "keep_fast_quotes config (q # qs) l = keep_fast_quotes config qs ?l1" by simp
    with Cons.IH [of ?l1] show ?thesis by (fastforce intro: exI [of _ "q # _"])
  qed
qed simp

lemma run_fast_lane_ok:
  assumes "se_in (hx_ends X) = se_out (hx_ends X) \<longrightarrow> se_revisit (hx_ends X)" and "good w"
  shows "locals_ok obs0 (run_fast_lane X reason (heuristic_start stats w obs0))"
proof -
  let ?l0 = "heuristic_start stats w obs0 :: ('p, 'w, 'o) heuristic_locals"
  have ok0: "locals_ok obs0 ?l0" using assms(2)
    unfolding locals_ok_def shown_ok_def by (auto simp: heuristic_start_def intro!: exI [of _ "[]"])
  show ?thesis
  proof (cases "se_revisit (hx_ends X) \<or> \<not> fl_enabled (fast_lane (hx_heuristic X))")
    case True
    then show ?thesis using ok0 by (simp add: run_fast_lane_def)
  next
    case False
    then have ne: "se_in (hx_ends X) \<noteq> se_out (hx_ends X)" using assms(1) by blast
    obtain paths s1 where p: "fast_lane_paths (hx_searcher X) (se_in (hx_ends X)) (se_out (hx_ends X)) (hx_config X) (hx_heuristic X)
        (se_connectors (hx_ends X)) (hl_stats ?l0) = (paths, s1)" by fastforce
    note lane = fast_lane_paths_ok [OF ne p]
    show ?thesis
    proof (cases "paths = []")
      case True
      then show ?thesis using False p locals_ok_frame(1) [OF ok0] by (simp add: run_fast_lane_def)
    next
      case np: False
      define denv where "denv = \<lparr>de_quote_hop = hx_quote X, de_amount_in = hx_amount X, de_on_quote = hx_on_quote X, de_on_failure = None\<rparr>"
      define rep where "rep = quote_paths_observed denv reason paths w obs0"
      obtain order where od: "mset order = mset (filter (\<lambda>p. p \<noteq> []) paths)"
        "delivers good \<lparr>ev_quotes = [], ev_failures = [], ev_stopped = False, ev_world = w, ev_observer = obs0\<rparr>
          (priced price (de_amount_in denv) order)
          (map (\<lambda>p. \<lparr>pf_path = p, pf_reason = reason\<rparr>) (filter (\<lambda>p. p = []) paths) @ unpriced price (de_amount_in denv) order) rep"
        by (rule quote_paths_observed_delivers [of denv w rep reason paths obs0])
          (simp_all add: denv_def quote_X assms(2) rep_def)
      have lo: "lane_ok order" and so: "set order \<subseteq> set paths"
        using lane mset_eq_imp_distinct_iff [OF od(1)] mset_eq_setD [OF od(1)] by (auto simp: lane_ok_def)
      have am: "de_amount_in denv = hx_amount X" by (simp add: denv_def)
      have gw: "good (ev_world rep)" and pre: "prefix (ev_quotes rep) (priced price (hx_amount X) order)"
        using od(2) by (auto simp: delivers_def am split: if_splits)
      note ps = priced_sound [OF lo]
      have snd_rep: "\<forall>q \<in> set (ev_quotes rep). sound_quote q" "distinct (map rq_path (ev_quotes rep))"
        "rq_path ` set (ev_quotes rep) \<subseteq> set paths"
        using ps pre so set_mono_prefix [OF pre] by (auto simp: prefix_def) blast
      have fd: "feed (hx_on_quote X) (ev_quotes rep) obs0 = (\<not> ev_stopped rep, ev_observer rep)"
        using quote_paths_observed_shows [of denv rep reason paths w obs0] by (simp add: denv_def rep_def)
      obtain stats2 where "run_fast_lane X reason ?l0 = keep_fast_quotes (hx_config X) (ev_quotes rep)
          (?l0\<lparr>hl_evaluated := hl_evaluated ?l0 \<union> set paths, hl_stats := stats2, hl_stopped := ev_stopped rep,
               hl_failures := hl_failures ?l0 @ ev_failures rep, hl_world := ev_world rep, hl_observer := ev_observer rep\<rparr>)"
        using False p np by (simp add: run_fast_lane_def rep_def denv_def Let_def heuristic_start_def)
      then obtain l1 where l1: "run_fast_lane X reason ?l0 = keep_fast_quotes (hx_config X) (ev_quotes rep) l1"
        "hl_quotes l1 = []" "hl_evaluated l1 = set paths" "hl_stopped l1 = ev_stopped rep" "hl_world l1 = ev_world rep"
        "hl_observer l1 = ev_observer rep" "hl_next l1 = []"
        by (simp add: heuristic_start_def)
      obtain qs where q: "prefix qs (ev_quotes rep)" "hl_quotes (run_fast_lane X reason ?l0) = qs"
        "hl_stopped l1 \<longrightarrow> hl_stopped (run_fast_lane X reason ?l0)"
        "max_candidates (hx_config X) = None \<longrightarrow> qs = ev_quotes rep"
        "hl_world (run_fast_lane X reason ?l0) = ev_world rep" "hl_observer (run_fast_lane X reason ?l0) = ev_observer rep"
        "hl_evaluated (run_fast_lane X reason ?l0) = set paths" "hl_next (run_fast_lane X reason ?l0) = []"
        using keep_fast_quotes_result [of "ev_quotes rep" "hx_config X" l1] l1 by auto
      have "shown_ok obs0 (run_fast_lane X reason ?l0)"
        unfolding shown_ok_def
        using q(2-4,6) snd_rep(1) fd l1(4) set_mono_prefix [OF q(1)]
        by (intro exI [of _ "ev_quotes rep"] exI [of _ "\<not> ev_stopped rep"]) simp
      moreover have "distinct (map rq_path qs)" using snd_rep(2) q(1) by (auto simp: prefix_def)
      moreover have "rq_path ` set qs \<subseteq> set paths" using snd_rep(3) set_mono_prefix [OF q(1)] by blast
      ultimately show ?thesis using q(2,5,7,8) gw unfolding locals_ok_def by simp
    qed
  qed
qed

section \<open>The result\<close>

text \<open>What a successful search returns: sound quotes, best first, each path once, at most
  \<^verbatim>\<open>max_finalists\<close> of them, none better left out among those kept.\<close>

definition report_ok :: "('p, 'w, 'o) heuristic_locals \<Rightarrow> 'p heuristic_report \<Rightarrow> bool" where
  "report_ok l rep \<longleftrightarrow>
     (\<forall>q \<in> set (hr_quotes rep). sound_quote q) \<and> descending rq_amount_out (hr_quotes rep) \<and>
     distinct (map rq_path (hr_quotes rep)) \<and> length (hr_quotes rep) \<le> max_finalists (hx_heuristic X) \<and>
     set (hr_quotes rep) \<subseteq> set (hl_quotes l) \<and>
     (\<forall>q \<in> set (hl_quotes l). max_finalists (hx_heuristic X) \<noteq> 0 \<longrightarrow>
        hr_quotes rep \<noteq> [] \<and> rq_amount_out q \<le> rq_amount_out (hd (hr_quotes rep)))"

lemma finalists_props:
  fixes quotes :: "'p route_quote list" and h :: heuristic_config
  defines "fin \<equiv> finalists h quotes"
  assumes "distinct (map rq_path quotes)"
  shows "set fin \<subseteq> set quotes" "descending rq_amount_out fin" "distinct (map rq_path fin)" "length fin \<le> max_finalists h"
    "q \<in> set quotes \<Longrightarrow> max_finalists h \<noteq> 0 \<Longrightarrow> fin \<noteq> [] \<and> rq_amount_out q \<le> rq_amount_out (hd fin)"
proof -
  let ?s = "sort_desc rq_amount_out quotes"
  show "set fin \<subseteq> set quotes" unfolding fin_def finalists_def using set_take_subset [of _ ?s] by simp
  show "descending rq_amount_out fin" by (simp add: fin_def finalists_def descending_take)
  have "mset (map rq_path ?s) = mset (map rq_path quotes)" by simp
  then have "distinct (map rq_path ?s)" using assms(2) mset_eq_imp_distinct_iff by blast
  then show "distinct (map rq_path fin)" by (simp add: fin_def finalists_def take_map [symmetric])
  show "length fin \<le> max_finalists h" by (simp add: fin_def finalists_def)
  show "fin \<noteq> [] \<and> rq_amount_out q \<le> rq_amount_out (hd fin)" if q: "q \<in> set quotes" and m: "max_finalists h \<noteq> 0"
  proof -
    have "?s \<noteq> []" using q by auto
    then have "hd fin = hd ?s" "fin \<noteq> []" using m by (simp_all add: fin_def finalists_def)
    then show ?thesis using sort_desc_hd_max [OF q, of rq_amount_out] by simp
  qed
qed

lemma report_of_ok: "locals_ok obs0 l \<Longrightarrow> report_ok l (report_of (hx_heuristic X) l)"
proof -
  assume ok: "locals_ok obs0 l"
  then have "distinct (map rq_path (hl_quotes l))" by (simp add: locals_ok_def)
  note f = finalists_props [OF this, where h = "hx_heuristic X"]
  show ?thesis using f locals_ok_sound [OF ok] by (fastforce simp: report_ok_def report_of_def)
qed

text \<open>Quoting the finalists again gives the same quotes: there is nothing to fail.\<close>

lemma requote_same:
  assumes "\<forall>q \<in> set qs. sound_quote q" and "good w"
    and "quote_paths quote reason (map rq_path qs) (hx_amount X) w = (quotes, failures, w')"
  shows "mset quotes = mset qs" and "failures = []" and "good w'"
proof -
  have np: "filter (\<lambda>p. p \<noteq> []) (map rq_path qs) = map rq_path qs" "filter (\<lambda>p. p = []) (map rq_path qs) = []"
    using assms(1) by (auto simp: filter_id_conv filter_empty_conv sound_quote_def route_of_def candidate_route_def)
  have "priced price (hx_amount X) (map rq_path qs) = qs \<and> unpriced price (hx_amount X) (map rq_path qs) = []"
    using assms(1) by (induction qs) (auto simp: priced_def unpriced_def sound_quote_def)
  then show "mset quotes = mset qs" and "failures = []" and "good w'"
    using quote_paths_results [OF assms(2,3)] unfolding np by simp_all
qed

lemma report_ok_perm:
  assumes "report_ok l rep" and "mset quotes = mset (hr_quotes rep)"
  shows "report_ok l \<lparr>hr_quotes = sort_desc rq_amount_out quotes, hr_stopped = s, hr_failed = f\<rparr>"
proof -
  have e: "set quotes = set (hr_quotes rep)" "length quotes = length (hr_quotes rep)" "quotes = [] \<longleftrightarrow> hr_quotes rep = []"
    using assms(2) by (metis set_mset_mset, metis size_mset, metis mset_zero_iff)
  have "mset (map rq_path (sort_desc rq_amount_out quotes)) = mset (map rq_path (hr_quotes rep))" using assms(2) by simp
  then have d: "distinct (map rq_path (sort_desc rq_amount_out quotes))"
    using assms(1) mset_eq_imp_distinct_iff unfolding report_ok_def by blast
  have "rq_amount_out q \<le> rq_amount_out (hd (sort_desc rq_amount_out quotes))"
    if "rq_amount_out q \<le> rq_amount_out (hd (hr_quotes rep))" "hr_quotes rep \<noteq> []" for q
    using that sort_desc_hd_max [of "hd (hr_quotes rep)" quotes rq_amount_out] e(1) by (force intro: order.trans)
  then have "\<forall>q \<in> set (hl_quotes l). max_finalists (hx_heuristic X) \<noteq> 0 \<longrightarrow>
      sort_desc rq_amount_out quotes \<noteq> [] \<and> rq_amount_out q \<le> rq_amount_out (hd (sort_desc rq_amount_out quotes))"
    using assms(1) e(3) unfolding report_ok_def by (metis sort_desc_Nil_iff)
  then show ?thesis using assms(1) e d by (simp add: report_ok_def)
qed

lemma conclude_search_ok:
  assumes ok: "locals_ok obs0 l" and fin: "1 \<le> max_finalists (hx_heuristic X)"
    and r: "conclude_search X reason l = (res, l')"
  shows "good (hl_world l') \<and> hl_observer l' = hl_observer l \<and>
    (case res of
       Inl err \<Rightarrow> \<not> hl_stopped l \<and> hl_quotes l = [] \<and>
         (if hl_failures l = [] then err = NoPath (se_in (hx_ends X)) (se_out (hx_ends X))
          else err = NoViableRoute (length (hl_failures l)) (hl_failures l))
     | Inr rep \<Rightarrow> report_ok l rep \<and> hr_failed rep = length (hl_failures l) \<and>
         hr_stopped rep = hl_stopped l \<and> (\<not> hl_stopped l \<longrightarrow> hl_quotes l \<noteq> []))"
proof -
  have gw: "good (hl_world l)" using ok by (simp add: locals_ok_def)
  note rep = report_of_ok [OF ok]
  show ?thesis
  proof (cases "hl_stopped l \<or> hl_quotes l = [] \<or> \<not> simulate_finalists (hx_heuristic X)")
    case True
    then show ?thesis using r gw rep by (auto simp: conclude_search_def report_of_def split: if_splits)
  next
    case False
    define chosen where "chosen = finalists (hx_heuristic X) (hl_quotes l)"
    have ch: "hr_quotes (report_of (hx_heuristic X) l) = chosen" by (simp add: report_of_def chosen_def)
    obtain quotes failures w where q: "quote_paths quote reason (map rq_path chosen) (hx_amount X) (hl_world l) = (quotes, failures, w)"
      by (metis prod_cases3)
    have "\<forall>q \<in> set chosen. sound_quote q" using rep by (simp add: report_ok_def ch)
    note same = requote_same [OF this gw q]
    have "chosen \<noteq> []" using False fin rep unfolding report_ok_def ch by (cases "hl_quotes l") auto
    then have "quotes \<noteq> []" using same(1) by auto
    then have "(rank_or_no_viable (length chosen) quotes (hl_failures l @ failures) :: ('p, 'e) search_error + 'p route_quote list) =
        Inr (sort_desc rq_amount_out quotes)"
      by (simp add: rank_or_no_viable_def Let_def)
    then have res: "res = Inr \<lparr>hr_quotes = sort_desc rq_amount_out quotes, hr_stopped = False, hr_failed = length (hl_failures l)\<rparr>"
      and l': "l' = l\<lparr>hl_world := w\<rparr>"
      using r False q same(2) by (auto simp: conclude_search_def chosen_def [symmetric] quote_X)
    have "report_ok l \<lparr>hr_quotes = sort_desc rq_amount_out quotes, hr_stopped = False, hr_failed = length (hl_failures l)\<rparr>"
      by (rule report_ok_perm [OF rep]) (simp add: ch same(1))
    then show ?thesis using res l' same(3) False by simp
  qed
qed

text \<open>What was shown to the observer, and how it relates to the report.\<close>

definition outcome_ok ::
  "'o \<Rightarrow> (('p, 'e) search_error + 'p heuristic_report) \<Rightarrow> ('p, 'w, 'o) heuristic_locals \<Rightarrow> bool" where
  "outcome_ok obs0 res l \<longleftrightarrow>
     good (hl_world l) \<and>
     (\<exists>ns b. (\<forall>q \<in> set ns. sound_quote q) \<and> feed (hx_on_quote X) ns obs0 = (b, hl_observer l) \<and>
        (case res of
           Inl err \<Rightarrow>
             (err = NoPath (se_in (hx_ends X)) (se_out (hx_ends X)) \<or>
              (\<exists>failures. failures \<noteq> [] \<and> err = NoViableRoute (length failures) failures)) \<and>
             (max_candidates (hx_config X) = None \<longrightarrow> ns = [])
         | Inr rep \<Rightarrow>
             (\<forall>q \<in> set (hr_quotes rep). sound_quote q) \<and> descending rq_amount_out (hr_quotes rep) \<and>
             distinct (map rq_path (hr_quotes rep)) \<and> length (hr_quotes rep) \<le> max_finalists (hx_heuristic X) \<and>
             set (hr_quotes rep) \<subseteq> set ns \<and> (b \<or> hr_stopped rep) \<and>
             (max_candidates (hx_config X) = None \<longrightarrow> distinct (map rq_path ns) \<and>
               (\<forall>q \<in> set ns. hr_quotes rep \<noteq> [] \<and> rq_amount_out q \<le> rq_amount_out (hd (hr_quotes rep))))))"

lemma outcome_report:
  assumes ok: "locals_ok obs0 l" and "report_ok l rep" and "hr_stopped rep = hl_stopped l"
    and "good (hl_world l')" "hl_observer l' = hl_observer l" and fin: "1 \<le> max_finalists (hx_heuristic X)"
  shows "outcome_ok obs0 (Inr rep) l'"
proof -
  obtain ns b where ns: "\<forall>q \<in> set ns. sound_quote q" "set (hl_quotes l) \<subseteq> set ns"
      "max_candidates (hx_config X) = None \<longrightarrow> ns = hl_quotes l"
      "feed (hx_on_quote X) ns obs0 = (b, hl_observer l)" "b \<or> hl_stopped l"
    using ok by (auto simp: locals_ok_def shown_ok_def)
  have "distinct (map rq_path (hl_quotes l))" using ok by (simp add: locals_ok_def)
  then have "distinct (map rq_path ns) \<and> (\<forall>q \<in> set ns. hr_quotes rep \<noteq> [] \<and> rq_amount_out q \<le> rq_amount_out (hd (hr_quotes rep)))"
    if "max_candidates (hx_config X) = None"
    using that ns(3) assms(2) fin unfolding report_ok_def by auto
  then show ?thesis
    unfolding outcome_ok_def sum.case using assms(2-5) ns
    by (intro conjI exI [of _ ns] exI [of _ b]) (auto simp: report_ok_def)
qed

lemma outcome_error:
  assumes ok: "locals_ok obs0 l" and "hl_quotes l = []" and "good (hl_world l')" "hl_observer l' = hl_observer l"
    and "err = NoPath (se_in (hx_ends X)) (se_out (hx_ends X)) \<or>
      (\<exists>failures. failures \<noteq> [] \<and> err = NoViableRoute (length failures) failures)"
  shows "outcome_ok obs0 (Inl err) l'"
proof -
  obtain ns b where "\<forall>q \<in> set ns. sound_quote q" "max_candidates (hx_config X) = None \<longrightarrow> ns = []"
      "feed (hx_on_quote X) ns obs0 = (b, hl_observer l)"
    using ok assms(2) by (auto simp: locals_ok_def shown_ok_def)
  then show ?thesis unfolding outcome_ok_def sum.case using assms(3-5)
    by (intro conjI exI [of _ ns] exI [of _ b]) auto
qed

lemma run_heuristic_ok:
  assumes "se_in (hx_ends X) = se_out (hx_ends X) \<longrightarrow> se_revisit (hx_ends X)" and "good w"
    and fin: "1 \<le> max_finalists (hx_heuristic X)"
  shows "\<exists>res l. run_heuristic X reason limit (heuristic_start stats w obs0) = Some (res, l) \<and> outcome_ok obs0 res l"
proof -
  define l1 where "l1 = run_fast_lane X reason (heuristic_start stats w obs0)"
  have ok: "locals_ok obs0 l1" unfolding l1_def by (rule run_fast_lane_ok [OF assms(1,2)])
  have gw: "good (hl_world l1)" using ok by (simp add: locals_ok_def)
  show ?thesis
  proof (cases "hl_stopped l1 \<or> limit = LimitFastLane")
    case True
    then show ?thesis
      using outcome_report [OF ok report_of_ok [OF ok] _ gw refl fin]
        outcome_error [OF ok _ gw refl, of "NoViableRoute (length (hl_failures l1)) (hl_failures l1)"]
      by (auto simp: run_heuristic_def l1_def [symmetric] Let_def report_of_def)
  next
    case False
    obtain l2 where p: "search_passes X (RefinementPass \<in> set (heuristic_pass_modes (hx_heuristic X)))
        (heuristic_pass_modes (hx_heuristic X)) l1 = Some l2" and ok2: "locals_ok obs0 l2"
      using search_passes_ok [OF ok] False by blast
    obtain res l3 where c: "conclude_search X reason l2 = (res, l3)" by fastforce
    have r: "run_heuristic X reason limit (heuristic_start stats w obs0) = Some (res, l3)"
      using False p c by (simp add: run_heuristic_def l1_def [symmetric] Let_def)
    note cs = conclude_search_ok [OF ok2 fin c]
    have "outcome_ok obs0 res l3"
    proof (cases res)
      case (Inl err)
      then show ?thesis using cs unfolding Inl by (intro outcome_error [OF ok2]) (auto split: if_splits)
    next
      case (Inr rep)
      then show ?thesis using cs unfolding Inr by (intro outcome_report [OF ok2 _ _ _ _ fin]) auto
    qed
    then show ?thesis using r by blast
  qed
qed

lemma sound_quote_iff:
  "sound_quote q \<longleftrightarrow>
     candidate_route (pool_links g) (se_in (hx_ends X)) (se_out (hx_ends X))
       ((hx_config X)\<lparr>connector_tokens := se_connectors (hx_ends X)\<rparr>) (se_revisit (hx_ends X)) (rq_path q) \<and>
     price_path price (hx_amount X) (rq_path q) = Inr q"
  by (simp add: sound_quote_def route_of_def env_def cfg_def enumerate_env_def)

end

section \<open>Properties\<close>

lemma routes_connectors_mono:
  assumes "candidate_route L t u (config\<lparr>connector_tokens := connector_tokens_for_heuristic S t u config h\<rparr>) revisit p"
  shows "candidate_route L t u config revisit p"
  using assms by (cases "connector_tokens config")
    (auto simp: candidate_route_def connector_tokens_for_heuristic_def connector_allowed_def connector_allowed_with_tokens_def)

lemma heuristic_search_cases:
  fixes S :: "('g, 'p, 'a, 'c, 's, 'e) amm_searcher"
  assumes "graph_inv G ends (se_graph S)" and "se_ops S = G" and "hop_quoter quote price good" and "good w"
    and "search_ok config" and "search_mode_of config = ModeHeuristic h" and "token_in = token_out \<longrightarrow> revisit"
  shows "\<exists>res l ns b.
    find_routes_heuristic S quote token_in token_out amount config h revisit limit on_quote stats w obs = Some (res, l) \<and> good (hl_world l) \<and>
    (\<forall>q \<in> set ns. rq_path q \<in> routes_between (se_graph S) token_in token_out config revisit \<and>
       price_path price amount (rq_path q) = Inr q) \<and>
    feed on_quote ns obs = (b, hl_observer l) \<and>
    (case res of
       Inr rep \<Rightarrow>
         set (hr_quotes rep) \<subseteq> set ns \<and> descending rq_amount_out (hr_quotes rep) \<and>
         distinct (map rq_path (hr_quotes rep)) \<and> length (hr_quotes rep) \<le> max_finalists h \<and> (b \<or> hr_stopped rep) \<and>
         (max_candidates config = None \<longrightarrow>
           (\<forall>q \<in> set ns. hr_quotes rep \<noteq> [] \<and> rq_amount_out q \<le> rq_amount_out (hd (hr_quotes rep))))
     | Inl err \<Rightarrow>
         (if node_index (se_graph S) token_in = None then err = TokenNotFound token_in
          else if node_index (se_graph S) token_out = None then err = TokenNotFound token_out
          else err = NoPath token_in token_out \<or>
            (\<exists>failures. failures \<noteq> [] \<and> err = NoViableRoute (length failures) failures)))"
proof -
  have v: "(validate_search config :: ('p, 'e) search_error + unit) = Inr ()" using assms(5) by (simp add: validate_search_ok)
  let ?l0 = "heuristic_start stats w obs"
  show ?thesis
  proof (cases "node_index (se_graph S) token_in = None \<or> node_index (se_graph S) token_out = None")
    case True
    then show ?thesis
      using v by (cases "node_index (se_graph S) token_in")
        (auto simp: find_routes_heuristic_def Let_def heuristic_start_def assms(4) intro!: exI [of _ "[]"])
  next
    case False
    then obtain source target where n: "node_index (se_graph S) token_in = Some source" "node_index (se_graph S) token_out = Some target"
      by auto
    define X where "X = \<lparr>hx_searcher = S,
       hx_ends = \<lparr>se_source = source, se_target = target, se_in = token_in, se_out = token_out,
         se_connectors = connector_tokens_for_heuristic S token_in token_out config h, se_revisit = revisit\<rparr>,
       hx_amount = amount, hx_config = config, hx_heuristic = h, hx_quote = quote, hx_on_quote = on_quote\<rparr>"
    have loc: "heuristic_search G ends (se_graph S) quote price good X"
      unfolding heuristic_search_def heuristic_search_axioms_def consistent_graph_def
      using assms n by (auto simp: X_def search_ok_def)
    have fin: "1 \<le> max_finalists (hx_heuristic X)" using assms(5,6) by (simp add: X_def search_ok_def heuristic_ok_def)
    have rv: "se_in (hx_ends X) = se_out (hx_ends X) \<longrightarrow> se_revisit (hx_ends X)" using assms(7) by (simp add: X_def)
    obtain res l where r: "run_heuristic X (ar_render (se_registry S) EmptyPath) limit ?l0 = Some (res, l)"
      and o: "heuristic_search.outcome_ok (se_graph S) price good X obs res l"
      using heuristic_search.run_heuristic_ok [OF loc rv assms(4) fin] by blast
    have f: "find_routes_heuristic S quote token_in token_out amount config h revisit limit on_quote stats w obs = Some (res, l)"
      using r v n by (simp add: find_routes_heuristic_def X_def Let_def)
    have sound: "heuristic_search.sound_quote (se_graph S) price X q \<Longrightarrow>
        rq_path q \<in> routes_between (se_graph S) token_in token_out config revisit \<and> price_path price amount (rq_path q) = Inr q" for q
      using routes_connectors_mono [where L = "pool_links (se_graph S)" and t = token_in and u = token_out
          and config = config and S = S and h = h and revisit = revisit and p = "rq_path q"]
      unfolding heuristic_search.sound_quote_iff [OF loc] by (simp add: X_def routes_between_def)
    have X: "se_in (hx_ends X) = token_in" "se_out (hx_ends X) = token_out" "hx_on_quote X = on_quote"
        "hx_config X = config" "hx_heuristic X = h"
      by (simp_all add: X_def)
    obtain ns b where ns: "\<forall>q \<in> set ns. heuristic_search.sound_quote (se_graph S) price X q"
        "feed on_quote ns obs = (b, hl_observer l)"
      and rest: "case res of
           Inl err \<Rightarrow>
             (err = NoPath token_in token_out \<or> (\<exists>failures. failures \<noteq> [] \<and> err = NoViableRoute (length failures) failures)) \<and>
             (max_candidates config = None \<longrightarrow> ns = [])
         | Inr rep \<Rightarrow>
             (\<forall>q \<in> set (hr_quotes rep). heuristic_search.sound_quote (se_graph S) price X q) \<and>
             descending rq_amount_out (hr_quotes rep) \<and>
             distinct (map rq_path (hr_quotes rep)) \<and> length (hr_quotes rep) \<le> max_finalists h \<and>
             set (hr_quotes rep) \<subseteq> set ns \<and> (b \<or> hr_stopped rep) \<and>
             (max_candidates config = None \<longrightarrow> distinct (map rq_path ns) \<and>
               (\<forall>q \<in> set ns. hr_quotes rep \<noteq> [] \<and> rq_amount_out q \<le> rq_amount_out (hd (hr_quotes rep))))"
      and gw: "good (hl_world l)"
      using o unfolding heuristic_search.outcome_ok_def [OF loc] X by blast
    show ?thesis
      by (rule exI [of _ res], rule exI [of _ l], rule exI [of _ ns], rule exI [of _ b])
        (use f ns rest sound n gw in \<open>cases res; auto\<close>)
  qed
qed


section \<open>A concrete search\<close>

definition demo_searcher :: "(nat slot_graph, nat, unit, unit, unit, unit) amm_searcher" where
  "demo_searcher = \<lparr>se_ops = slot_graph_ops, se_graph = demo_graph, se_registry = demo_registry,
     se_liquidity = None, se_debug_pool = (\<lambda>p. replicate p CHR ''p''), se_debug_address = (\<lambda>a. replicate (unat a) CHR ''t'')\<rparr>"

text \<open>A service that charges one unit per hop.\<close>

definition demo_hop_price :: "nat hop \<Rightarrow> u256 \<Rightarrow> string + u256" where
  "demo_hop_price h a = (if a = 0 then Inl ''no liquidity'' else Inr (a - 1))"

definition demo_hop_quote :: "nat hop \<Rightarrow> u256 \<Rightarrow> nat \<Rightarrow> (string + u256) \<times> nat" where
  "demo_hop_quote h a calls = (demo_hop_price h a, Suc calls)"

definition demo_heuristic_ctx :: "(nat slot_graph, nat, unit, unit, unit, unit, nat, nat route_quote list) heuristic_ctx" where
  "demo_heuristic_ctx =
     \<lparr>hx_searcher = demo_searcher,
      hx_ends = \<lparr>se_source = the (node_index demo_graph 1), se_target = the (node_index demo_graph 2), se_in = 1, se_out = 2,
        se_connectors = None, se_revisit = False\<rparr>,
      hx_amount = 9, hx_config = with_heuristic default_config, hx_heuristic = heuristic_balanced,
      hx_quote = demo_hop_quote, hx_on_quote = Some (\<lambda>q seen. (True, q # seen))\<rparr>"

interpretation demo_quoter: hop_quoter demo_hop_quote demo_hop_price "\<lambda>_. True"
  by unfold_locales (simp_all add: demo_hop_quote_def)

interpretation demo_heuristic: heuristic_search slot_graph_ops slot_ends demo_graph demo_hop_quote demo_hop_price
  "\<lambda>_. True" demo_heuristic_ctx
  using demo_nodes by unfold_locales
    (auto simp: demo_heuristic_ctx_def demo_searcher_def with_heuristic_def default_config_def)

lemma demo_heuristic_config: "search_ok (with_heuristic default_config)"
  "search_mode_of (with_heuristic default_config) = ModeHeuristic heuristic_balanced"
  by (simp_all add: search_ok_def with_heuristic_def default_config_def heuristic_ok_def heuristic_balanced_def
      fast_lane_enabled_def shortlist_ordering_only_def)


end
