(* ===== verification/HeuristicRulesProps.thy ===== *)
theory HeuristicRulesProps
  imports HeuristicProps "HOL-Library.Product_Lexorder"
begin

text \<open>
  What the rules of the heuristic search promise: the dominance index keeps exactly the best
  labels, the ordering of groups and of the frontier does not depend on hash order, the
  reachability check is exact, and the upper bound on a prefix is a real bound.
\<close>

section \<open>Comparators given by keys\<close>

lemma cmp_pair: "cmp (a, b) (c, d) = then_with (cmp a c) (cmp b d)"
  by (auto simp: cmp_def)

lemma then_with_assoc: "then_with (then_with a b) c = then_with a (then_with b c)"
  by (cases a) simp_all

lemma cmp_minus: "cmp (- a) (- b :: int) = cmp b a"
  by (auto simp: cmp_def)

lemma cmp_int: "cmp (int a) (int b) = cmp a b"
  by (auto simp: cmp_def)

lemma insert_by_key: "(\<And>y. y \<in> set ys \<Longrightarrow> c x y = cmp (k x) (k y)) \<Longrightarrow> insert_by c x ys = insort_key k x ys"
  by (induction ys) (auto simp: cmp_def not_le)

lemma sort_by_key:
  assumes "\<And>x y. x \<in> set xs \<Longrightarrow> y \<in> set xs \<Longrightarrow> c x y = cmp (k x) (k y)"
  shows "sort_by c xs = sort_key k xs"
  using assms
proof (induction xs)
  case (Cons x xs)
  then have "sort_by c xs = sort_key k xs" by simp
  then have "sort_by c (x # xs) = insert_by c x (sort_key k xs)" by (simp add: sort_by_def)
  also have "\<dots> = insort_key k x (sort_key k xs)" by (rule insert_by_key) (simp add: Cons.prems)
  finally show ?case by simp
qed (simp add: sort_by_def)

text \<open>A comparator that is the comparison of distinct keys has one sorted order.\<close>

lemma sort_by_unique:
  assumes "\<And>x y. x \<in> set xs \<Longrightarrow> y \<in> set xs \<Longrightarrow> c x y = cmp (k x) (k y)"
    and "inj_on k (set xs)" and "mset xs = mset ys"
  shows "sort_by c xs = sort_by c ys"
proof -
  have s: "set ys = set xs" using assms(3) by (metis set_mset_mset)
  have "sort_by c ys = sort_key k ys" using assms(1) s by (intro sort_by_key) simp_all
  moreover have "sort_key k xs = sort_key k ys" using assms(2,3) by (intro sort_key_inj_key_eq) simp_all
  ultimately show ?thesis using sort_by_key [of xs c k] assms(1) by simp
qed

section \<open>Dominance\<close>

lemma covers_refl [simp]: "covers l l"
  by (simp add: covers_def)

lemma covers_trans: "covers a b \<Longrightarrow> covers b c \<Longrightarrow> covers a c"
  by (auto simp: covers_def)

fun offer_all :: "(address \<times> 'p prefix_label) list \<Rightarrow> 'p dominance_index \<Rightarrow> 'p dominance_index" where
  "offer_all [] D = D"
| "offer_all ((t, m) # ms) D = offer_all ms (snd (insert_or_dominated t m D))"

lemma offer_all_snoc: "offer_all (ms @ [(t, m)]) D = snd (insert_or_dominated t m (offer_all ms D))"
  by (induction ms D rule: offer_all.induct) simp_all

definition antichain :: "'p prefix_label list \<Rightarrow> bool" where
  "antichain ls \<longleftrightarrow> distinct ls \<and> (\<forall>a \<in> set ls. \<forall>b \<in> set ls. covers a b \<longrightarrow> a = b)"

lemma labels_at_update [simp]: "labels_at (D(t \<mapsto> ls)) u = (if u = t then ls else labels_at D u)"
  by (simp add: labels_at_def)

lemma insert_or_dominated_at:
  "labels_at (snd (insert_or_dominated t m D)) u =
     (if u \<noteq> t then labels_at D u
      else if \<exists>l \<in> set (labels_at D t). covers l m then labels_at D t
      else filter (\<lambda>l. \<not> covers m l) (labels_at D t) @ [m])"
  by (simp add: insert_or_dominated_def Let_def)

lemma offered_labels:
  "antichain (labels_at (offer_all ms Map.empty) t) \<and>
   set (labels_at (offer_all ms Map.empty) t) \<subseteq> {m. (t, m) \<in> set ms} \<and>
   (\<forall>m. (t, m) \<in> set ms \<longrightarrow> (\<exists>l \<in> set (labels_at (offer_all ms Map.empty) t). covers l m))"
proof (induction ms rule: rev_induct)
  case Nil
  then show ?case by (simp add: labels_at_def antichain_def)
next
  case (snoc x ms)
  obtain u m where x: "x = (u, m)" by fastforce
  let ?old = "labels_at (offer_all ms Map.empty)"
  have new: "labels_at (offer_all (ms @ [x]) Map.empty) t =
      (if t \<noteq> u then ?old t else if \<exists>l \<in> set (?old u). covers l m then ?old u
       else filter (\<lambda>l. \<not> covers m l) (?old u) @ [m])"
    by (simp add: x offer_all_snoc insert_or_dominated_at)
  consider "t \<noteq> u" | "t = u" "\<exists>l \<in> set (?old u). covers l m" | "t = u" "\<not> (\<exists>l \<in> set (?old u). covers l m)" by blast
  then show ?case
  proof cases
    case 1
    then show ?thesis using snoc.IH unfolding new by (auto simp: x)
  next
    case 2
    then show ?thesis using snoc.IH unfolding new by (auto simp: x)
  next
    case 3
    then have l: "labels_at (offer_all (ms @ [x]) Map.empty) t = filter (\<lambda>l. \<not> covers m l) (?old t) @ [m]"
      unfolding new by simp
    have c: "\<exists>k \<in> set (labels_at (offer_all (ms @ [x]) Map.empty) t). covers k a" if a: "(t, a) \<in> set (ms @ [x])" for a
    proof (cases "a = m")
      case True
      then show ?thesis by (simp add: l)
    next
      case False
      then obtain k where k: "k \<in> set (?old t)" "covers k a" using snoc.IH a by (auto simp: x 3)
      then show ?thesis by (cases "covers m k") (auto simp: l intro: covers_trans)
    qed
    have "antichain (filter (\<lambda>l. \<not> covers m l) (?old t) @ [m])"
      using 3 snoc.IH by (auto simp: antichain_def)
    then show ?thesis using snoc.IH c unfolding l by (auto simp: x 3)
  qed
qed

lemma strictly_covers:
  assumes "finite (pl_visited m)" "finite (pl_used m)" and "covers l m"
  shows "pl_amount m < pl_amount l \<or> card (pl_visited l) < card (pl_visited m) \<or> card (pl_used l) < card (pl_used m)
    \<longleftrightarrow> \<not> covers m l"
proof -
  have "card (pl_visited l) < card (pl_visited m) \<longleftrightarrow> \<not> pl_visited m \<subseteq> pl_visited l"
    using assms by (metis card_mono covers_def finite_subset leD psubsetI psubset_card_mono)
  moreover have "card (pl_used l) < card (pl_used m) \<longleftrightarrow> \<not> pl_used m \<subseteq> pl_used l"
    using assms by (metis card_mono covers_def finite_subset leD psubsetI psubset_card_mono)
  ultimately show ?thesis by (auto simp: covers_def not_le)
qed

text \<open>C20. The dominance index: whatever prefixes are offered, the labels kept for a token are
  offered ones, pairwise incomparable, and cover every prefix offered for it; a further prefix
  is reported dominated exactly when one offered earlier for the same token has at least its
  output, no other visited token and no other blocked pool, so a prefix offered before is always
  dominated; and it is strictly dominated exactly when an offered one is at least as good and it
  is not at least as good as that one.\<close>

theorem dominance_index_exact:
  fixes m :: "'p prefix_label" and ms :: "(address \<times> 'p prefix_label) list"
  defines "D \<equiv> offer_all ms Map.empty"
  assumes "finite (pl_visited m)" "finite (pl_used m)"
  shows "antichain (labels_at D t) \<and> set (labels_at D t) \<subseteq> {l. (t, l) \<in> set ms} \<and>
    fst (insert_or_dominated t m D) = (\<exists>l. (t, l) \<in> set ms \<and> covers l m) \<and>
    is_strictly_dominated t m D = (\<exists>l. (t, l) \<in> set ms \<and> covers l m \<and> \<not> covers m l)"
proof -
  note o = offered_labels [of ms t, folded D_def]
  have "fst (insert_or_dominated t m D) = (\<exists>l. (t, l) \<in> set ms \<and> covers l m)"
    using o by (auto simp: insert_or_dominated_def Let_def intro: covers_trans)
  moreover have "is_strictly_dominated t m D = (\<exists>l \<in> set (labels_at D t). covers l m \<and> \<not> covers m l)"
    using strictly_covers [OF assms(2,3)] by (auto simp: is_strictly_dominated_def)
  moreover have "(\<exists>l \<in> set (labels_at D t). covers l m \<and> \<not> covers m l) = (\<exists>l. (t, l) \<in> set ms \<and> covers l m \<and> \<not> covers m l)"
    using o by (metis (no_types, lifting) covers_trans mem_Collect_eq subsetD)
  ultimately show ?thesis using o by simp
qed

theorem dominance_index_exact_witness:
  "is_strictly_dominated 7 \<lparr>pl_amount = 4, pl_visited = {1, 7}, pl_used = {3 :: nat}\<rparr>
     (offer_all [(7, \<lparr>pl_amount = 5, pl_visited = {1, 7}, pl_used = {3}\<rparr>)] Map.empty)"
  using dominance_index_exact [of "\<lparr>pl_amount = 4, pl_visited = {1, 7}, pl_used = {3 :: nat}\<rparr>"
      "[(7, \<lparr>pl_amount = 5, pl_visited = {1, 7}, pl_used = {3}\<rparr>)]" 7]
  by (simp add: covers_def)

section \<open>Order of groups\<close>

definition opt_nat :: "u256 option \<Rightarrow> nat" where
  "opt_nat b = (case b of None \<Rightarrow> 0 | Some v \<Rightarrow> Suc (unat v))"

lemma cmp_opt_nat: "cmp (opt_nat a) (opt_nat b) = cmp a b"
  by (cases a; cases b) (auto simp: cmp_def opt_nat_def word_less_nat_alt word_unat_eq_iff)

definition ranks_branches :: "liquidity_pruning_config \<Rightarrow> bool" where
  "ranks_branches lp \<longleftrightarrow> lp_enabled lp \<and> lp_rank_branches lp"

definition group_key ::
  "heuristic_config \<Rightarrow> liquidity_pruning_config \<Rightarrow> 'p scored_group \<Rightarrow> int \<times> int \<times> int \<times> int \<times> int \<times> int \<times> address" where
  "group_key h lp x =
     (let closes = hg_closes (sg_group x); ranked = ranks_branches lp \<and> \<not> closes; known = score_known (sg_liquidity x)
      in (if target_first h \<and> \<not> closes then 1 else 0,
          if ranked \<and> \<not> known then 1 else 0,
          if ranked \<and> known then - int (opt_nat (max_input_balance (sg_liquidity x))) else 0,
          if ranked \<and> known then - int (opt_nat (sum_input_balance (sg_liquidity x))) else 0,
          - int (sg_connector x), - int (sg_degree x), hg_token (sg_group x)))"

lemma group_tail_key:
  "group_tail x y = cmp (- int (sg_connector x), - int (sg_degree x), hg_token (sg_group x))
     (- int (sg_connector y), - int (sg_degree y), hg_token (sg_group y))"
  by (simp add: group_tail_def cmp_pair cmp_minus cmp_int)

lemma cmp_const [simp]: "cmp a a = OrdEqual" "cmp 0 (1 :: int) = OrdLess" "cmp 1 (0 :: int) = OrdGreater"
    "cmp True False = OrdGreater" "cmp False True = OrdLess"
  by (simp_all add: cmp_def)

lemmas group_order_simps = group_order_def group_key_def Let_def group_tail_key cmp_pair ranks_branches_def
  cmp_minus cmp_int cmp_opt_nat then_with_assoc

lemma group_order_key:
  assumes "target_first h \<or> \<not> ranks_branches lp"
  shows "group_order h lp x y = cmp (group_key h lp x) (group_key h lp y)"
  using assms
  by (cases "hg_closes (sg_group x)"; cases "hg_closes (sg_group y)"; cases "target_first h"; cases "lp_enabled lp"; cases "lp_rank_branches lp";
      cases "score_known (sg_liquidity x)"; cases "score_known (sg_liquidity y)")
    (simp_all add: group_order_simps)

lemma branch_score_stats:
  "fst (branch_liquidity_score S hops closes lp stats) = fst (branch_liquidity_score S hops closes lp stats')"
  by (simp add: branch_liquidity_score_def Let_def split: option.split)

definition scored_group_of ::
  "('g, 'p, 'a, 'c, 's, 'e) amm_searcher \<Rightarrow> search_ends \<Rightarrow> liquidity_pruning_config \<Rightarrow>
     address \<times> 'p hop list \<Rightarrow> 'p scored_group" where
  "scored_group_of S E lp g =
     (let closes = (node_index (se_graph S) (fst g) = Some (se_target E))
      in \<lparr>sg_group = \<lparr>hg_token = fst g, hg_hops = snd g, hg_closes = closes\<rparr>,
          sg_liquidity = fst (branch_liquidity_score S (snd g) closes lp no_prune_stats),
          sg_connector = (case se_connectors E of None \<Rightarrow> 0 | Some ts \<Rightarrow> (if fst g \<in> ts then 1 else 0)),
          sg_degree = (case node_index (se_graph S) (fst g) of None \<Rightarrow> 0 | Some node \<Rightarrow> token_degree S node)\<rparr>)"

lemma score_groups_map: "fst (score_groups S E h lp gs stats) = map (scored_group_of S E lp) gs"
proof (induction S E h lp gs stats rule: score_groups.induct)
  case (2 S E h lp token hops gs stats)
  then show ?case
    using branch_score_stats [of S hops _ lp _ no_prune_stats]
    by (auto simp: Let_def scored_group_of_def split: prod.splits) (metis fst_conv)+
qed simp

lemma scored_group_token [simp]: "hg_token (sg_group (scored_group_of S E lp g)) = fst g"
  by (simp add: scored_group_of_def Let_def)

lemma group_key_token: "group_key h lp x = group_key h lp y \<Longrightarrow> hg_token (sg_group x) = hg_token (sg_group y)"
  by (simp add: group_key_def Let_def)

text \<open>C21. The order in which branches are explored does not depend on the iteration order of the
  hash map they were grouped in: when the target comes first, or branches are not ranked by
  liquidity, every enumeration of the same groups (one per token) is sorted into the same list.\<close>

theorem hop_groups_deterministic:
  assumes "target_first h \<or> \<not> (lp_enabled lp \<and> lp_rank_branches lp)"
    and "mset grouped = mset grouped'" and "distinct (map fst grouped)"
  shows "fst (sorted_heuristic_hop_groups S E h lp grouped stats) = fst (sorted_heuristic_hop_groups S E h lp grouped' stats)"
proof -
  let ?f = "scored_group_of S E lp"
  have "inj_on (\<lambda>x. group_key h lp (?f x)) (set grouped)"
    using assms(3) by (intro inj_onI) (metis distinct_map group_key_token inj_onD scored_group_token)
  then have "inj_on (group_key h lp) (set (map ?f grouped))" by (auto simp: inj_on_def)
  then have "sort_by (group_order h lp) (map ?f grouped) = sort_by (group_order h lp) (map ?f grouped')"
    using assms(1,2) by (intro sort_by_unique [where k = "group_key h lp"] group_order_key) (auto simp: ranks_branches_def)
  then show ?thesis
    using score_groups_map [of S E h lp grouped no_prune_stats] score_groups_map [of S E h lp grouped' no_prune_stats]
    by (auto simp: sorted_heuristic_hop_groups_def split: prod.splits)
qed

theorem hop_groups_deterministic_witness:
  "fst (sorted_heuristic_hop_groups demo_searcher (hx_ends demo_heuristic_ctx) heuristic_balanced liquidity_disabled
     [(1, [demo_hop]), (2, [])] no_prune_stats) =
   fst (sorted_heuristic_hop_groups demo_searcher (hx_ends demo_heuristic_ctx) heuristic_balanced liquidity_disabled
     [(2, []), (1, [demo_hop])] no_prune_stats)"
  by (rule hop_groups_deterministic) (simp_all add: liquidity_disabled_def)

text \<open>Otherwise a closing branch is placed by connector and degree, other branches by liquidity, and
  the two orders disagree: three branches, each before the next.\<close>

definition plain_group :: "bool \<Rightarrow> u256 \<Rightarrow> nat \<Rightarrow> 'p scored_group" where
  "plain_group closes balance degree =
     \<lparr>sg_group = \<lparr>hg_token = 0, hg_hops = [], hg_closes = closes\<rparr>,
      sg_liquidity = (if closes then default_branch_score
                      else \<lparr>max_input_balance = Some balance, sum_input_balance = Some balance\<rparr>),
      sg_connector = 0, sg_degree = degree\<rparr>"

lemma group_order_cycle:
  assumes "\<not> target_first h" and "ranks_branches lp"
  shows "group_order h lp (plain_group False 10 1) (plain_group False 5 9) = OrdLess"
    and "group_order h lp (plain_group False 5 9) (plain_group True 0 5) = OrdLess"
    and "group_order h lp (plain_group True 0 5) (plain_group False 10 1) = OrdLess"
  using assms by (simp_all add: group_order_def plain_group_def Let_def ranks_branches_def score_known_def
      group_tail_def cmp_def)


section \<open>Reachability\<close>

text \<open>Edges in a row from a node; the target is reached by the last one and by no other.\<close>

fun walk_to :: "(nat \<Rightarrow> 'p cached_outgoing_edge list) \<Rightarrow> nat \<Rightarrow> nat \<Rightarrow> 'p cached_outgoing_edge list \<Rightarrow> bool" where
  "walk_to out target node [] = False"
| "walk_to out target node (e # es) =
     (e \<in> set (out node) \<and> (if edge_target e = target then es = [] else walk_to out target (edge_target e) es))"

definition walk_tail :: "(nat \<Rightarrow> 'p cached_outgoing_edge list) \<Rightarrow> nat \<Rightarrow> 'p cached_outgoing_edge \<Rightarrow> 'p cached_outgoing_edge list \<Rightarrow> bool" where
  "walk_tail out target e es = (if edge_target e = target then es = [] else walk_to out target (edge_target e) es)"

lemma walk_to_iff: "walk_to out target node es \<longleftrightarrow> (\<exists>x xs. es = x # xs \<and> x \<in> set (out node) \<and> walk_tail out target x xs)"
  by (cases es) (simp_all add: walk_tail_def)

text \<open>Every edge is open after the edges before it, and no pool is used twice.\<close>

definition open_walk :: "search_ends \<Rightarrow> address set \<Rightarrow> 'p set \<Rightarrow> 'p cached_outgoing_edge list \<Rightarrow> bool" where
  "open_walk E visited used es \<longleftrightarrow>
     (\<forall>pre e post. es = pre @ e # post \<longrightarrow>
        cached_pool e \<notin> used \<union> cached_pool ` set pre \<and> edge_open E (visited \<union> edge_token_out ` set pre) e)"

lemma open_walk_Nil [simp]: "open_walk E visited used []"
  by (simp add: open_walk_def)

lemma open_walk_Cons:
  "open_walk E visited used (e # es) \<longleftrightarrow>
     cached_pool e \<notin> used \<and> edge_open E visited e \<and>
     open_walk E (insert (edge_token_out e) visited) (insert (cached_pool e) used) es"
proof
  assume a: "open_walk E visited used (e # es)"
  have "cached_pool x \<notin> insert (cached_pool e) used \<union> cached_pool ` set pre \<and>
      edge_open E (insert (edge_token_out e) visited \<union> edge_token_out ` set pre) x" if "es = pre @ x # post" for pre x post
    using a [unfolded open_walk_def, rule_format, of "e # pre" x post] that by simp
  then have "open_walk E (insert (edge_token_out e) visited) (insert (cached_pool e) used) es"
    unfolding open_walk_def by blast
  then show "cached_pool e \<notin> used \<and> edge_open E visited e \<and>
     open_walk E (insert (edge_token_out e) visited) (insert (cached_pool e) used) es"
    using a [unfolded open_walk_def, rule_format, of "[]" e es] by simp
next
  assume a: "cached_pool e \<notin> used \<and> edge_open E visited e \<and>
     open_walk E (insert (edge_token_out e) visited) (insert (cached_pool e) used) es"
  show "open_walk E visited used (e # es)"
    unfolding open_walk_def
  proof (intro allI impI)
    fix pre x post
    assume "e # es = pre @ x # post"
    then show "cached_pool x \<notin> used \<union> cached_pool ` set pre \<and> edge_open E (visited \<union> edge_token_out ` set pre) x"
      using a unfolding open_walk_def by (cases pre) (fastforce simp: Cons_eq_append_conv)+
  qed
qed

lemma static_route_dfs_iff:
  "1 \<le> n \<Longrightarrow> static_route_dfs out E n edges visited used \<longleftrightarrow>
     (\<exists>e es. e \<in> set edges \<and> walk_tail out (se_target E) e es \<and>
        length es < n \<and> open_walk E visited used (e # es))"
proof (induction out E n edges visited used rule: static_route_dfs.induct)
  case (2 out E n e es visited used)
  let ?goal = "\<lambda>edges. \<exists>x xs. x \<in> set edges \<and>
      walk_tail out (se_target E) x xs \<and>
      length xs < n \<and> open_walk E visited used (x # xs)"
  let ?here = "\<exists>xs. walk_tail out (se_target E) e xs \<and>
      length xs < n \<and> open_walk E visited used (e # xs)"
  have split: "?goal (e # es) \<longleftrightarrow> ?here \<or> ?goal es" by auto
  consider "cached_pool e \<in> used \<or> \<not> edge_open E visited e"
    | "cached_pool e \<notin> used" "edge_open E visited e" "edge_target e = se_target E"
    | "cached_pool e \<notin> used" "edge_open E visited e" "edge_target e \<noteq> se_target E" "n \<le> 1"
    | "cached_pool e \<notin> used" "edge_open E visited e" "edge_target e \<noteq> se_target E" "1 < n"
    by linarith
  then show ?case
  proof cases
    case 1
    then have "\<not> ?here" by (auto simp: open_walk_Cons)
    then show ?thesis unfolding split using 1 "2.IH"(1) "2.prems" by auto
  next
    case 2
    then have ?here using "2.prems" by (auto simp: open_walk_Cons walk_tail_def)
    then show ?thesis unfolding split using 2 by simp
  next
    case 3
    then have "n = 1" using "2.prems" by simp
    then have "\<not> ?here" using 3(3) by (auto simp: walk_tail_def)
    then show ?thesis unfolding split using 3 "2.IH"(2) "2.prems" by auto
  next
    case 4
    let ?v = "insert (edge_token_out e) visited" and ?u = "insert (cached_pool e) used"
    have "?here \<longleftrightarrow> (\<exists>xs. walk_to out (se_target E) (edge_target e) xs \<and> length xs < n \<and> open_walk E ?v ?u xs)"
      using 4 by (simp add: open_walk_Cons walk_tail_def)
    also have "\<dots> \<longleftrightarrow> (\<exists>x xs. x \<in> set (out (edge_target e)) \<and> walk_tail out (se_target E) x xs \<and>
        length xs < n - 1 \<and> open_walk E ?v ?u (x # xs))"
      using 4 by (fastforce simp: walk_to_iff)
    also have "\<dots> \<longleftrightarrow> static_route_dfs out E (n - 1) (out (edge_target e)) ?v ?u" using "2.IH"(3) 4 by simp
    finally show ?thesis unfolding split using 4 "2.IH"(4) "2.prems" by auto
  qed
qed simp

text \<open>C23. The static reachability check is exact: it succeeds exactly when the prefix stands at
  the target or some sequence of at most the remaining number of edges leads there without
  reusing a pool and with every edge open (no visited token again, except closing a cycle, and
  only allowed connectors).\<close>

theorem static_route_exact:
  "has_static_route_to_target S E start visited used n \<longleftrightarrow>
     start = se_target E \<or>
     (\<exists>es. walk_to (outgoing_edges (se_graph S)) (se_target E) start es \<and> length es \<le> n \<and> open_walk E visited used es)"
proof -
  let ?out = "outgoing_edges (se_graph S)"
  have "(\<exists>es. walk_to ?out (se_target E) start es \<and> length es \<le> n \<and> open_walk E visited used es) \<longleftrightarrow>
      n \<noteq> 0 \<and> (\<exists>e es. e \<in> set (?out start) \<and> walk_tail ?out (se_target E) e es \<and> length es < n \<and> open_walk E visited used (e # es))"
    by (fastforce simp: walk_to_iff)
  also have "\<dots> \<longleftrightarrow> n \<noteq> 0 \<and> static_route_dfs ?out E n (?out start) visited used"
    using static_route_dfs_iff [of n ?out E "?out start" visited used] by auto
  finally show ?thesis by (simp add: has_static_route_to_target_def)
qed

section \<open>Upper bounds\<close>

definition closing_balance :: "'p liquidity_index \<Rightarrow> address \<Rightarrow> 'p cached_outgoing_edge \<Rightarrow> u256 option" where
  "closing_balance ix token e = fresh (balance_state_of ix (cached_pool e) token)"

text \<open>An edge into the target is accounted for by a cap.\<close>

definition capped :: "'p liquidity_index \<Rightarrow> address \<Rightarrow> u256 option \<Rightarrow> 'p cached_outgoing_edge \<Rightarrow> bool" where
  "capped ix token cap e \<longleftrightarrow> (\<exists>b c. closing_balance ix token e = Some b \<and> cap = Some c \<and> b \<le> c)"

definition raises_cap :: "u256 option \<Rightarrow> u256 option \<Rightarrow> bool" where
  "raises_cap cap cap' \<longleftrightarrow> (\<forall>c. cap = Some c \<longrightarrow> (\<exists>c'. cap' = Some c' \<and> c \<le> c'))"

lemma capped_mono: "capped ix token cap e \<Longrightarrow> raises_cap cap cap' \<Longrightarrow> capped ix token cap' e"
  by (fastforce simp: capped_def raises_cap_def)

lemma raises_cap_refl [simp]: "raises_cap cap cap"
  by (simp add: raises_cap_def)

lemma raises_cap_trans: "raises_cap a b \<Longrightarrow> raises_cap b c \<Longrightarrow> raises_cap a c"
  by (fastforce simp: raises_cap_def)

lemma cap_edges_ok:
  assumes "cap_edges ix target token n depth es cap queue = Some (cap', queue')" and "depth < n"
  shows "raises_cap cap cap' \<and> set queue \<subseteq> set queue' \<and>
    (\<forall>e \<in> set es. if edge_target e = target then capped ix token cap' e
       else Suc depth < n \<longrightarrow> (edge_target e, Suc depth) \<in> set queue')"
  using assms
proof (induction es arbitrary: cap queue)
  case (Cons e es)
  show ?case
  proof (cases "edge_target e = target")
    case True
    then obtain b where b: "closing_balance ix token e = Some b"
      using Cons.prems by (cases "closing_balance ix token e") (auto simp: closing_balance_def)
    define cap1 where "cap1 = Some (case cap of None \<Rightarrow> b | Some c \<Rightarrow> max c b)"
    have "cap_edges ix target token n depth es cap1 queue = Some (cap', queue')"
      using Cons.prems True b by (simp add: closing_balance_def cap1_def)
    note ih = Cons.IH [OF this Cons.prems(2)]
    have "capped ix token cap1 e" "raises_cap cap cap1"
      using b by (auto simp: capped_def raises_cap_def cap1_def split: option.split)
    then show ?thesis using ih True by (auto intro: capped_mono raises_cap_trans)
  next
    case False
    define queue1 where "queue1 = (if Suc depth < n then queue @ [(edge_target e, Suc depth)] else queue)"
    have "cap_edges ix target token n depth es cap queue1 = Some (cap', queue')"
      using Cons.prems False by (simp add: queue1_def split: if_splits)
    from Cons.IH [OF this Cons.prems(2)] show ?thesis using False by (auto simp: queue1_def split: if_splits)
  qed
qed simp

text \<open>What the loop has explored is accounted for or queued.\<close>

definition explored_ok ::
  "(nat \<Rightarrow> 'p cached_outgoing_edge list) \<Rightarrow> 'p liquidity_index \<Rightarrow> nat \<Rightarrow> address \<Rightarrow> nat \<Rightarrow> (nat \<times> nat) set \<Rightarrow>
     (nat \<times> nat) set \<Rightarrow> u256 option \<Rightarrow> bool" where
  "explored_ok out ix target token n queued seen cap \<longleftrightarrow>
     (\<forall>node depth e. (node, depth) \<in> seen \<longrightarrow> e \<in> set (out node) \<longrightarrow>
        (if edge_target e = target then capped ix token cap e
        else Suc depth < n \<longrightarrow> (edge_target e, Suc depth) \<in> queued \<union> seen))"

lemma cap_loop_ok:
  assumes "cap_loop out ix target token n queue seen cap = CapKnown c"
    and "explored_ok out ix target token n (set queue) seen cap"
  shows "\<exists>seen'. explored_ok out ix target token n {} seen' (Some c) \<and> seen \<subseteq> seen' \<and>
    (\<forall>(node, depth) \<in> set queue. depth < n \<longrightarrow> (node, depth) \<in> seen')"
  using assms
proof (induction out ix target token n queue seen cap rule: cap_loop.induct)
  case (1 out ix target token n seen cap)
  then show ?case by (auto split: option.splits)
next
  case (2 out ix target token n node depth queue seen cap)
  show ?case
  proof (cases "n \<le> depth \<or> (node, depth) \<in> seen")
    case True
    have "explored_ok out ix target token n (set queue) seen cap"
      using "2.prems"(2) True unfolding explored_ok_def by (fastforce split: if_splits)
    from "2.IH"(1) [OF True _ this] "2.prems"(1) True obtain seen' where
      "explored_ok out ix target token n {} seen' (Some c)" "seen \<subseteq> seen'"
      "\<forall>(node, depth) \<in> set queue. depth < n \<longrightarrow> (node, depth) \<in> seen'" by auto
    then show ?thesis using True by (intro exI [of _ seen']) auto
  next
    case False
    then obtain cap' queue' where e: "cap_edges ix target token n depth (out node) cap queue = Some (cap', queue')"
      using "2.prems"(1) by (auto split: option.splits prod.splits)
    note ce = cap_edges_ok [OF e] False
    have "explored_ok out ix target token n (set queue') (insert (node, depth) seen) cap'"
      using "2.prems"(2) ce unfolding explored_ok_def
      by (fastforce split: if_splits intro: capped_mono)
    from "2.IH"(2) [OF False e refl _ this] "2.prems"(1) False e obtain seen' where
      "explored_ok out ix target token n {} seen' (Some c)" "insert (node, depth) seen \<subseteq> seen'"
      "\<forall>(node, depth) \<in> set queue'. depth < n \<longrightarrow> (node, depth) \<in> seen'" by auto
    then show ?thesis using ce by (intro exI [of _ seen']) auto
  qed
qed

lemma explored_walk:
  assumes "explored_ok out ix target token n {} seen (Some c)"
  shows "walk_to out target node es \<Longrightarrow> (node, depth) \<in> seen \<Longrightarrow> length es + depth \<le> n \<Longrightarrow>
    capped ix token (Some c) (last es)"
proof (induction es arbitrary: node depth)
  case (Cons e es)
  have e: "e \<in> set (out node)" using Cons.prems by simp
  show ?case
  proof (cases "edge_target e = target")
    case True
    then show ?thesis using assms Cons.prems e by (fastforce simp: explored_ok_def)
  next
    case False
    then have w: "walk_to out target (edge_target e) es" using Cons.prems by simp
    then have ne: "es \<noteq> []" by auto
    then have "Suc depth < n" using Cons.prems(3) by (cases es) auto
    then have "(edge_target e, Suc depth) \<in> seen"
      using assms Cons.prems(2) e False by (fastforce simp: explored_ok_def)
    from Cons.IH [OF w this] Cons.prems(3) ne show ?thesis by simp
  qed
qed simp

text \<open>C24. The upper bound on a prefix is a real bound: when a prefix is pruned because its bound
  does not beat the incumbent, every sequence of edges that could still complete it within the
  hop limit ends in a pool whose fresh balance of the target token is at most the incumbent's
  output, so no swap paid from that balance can beat it. An unknown bound never prunes.\<close>

theorem upper_bound_prune_sound:
  assumes "should_prune_upper_bound_prefix S E n ub incumbent st stats = (True, stats')"
  shows "\<exists>best ix. incumbent = Some best \<and> se_liquidity S = Some ix \<and>
    (\<forall>es. walk_to (outgoing_edges (se_graph S)) (se_target E) (hs_node st) es \<longrightarrow> length (hs_path st) + length es \<le> n \<longrightarrow>
       (\<exists>b. fresh (balance_state_of ix (cached_pool (last es)) (se_out E)) = Some b \<and> b \<le> best))"
proof -
  let ?out = "outgoing_edges (se_graph S)" and ?n = "n - length (hs_path st)"
  obtain best cap where best: "incumbent = Some best" "length (hs_path st) < n" "cap \<le> best"
      "target_balance_cap S (hs_node st) (se_target E) (se_out E) ?n = CapKnown cap"
    using assms by (auto simp: should_prune_upper_bound_prefix_def saturating_sub_def split: if_splits option.splits upper_bound_cap.splits)
  then obtain ix where ix: "se_liquidity S = Some ix"
      "cap_loop ?out ix (se_target E) (se_out E) ?n [(hs_node st, 0)] {} None = CapKnown cap"
    by (auto simp: target_balance_cap_def split: option.splits if_splits)
  have "explored_ok ?out ix (se_target E) (se_out E) ?n (set [(hs_node st, 0)]) {} None" by (simp add: explored_ok_def)
  from cap_loop_ok [OF ix(2) this] best(2) obtain seen where
    seen: "explored_ok ?out ix (se_target E) (se_out E) ?n {} seen (Some cap)" "(hs_node st, 0) \<in> seen" by auto
  have "\<exists>b. fresh (balance_state_of ix (cached_pool (last es)) (se_out E)) = Some b \<and> b \<le> best"
    if w: "walk_to ?out (se_target E) (hs_node st) es" "length (hs_path st) + length es \<le> n" for es
    using explored_walk [OF seen(1) w(1) seen(2)] w(2) best(3) by (fastforce simp: capped_def closing_balance_def)
  then show ?thesis using best(1) ix(1) by blast
qed

definition capped_searcher :: "(nat slot_graph, nat, unit, unit, unit, unit) amm_searcher" where
  "capped_searcher = demo_searcher\<lparr>
     se_graph := demo_new\<lparr>outgoing_map := [0 \<mapsto> [\<lparr>edge_target = 1, edge_token_in = 1, edge_token_out = 2, cached_pool = 2\<rparr>]]\<rparr>,
     se_liquidity := Some \<lparr>li_targets = [\<lparr>tgt_token = 2, tgt_source = SourceUnknown, tgt_balance = BalanceFresh 50, tgt_active = True\<rparr>],
       by_pool_token = [(2, 2) \<mapsto> 0], by_token_holder = Map.empty, by_storage_slot = Map.empty, by_pool = [2 \<mapsto> [0]],
       pool_token_counts = [2 \<mapsto> 2], free_targets = []\<rparr>\<rparr>"

definition capped_ends :: search_ends where
  "capped_ends = \<lparr>se_source = 0, se_target = 1, se_in = 1, se_out = 2, se_connectors = None, se_revisit = False\<rparr>"

definition capped_state :: "nat heuristic_state" where
  "capped_state = \<lparr>hs_node = 0, hs_path = [], hs_quotes = [], hs_amount = 9, hs_visited = {1}, hs_used = {}\<rparr>"

lemma capped_prunes:
  "should_prune_upper_bound_prefix capped_searcher capped_ends 1
     \<lparr>ub_enabled = True, ub_balance_cap = True, ub_estimated_rate = False, ub_fail_open = True\<rparr> (Some 60) capped_state no_prune_stats
   = (True, merge_stats no_prune_stats (no_prune_stats\<lparr>upper_bound_pruned_prefixes := 1\<rparr>))"
  by (simp add: should_prune_upper_bound_prefix_def capped_searcher_def capped_ends_def capped_state_def saturating_sub_def
      target_balance_cap_def outgoing_edges_def balance_state_of_def)

theorem upper_bound_prune_sound_witness:
  "\<exists>b. fresh (balance_state_of (the (se_liquidity capped_searcher)) 2 2) = Some b \<and> b \<le> 60"
proof -
  let ?e = "\<lparr>edge_target = 1, edge_token_in = 1, edge_token_out = 2, cached_pool = 2\<rparr> :: nat cached_outgoing_edge"
  have "walk_to (outgoing_edges (se_graph capped_searcher)) (se_target capped_ends) (hs_node capped_state) [?e]"
      "length (hs_path capped_state) + length [?e] \<le> 1" "se_out capped_ends = 2"
    by (simp_all add: capped_searcher_def capped_ends_def capped_state_def outgoing_edges_def)
  then show ?thesis using upper_bound_prune_sound [OF capped_prunes] by fastforce
qed

section \<open>The beam\<close>

definition frontier_key :: "('g, 'p, 'a, 'c, 's, 'e) amm_searcher \<Rightarrow> 'p heuristic_state \<Rightarrow> int \<times> string" where
  "frontier_key S st = (- uint (hs_amount st), route_path_sort_key S (hs_path st))"

lemma frontier_order_key: "frontier_order S x y = cmp (frontier_key S x) (frontier_key S y)"
proof -
  have "cmp (uint a) (uint b) = cmp a b" for a b :: u256 by (simp add: cmp_def word_less_def word_uint_eq_iff)
  then show ?thesis by (simp add: frontier_order_def frontier_key_def cmp_pair cmp_minus)
qed

text \<open>C25. The beam keeps the most promising prefixes: with a width, at most that many states are
  kept, no state is lost below it, and no dropped state had reached a larger amount than a kept
  one; without a width nothing is dropped.\<close>

theorem beam_keeps_best:
  "\<exists>dropped. mset frontier = mset (apply_beam_width S width ordered frontier) + mset dropped \<and>
     length dropped = (case width of None \<Rightarrow> 0 | Some w \<Rightarrow> length frontier - w) \<and>
     set (apply_beam_width S width ordered frontier) \<times> set dropped \<subseteq> {(kept, d). hs_amount d \<le> hs_amount kept}"
proof (cases "\<exists>w. width = Some w \<and> w < length frontier")
  case True
  then obtain w where w: "width = Some w" "w < length frontier" by blast
  let ?s = "sort_key (frontier_key S) frontier"
  have s: "sort_by (frontier_order S) frontier = ?s" by (rule sort_by_key) (rule frontier_order_key)
  then have a: "apply_beam_width S width ordered frontier = take w ?s"
    using w by (simp add: apply_beam_width_def Let_def)
  have "sorted_wrt (\<lambda>x y. frontier_key S x \<le> frontier_key S y) (take w ?s @ drop w ?s)"
    using sorted_sort_key [of "frontier_key S" frontier] by (simp add: sorted_map)
  then have "frontier_key S k \<le> frontier_key S d" if "k \<in> set (take w ?s)" "d \<in> set (drop w ?s)" for k d
    using that unfolding sorted_wrt_append by blast
  moreover have "hs_amount d \<le> hs_amount k" if "frontier_key S k \<le> frontier_key S d" for k d
    using that by (auto simp: frontier_key_def word_le_def)
  ultimately have "hs_amount d \<le> hs_amount k" if "k \<in> set (take w ?s)" "d \<in> set (drop w ?s)" for k d
    using that by blast
  moreover have "mset frontier = mset (take w ?s) + mset (drop w ?s)"
    by (metis append_take_drop_id mset_append mset_sort)
  ultimately show ?thesis unfolding a using w by (intro exI [of _ "drop w ?s"]) auto
next
  case False
  then have "mset (apply_beam_width S width ordered frontier) = mset frontier"
    by (cases width) (auto simp: apply_beam_width_def Let_def)
  then show ?thesis using False by (intro exI [of _ "[]"]) (auto split: option.split)
qed

end
