(* ===== verification/Searcher.thy ===== *)
theory Searcher
  imports HeuristicProps
begin

text \<open>
  The entry points of \<^verbatim>\<open>AmmSearcher\<close> in \<^verbatim>\<open>src/search.rs\<close>: route and cycle searches in both
  modes, sequential and parallel, and batches of requests. The quoting service of a
  searcher (\<open>quote\<close>, per simulation config) is the quote cache over the registered adapters, its
  state is \<open>qs_world\<close>; a fresh quote cache over an adapter cache is \<open>attach\<close>, and the overlay of
  a live snapshot, when the searcher has one, is \<open>overlay\<close>. \<open>None\<close> as a result is a panic.
\<close>

section \<open>Sequential searches\<close>

record 'w quoting_state =
  qs_world :: 'w
  qs_stats :: liquidity_prune_stats

type_synonym ('p, 'e) route_results = "('p, 'e) search_error + 'p route_quote list"

type_synonym ('p, 'e) cycle_results = "('p, 'e) search_error + 'p cycle_quote list"

definition find_routes_heuristic_with_cache ::
  "('g, 'p, 'a, 'c, 's, 'e) amm_searcher \<Rightarrow> ('p hop \<Rightarrow> u256 \<Rightarrow> 'w \<Rightarrow> (string + u256) \<times> 'w) \<Rightarrow>
     address \<Rightarrow> address \<Rightarrow> u256 \<Rightarrow> search_config \<Rightarrow> heuristic_config \<Rightarrow> bool \<Rightarrow> 'w quoting_state \<Rightarrow>
     (('p, 'e) route_results \<times> 'w quoting_state) option" where
  "find_routes_heuristic_with_cache S quote token_in token_out amount config h revisit st =
     (case find_routes_heuristic S quote token_in token_out amount config h revisit LimitFull None
             (qs_stats st) (qs_world st) () of
        None \<Rightarrow> None
      | Some (res, l) \<Rightarrow>
          Some (and_then res (\<lambda>rep. Inr (hr_quotes rep)), \<lparr>qs_world = hl_world l, qs_stats = hl_stats l\<rparr>))"

text \<open>The common body of \<^verbatim>\<open>find_routes_with_quote_cache\<close> and \<^verbatim>\<open>find_cycles_with_quote_cache\<close>.\<close>

definition search_by_mode ::
  "('g, 'p, 'a, 'c, 's, 'e) amm_searcher \<Rightarrow> ('p hop \<Rightarrow> u256 \<Rightarrow> 'w \<Rightarrow> (string + u256) \<times> 'w) \<Rightarrow>
     address \<Rightarrow> address \<Rightarrow> u256 \<Rightarrow> search_config \<Rightarrow> bool \<Rightarrow> 'w quoting_state \<Rightarrow>
     (('p, 'e) route_results \<times> 'w quoting_state) option" where
  "search_by_mode S quote token_in token_out amount config revisit st =
     (case search_mode_of config of
        ModeExhaustive \<Rightarrow>
          (case enumerate_routes (se_graph S) token_in token_out config revisit of
             Inl err \<Rightarrow> Some (Inl err, st)
           | Inr paths \<Rightarrow>
               (case quote_and_rank_with_cache quote (ar_render (se_registry S) EmptyPath) paths amount (qs_world st) of
                  (res, w) \<Rightarrow> Some (res, st\<lparr>qs_world := w\<rparr>)))
      | ModeHeuristic h \<Rightarrow> find_routes_heuristic_with_cache S quote token_in token_out amount config h revisit st)"

definition find_routes_with_quote_cache ::
  "('g, 'p, 'a, 'c, 's, 'e) amm_searcher \<Rightarrow> ('s sim_config_scheme \<Rightarrow> 'p hop \<Rightarrow> u256 \<Rightarrow> 'w \<Rightarrow> (string + u256) \<times> 'w) \<Rightarrow>
     's route_request \<Rightarrow> 'w quoting_state \<Rightarrow> (('p, 'e) route_results \<times> 'w quoting_state) option" where
  "find_routes_with_quote_cache S quote req st =
     search_by_mode S (quote (req_sim req)) (req_in req) (req_out req) (req_amount req) (req_config req) False st"

definition cycle_of_route :: "'p route_quote \<Rightarrow> 'p cycle_quote" where
  "cycle_of_route route =
     \<lparr>cq_route = route,
      cq_profit = (if rq_amount_in route < rq_amount_out route then Some (rq_amount_out route - rq_amount_in route) else None)\<rparr>"

definition find_cycles_with_quote_cache ::
  "('g, 'p, 'a, 'c, 's, 'e) amm_searcher \<Rightarrow> ('s sim_config_scheme \<Rightarrow> 'p hop \<Rightarrow> u256 \<Rightarrow> 'w \<Rightarrow> (string + u256) \<times> 'w) \<Rightarrow>
     's cycle_request \<Rightarrow> 'w quoting_state \<Rightarrow> (('p, 'e) cycle_results \<times> 'w quoting_state) option" where
  "find_cycles_with_quote_cache S quote req st =
     (case search_by_mode S (quote (cyc_sim req)) (cyc_base req) (cyc_base req) (cyc_amount req) (cyc_config req) True st of
        None \<Rightarrow> None
      | Some (res, st') \<Rightarrow> Some (and_then res (\<lambda>routes. Inr (map cycle_of_route routes)), st'))"

definition new_quoting :: "('c \<Rightarrow> 'w) \<Rightarrow> 'c option \<Rightarrow> 'c \<Rightarrow> 'w quoting_state" where
  "new_quoting attach overlay cache =
     \<lparr>qs_world = attach (case overlay of None \<Rightarrow> cache | Some snapshot \<Rightarrow> snapshot), qs_stats = no_prune_stats\<rparr>"

definition find_routes ::
  "('g, 'p, 'a, 'c, 's, 'e) amm_searcher \<Rightarrow> ('s sim_config_scheme \<Rightarrow> 'p hop \<Rightarrow> u256 \<Rightarrow> 'w \<Rightarrow> (string + u256) \<times> 'w) \<Rightarrow>
     ('c \<Rightarrow> 'w) \<Rightarrow> 'c option \<Rightarrow> 's route_request \<Rightarrow> 'c \<Rightarrow> (('p, 'e) route_results \<times> 'w quoting_state) option" where
  "find_routes S quote attach overlay req cache = find_routes_with_quote_cache S quote req (new_quoting attach overlay cache)"

definition find_cycles ::
  "('g, 'p, 'a, 'c, 's, 'e) amm_searcher \<Rightarrow> ('s sim_config_scheme \<Rightarrow> 'p hop \<Rightarrow> u256 \<Rightarrow> 'w \<Rightarrow> (string + u256) \<times> 'w) \<Rightarrow>
     ('c \<Rightarrow> 'w) \<Rightarrow> 'c option \<Rightarrow> 's cycle_request \<Rightarrow> 'c \<Rightarrow> (('p, 'e) cycle_results \<times> 'w quoting_state) option" where
  "find_cycles S quote attach overlay req cache = find_cycles_with_quote_cache S quote req (new_quoting attach overlay cache)"

text \<open>\<^verbatim>\<open>into_iter().next().ok_or(NoPath)\<close> on ranked routes.\<close>

definition first_route :: "'s route_request \<Rightarrow> ('p, 'e) route_results \<Rightarrow> ('p, 'e) search_error + 'p route_quote" where
  "first_route req res =
     and_then res (\<lambda>routes. case routes of [] \<Rightarrow> Inl (NoPath (req_in req) (req_out req)) | q # _ \<Rightarrow> Inr q)"

definition find_best_route ::
  "('g, 'p, 'a, 'c, 's, 'e) amm_searcher \<Rightarrow> ('s sim_config_scheme \<Rightarrow> 'p hop \<Rightarrow> u256 \<Rightarrow> 'w \<Rightarrow> (string + u256) \<times> 'w) \<Rightarrow>
     ('c \<Rightarrow> 'w) \<Rightarrow> 'c option \<Rightarrow> 's route_request \<Rightarrow> 'c \<Rightarrow>
     ((('p, 'e) search_error + 'p route_quote) \<times> 'w quoting_state) option" where
  "find_best_route S quote attach overlay req cache =
     (case find_routes S quote attach overlay req cache of
        None \<Rightarrow> None
      | Some (res, st) \<Rightarrow> Some (first_route req res, st))"

text \<open>Searches on a live snapshot only; a searcher without one reports \<open>SnapshotRequired\<close>.\<close>

definition find_routes_snapshot ::
  "('g, 'p, 'a, 'c, 's, 'e) amm_searcher \<Rightarrow> ('s sim_config_scheme \<Rightarrow> 'p hop \<Rightarrow> u256 \<Rightarrow> 'w \<Rightarrow> (string + u256) \<times> 'w) \<Rightarrow>
     ('c \<Rightarrow> 'w) \<Rightarrow> 'c option \<Rightarrow> 's route_request \<Rightarrow> ('p, 'e) route_results option" where
  "find_routes_snapshot S quote attach overlay req =
     (case overlay of
        None \<Rightarrow> Some (Inl SnapshotRequired)
      | Some snapshot \<Rightarrow>
          map_option fst (find_routes_with_quote_cache S quote req (new_quoting attach None snapshot)))"

definition find_best_route_snapshot ::
  "('g, 'p, 'a, 'c, 's, 'e) amm_searcher \<Rightarrow> ('s sim_config_scheme \<Rightarrow> 'p hop \<Rightarrow> u256 \<Rightarrow> 'w \<Rightarrow> (string + u256) \<times> 'w) \<Rightarrow>
     ('c \<Rightarrow> 'w) \<Rightarrow> 'c option \<Rightarrow> 's route_request \<Rightarrow> (('p, 'e) search_error + 'p route_quote) option" where
  "find_best_route_snapshot S quote attach overlay req =
     map_option (first_route req) (find_routes_snapshot S quote attach overlay req)"

section \<open>Parallel searches\<close>

text \<open>Each worker \<open>i\<close> has its own view of the shared quote cache over its own overlay: a service
  \<open>quote i\<close> from a state \<open>world i\<close>; the coordinating thread is worker 0.\<close>

definition parallel_by_mode ::
  "('g, 'p, 'a, 'c, 's, 'e) amm_searcher \<Rightarrow> (nat \<Rightarrow> 'p hop \<Rightarrow> u256 \<Rightarrow> 'w \<Rightarrow> (string + u256) \<times> 'w) \<Rightarrow> (nat \<Rightarrow> 'w) \<Rightarrow>
     nat \<Rightarrow> address \<Rightarrow> address \<Rightarrow> u256 \<Rightarrow> search_config \<Rightarrow> bool \<Rightarrow> ('p, 'e) route_results option" where
  "parallel_by_mode S quote world workers token_in token_out amount config revisit =
     (case search_mode_of config of
        ModeHeuristic h \<Rightarrow>
          (case validate_parallel workers of
             Inl err \<Rightarrow> Some (Inl err)
           | Inr _ \<Rightarrow>
               map_option fst (find_routes_heuristic_with_cache S (quote 0) token_in token_out amount config h revisit
                 \<lparr>qs_world = world 0, qs_stats = no_prune_stats\<rparr>))
      | ModeExhaustive \<Rightarrow>
          (let reason = ar_render (se_registry S) EmptyPath
           in Some (and_then (enumerate_routes (se_graph S) token_in token_out config revisit)
                (quote_and_rank_parallel workers (worker_share (quote 0) reason amount (world 0))
                   (\<lambda>i chunk. Some (worker_share (quote i) reason amount (world i) chunk))))))"

definition find_routes_parallel ::
  "('g, 'p, 'a, 'c, 's, 'e) amm_searcher \<Rightarrow> (nat \<Rightarrow> 's sim_config_scheme \<Rightarrow> 'p hop \<Rightarrow> u256 \<Rightarrow> 'w \<Rightarrow> (string + u256) \<times> 'w) \<Rightarrow>
     (nat \<Rightarrow> 'w) \<Rightarrow> nat \<Rightarrow> 's route_request \<Rightarrow> ('p, 'e) route_results option" where
  "find_routes_parallel S quote world workers req =
     parallel_by_mode S (\<lambda>i. quote i (req_sim req)) world workers (req_in req) (req_out req) (req_amount req) (req_config req) False"

definition find_best_route_parallel ::
  "('g, 'p, 'a, 'c, 's, 'e) amm_searcher \<Rightarrow> (nat \<Rightarrow> 's sim_config_scheme \<Rightarrow> 'p hop \<Rightarrow> u256 \<Rightarrow> 'w \<Rightarrow> (string + u256) \<times> 'w) \<Rightarrow>
     (nat \<Rightarrow> 'w) \<Rightarrow> nat \<Rightarrow> 's route_request \<Rightarrow> (('p, 'e) search_error + 'p route_quote) option" where
  "find_best_route_parallel S quote world workers req =
     map_option (first_route req) (find_routes_parallel S quote world workers req)"

definition find_cycles_parallel ::
  "('g, 'p, 'a, 'c, 's, 'e) amm_searcher \<Rightarrow> (nat \<Rightarrow> 's sim_config_scheme \<Rightarrow> 'p hop \<Rightarrow> u256 \<Rightarrow> 'w \<Rightarrow> (string + u256) \<times> 'w) \<Rightarrow>
     (nat \<Rightarrow> 'w) \<Rightarrow> nat \<Rightarrow> 's cycle_request \<Rightarrow> ('p, 'e) cycle_results option" where
  "find_cycles_parallel S quote world workers req =
     map_option (\<lambda>res. and_then res (\<lambda>routes. Inr (map cycle_of_route routes)))
       (parallel_by_mode S (\<lambda>i. quote i (cyc_sim req)) world workers (cyc_base req) (cyc_base req) (cyc_amount req)
          (cyc_config req) True)"

section \<open>Batches\<close>

text \<open>A worker answers the requests of its share in turn, with one quoting state; a panic ends it.\<close>

fun request_chunk ::
  "('r \<Rightarrow> 'w quoting_state \<Rightarrow> ('x \<times> 'w quoting_state) option) \<Rightarrow> (nat \<times> 'r) list \<Rightarrow> 'w quoting_state \<Rightarrow> (nat \<times> 'x) list option" where
  "request_chunk answer [] st = Some []"
| "request_chunk answer ((i, req) # reqs) st =
     (case answer req st of
        None \<Rightarrow> None
      | Some (res, st') \<Rightarrow> map_option ((#) (i, res)) (request_chunk answer reqs st'))"

fun join_chunks :: "'x list option list \<Rightarrow> ('p, 'e) search_error + 'x list" where
  "join_chunks [] = Inr []"
| "join_chunks (None # rs) = Inl WorkerPanic"
| "join_chunks (Some xs # rs) = and_then (join_chunks rs) (\<lambda>ys. Inr (xs @ ys))"

text \<open>The common body of the route and cycle batches: a single worker runs on the coordinating
  thread, where a panic has no result.\<close>

definition run_batch ::
  "nat \<Rightarrow> 'r list \<Rightarrow> (nat \<Rightarrow> (nat \<times> 'r) list \<Rightarrow> (nat \<times> 'x) list option) \<Rightarrow> (('p, 'e) search_error + 'x list) option" where
  "run_batch workers requests run_worker =
     (case validate_parallel workers of
        Inl err \<Rightarrow> Some (Inl err)
      | Inr _ \<Rightarrow>
          (if requests = [] then Some (Inr [])
           else
             (let worker_count = min workers (length requests);
                  chunks = split_indexed_items requests worker_count
              in if worker_count = 1
                 then map_option (\<lambda>results. Inr (collect_ordered_results results)) (run_worker 0 (chunks ! 0))
                 else Some (and_then (join_chunks (map (\<lambda>(i, chunk). run_worker i chunk) (zip [0..<length chunks] chunks)))
                        (\<lambda>results. Inr (collect_ordered_results results))))))"

definition find_routes_batch_parallel ::
  "('g, 'p, 'a, 'c, 's, 'e) amm_searcher \<Rightarrow> (nat \<Rightarrow> 's sim_config_scheme \<Rightarrow> 'p hop \<Rightarrow> u256 \<Rightarrow> 'w \<Rightarrow> (string + u256) \<times> 'w) \<Rightarrow>
     (nat \<Rightarrow> 'w) \<Rightarrow> nat \<Rightarrow> 's route_request list \<Rightarrow> (('p, 'e) search_error + ('p, 'e) route_results list) option" where
  "find_routes_batch_parallel S quote world workers requests =
     run_batch workers requests
       (\<lambda>i chunk. request_chunk (find_routes_with_quote_cache S (quote i)) chunk \<lparr>qs_world = world i, qs_stats = no_prune_stats\<rparr>)"

definition find_cycles_batch_parallel ::
  "('g, 'p, 'a, 'c, 's, 'e) amm_searcher \<Rightarrow> (nat \<Rightarrow> 's sim_config_scheme \<Rightarrow> 'p hop \<Rightarrow> u256 \<Rightarrow> 'w \<Rightarrow> (string + u256) \<times> 'w) \<Rightarrow>
     (nat \<Rightarrow> 'w) \<Rightarrow> nat \<Rightarrow> 's cycle_request list \<Rightarrow> (('p, 'e) search_error + ('p, 'e) cycle_results list) option" where
  "find_cycles_batch_parallel S quote world workers requests =
     run_batch workers requests
       (\<lambda>i chunk. request_chunk (find_cycles_with_quote_cache S (quote i)) chunk \<lparr>qs_world = world i, qs_stats = no_prune_stats\<rparr>)"

end
