(* ===== verification/SearcherProps.thy ===== *)
theory SearcherProps
  imports Searcher
begin

text \<open>
  What the entry points of the searcher promise: sound and, in exhaustive mode, optimal answers;
  correct profits of cycles; parallel searches and batches that answer what the sequential
  search answers.
\<close>

section \<open>Answers\<close>

text \<open>The quotes of the routes that can be priced.\<close>

definition priced_routes ::
  "('g, 'p) amm_graph \<Rightarrow> ('p hop \<Rightarrow> u256 \<Rightarrow> string + u256) \<Rightarrow> address \<Rightarrow> address \<Rightarrow> u256 \<Rightarrow> search_config \<Rightarrow> bool \<Rightarrow>
     'p route_quote set" where
  "priced_routes g price token_in token_out amount config revisit =
     {q. \<exists>p \<in> routes_between g token_in token_out config revisit. price_path price amount p = Inr q}"

definition complete_search :: "search_config \<Rightarrow> bool" where
  "complete_search config \<longleftrightarrow> search_mode_of config = ModeExhaustive \<and> max_candidates config = None"

text \<open>A correct answer to a search: ranked quotes of routes, all of them when the search is complete,
  or an error that says why there are none.\<close>

definition routes_answer ::
  "('g, 'p) amm_graph \<Rightarrow> ('p hop \<Rightarrow> u256 \<Rightarrow> string + u256) \<Rightarrow> address \<Rightarrow> address \<Rightarrow> u256 \<Rightarrow> search_config \<Rightarrow> bool \<Rightarrow>
     ('p, 'e) route_results \<Rightarrow> bool" where
  "routes_answer g price token_in token_out amount config revisit res \<longleftrightarrow>
     (let R = priced_routes g price token_in token_out amount config revisit
      in case res of
           Inr quotes \<Rightarrow>
             descending rq_amount_out quotes \<and> distinct (map rq_path quotes) \<and> set quotes \<subseteq> R \<and>
             (complete_search config \<longrightarrow> set quotes = R \<and> R \<noteq> {})
         | Inl err \<Rightarrow>
             (complete_search config \<longrightarrow> R = {}) \<and>
             (if node_index g token_in = None then err = TokenNotFound token_in
              else if node_index g token_out = None then err = TokenNotFound token_out
              else err = NoPath token_in token_out \<or> (\<exists>n failures. err = NoViableRoute n failures)))"

lemma priced_path: "price_path price amount p = Inr q \<Longrightarrow> rq_path q = p"
  by (auto simp: price_path_def split: sum.splits prod.splits)

lemma set_priced: "set (priced price amount ps) = {q. \<exists>p \<in> set ps. price_path price amount p = Inr q}"
  by (force simp: priced_def split: sum.splits)

lemma map_path_priced: "map rq_path (priced price amount ps) = filter (\<lambda>p. \<exists>q. price_path price amount p = Inr q) ps"
  by (induction ps) (auto simp: priced_def dest: priced_path split: sum.splits)

lemma routes_nonempty: "p \<in> routes_between g t u config revisit \<Longrightarrow> p \<noteq> []"
  by (simp add: routes_between_def candidate_route_def)

lemma chain_ends: "chain t p u \<Longrightarrow> p \<noteq> [] \<Longrightarrow> hop_in (hd p) = t \<and> hop_out (last p) = u"
  by (cases p rule: rev_cases) (auto simp: hd_append neq_Nil_conv)

context consistent_graph
begin

lemma pool_links_indexed: "pool_links g p t u \<Longrightarrow> node_index g t \<noteq> None \<and> node_index g u \<noteq> None"
  by (rule linked_nodes)

end

lemma routes_need_nodes:
  assumes "graph_inv G ends g" and "p \<in> routes_between g t u config revisit"
  shows "node_index g t \<noteq> None \<and> node_index g u \<noteq> None"
proof -
  have c: "candidate_route (pool_links g) t u config revisit p" using assms(2) by (simp add: routes_between_def)
  then obtain h hs where p: "p = h # hs" by (cases p) (auto simp: candidate_route_def)
  have "pool_links g (hop_pool x) (hop_in x) (hop_out x)" if "x \<in> set p" for x
    using c that by (simp add: candidate_route_def linked_path_def)
  then have n: "node_index g (hop_in x) \<noteq> None \<and> node_index g (hop_out x) \<noteq> None" if "x \<in> set p" for x
    using consistent_graph.pool_links_indexed [OF consistent_graph.intro [OF assms(1)]] that by blast
  have "hop_in h = t" "hop_out (last p) = u"
    using c chain_ends [of t p u] by (auto simp: candidate_route_def p)
  then show ?thesis using n [of h] n [of "last p"] p by auto
qed

lemma set_take_opt: "set (take_opt limit xs) \<subseteq> set xs"
  by (metis prefix_take_opt set_mono_prefix)

lemma distinct_take_opt: "distinct xs \<Longrightarrow> distinct (take_opt limit xs)"
  by (simp add: take_opt_def split: option.split)

lemma shares_nonempty: "\<forall>p \<in> set paths. p \<noteq> [] \<Longrightarrow> share_quotes price amount paths = priced price amount paths"
  by (simp add: share_quotes_def)

text \<open>Ranking the quotes of the enumerated paths answers an exhaustive search.\<close>

lemma ranked_answer:
  fixes res :: "('p, 'e) route_results"
  assumes inv: "graph_inv G ends g" and e: "(enumerate_routes g t u config revisit :: ('p, 'e) search_error + 'p route_path list) = Inr paths"
    and mode: "search_mode_of config = ModeExhaustive"
    and res: "case res of Inr ranked \<Rightarrow> ranks (share_quotes price amount paths) ranked \<and> ranked \<noteq> []
      | Inl err \<Rightarrow> share_quotes price amount paths = [] \<and> (\<exists>fs. err = NoViableRoute (length paths) fs)"
  shows "routes_answer g price t u amount config revisit res"
proof -
  let ?R = "routes_between g t u config revisit"
  obtain all where all: "set all = ?R" "distinct all" "paths = take_opt (max_candidates config) all"
    and nodes: "node_index g t \<noteq> None" "node_index g u \<noteq> None"
    using enumerate_routes_cases [OF inv, where token_in = t and token_out = u and config = config and revisit = revisit and 'e = 'e]
    by (auto simp: e lists_routes_def)
  have sub: "set paths \<subseteq> ?R" using all set_take_opt by fastforce
  then have sq: "share_quotes price amount paths = priced price amount paths" by (intro shares_nonempty) (auto dest: routes_nonempty)
  have d: "distinct (map rq_path (priced price amount paths))"
    unfolding map_path_priced using all by (simp add: distinct_take_opt)
  have full: "set paths = ?R" if "complete_search config" using that all by (simp add: complete_search_def take_opt_def)
  let ?P = "priced_routes g price t u amount config revisit"
  have P: "set (priced price amount paths) \<subseteq> ?P" using sub by (auto simp: set_priced priced_routes_def)
  have PF: "set (priced price amount paths) = ?P" if "complete_search config"
    using full [OF that] by (simp add: set_priced priced_routes_def)
  show ?thesis
  proof (cases res)
    case (Inl err)
    then show ?thesis using res sq PF nodes by (auto simp: routes_answer_def Let_def)
  next
    case (Inr ranked)
    then have r: "ranks (priced price amount paths) ranked" "ranked \<noteq> []" using res sq by simp_all
    then have "set ranked = set (priced price amount paths)" by (metis ranks_def set_mset_mset)
    moreover have "distinct (map rq_path ranked)"
      using d r(1) by (metis mset_eq_imp_distinct_iff mset_map ranks_def)
    ultimately show ?thesis using r P PF Inr by (auto simp: routes_answer_def Let_def ranks_def)
  qed
qed

lemma enumeration_error_answer:
  assumes inv: "graph_inv G ends g" and ok: "search_ok config"
    and e: "(enumerate_routes g t u config revisit :: ('p, 'e) search_error + 'p route_path list) = Inl err"
  shows "routes_answer g price t u amount config revisit (Inl err :: ('p, 'e) route_results)"
proof -
  have c: "if node_index g t = None then err = TokenNotFound t
         else if node_index g u = None then err = TokenNotFound u
         else err = NoPath t u \<and> routes_between g t u config revisit = {}"
    using enumerate_routes_cases [OF inv, where token_in = t and token_out = u and config = config and revisit = revisit and 'e = 'e] ok
    by (simp add: e)
  have "routes_between g t u config revisit = {}"
  proof (cases "node_index g t = None \<or> node_index g u = None")
    case True
    then show ?thesis using routes_need_nodes [OF inv] by fastforce
  qed (use c in \<open>auto split: if_splits\<close>)
  then show ?thesis using c by (auto simp: routes_answer_def Let_def priced_routes_def split: if_splits)
qed

lemma rank_or_no_viable_answer:
  assumes "hop_quoter quote price good" and "good w"
    and "quote_and_rank_with_cache quote reason paths amount w = (res, w')"
  shows "case (res :: ('p, 'e) route_results) of Inr ranked \<Rightarrow> ranks (share_quotes price amount paths) ranked \<and> ranked \<noteq> []
      | Inl err \<Rightarrow> share_quotes price amount paths = [] \<and> (\<exists>fs. err = NoViableRoute (length paths) fs)"
    and "good w'"
proof -
  obtain qs fs where q: "quote_paths quote reason paths amount w = (qs, fs, w')"
      "res = rank_or_no_viable (length paths) qs fs"
    using assms(3) by (auto simp: quote_and_rank_with_cache_def split: prod.splits)
  note r = hop_quoter.quote_paths_results [OF assms(1,2) q(1)]
  show "case res of Inr ranked \<Rightarrow> ranks (share_quotes price amount paths) ranked \<and> ranked \<noteq> []
      | Inl err \<Rightarrow> share_quotes price amount paths = [] \<and> (\<exists>fs. err = NoViableRoute (length paths) fs)"
    using rank_or_no_viable_cases [OF r(1) refl [of "mset fs"], where n = "length paths" and 'e = 'e] unfolding q(2) share_quotes_def
    by (auto split: sum.splits)
  show "good w'" by (rule r(3))
qed

lemma feed_no_observer: "feed None ns obs = (True, obs)"
  by (induction ns) (simp_all add: notify_def)

lemma heuristic_answer:
  fixes S :: "('g, 'p, 'a, 'c, 's, 'e) amm_searcher"
  assumes "graph_inv G ends (se_graph S)" and "se_ops S = G" and "hop_quoter quote price good" and "good (qs_world st)"
    and "search_ok config" and mode: "search_mode_of config = ModeHeuristic h" and "t = u \<longrightarrow> revisit"
  shows "\<exists>res st'. find_routes_heuristic_with_cache S quote t u amount config h revisit st = Some (res, st') \<and> good (qs_world st') \<and>
    routes_answer (se_graph S) price t u amount config revisit res"
proof -
  obtain res l ns b where r: "find_routes_heuristic S quote t u amount config h revisit LimitFull None (qs_stats st) (qs_world st) () = Some (res, l)"
      "\<forall>q \<in> set ns. rq_path q \<in> routes_between (se_graph S) t u config revisit \<and> price_path price amount (rq_path q) = Inr q"
      "good (hl_world l)"
    and c: "case res of
       Inr rep \<Rightarrow>
         set (hr_quotes rep) \<subseteq> set ns \<and> descending rq_amount_out (hr_quotes rep) \<and>
         distinct (map rq_path (hr_quotes rep)) \<and> length (hr_quotes rep) \<le> max_finalists h \<and> (b \<or> hr_stopped rep) \<and>
         (max_candidates config = None \<longrightarrow>
           (\<forall>q \<in> set ns. hr_quotes rep \<noteq> [] \<and> rq_amount_out q \<le> rq_amount_out (hd (hr_quotes rep))))
     | Inl err \<Rightarrow>
         (if node_index (se_graph S) t = None then err = TokenNotFound t
          else if node_index (se_graph S) u = None then err = TokenNotFound u
          else err = NoPath t u \<or> (\<exists>failures. failures \<noteq> [] \<and> err = NoViableRoute (length failures) failures))"
    using heuristic_search_cases [OF assms, where amount = amount and limit = LimitFull and on_quote = None and stats = "qs_stats st" and obs = "()"]
    by (elim exE conjE) blast
  have "\<not> complete_search config" using mode by (simp add: complete_search_def)
  then have "routes_answer (se_graph S) price t u amount config revisit (and_then res (\<lambda>rep. Inr (hr_quotes rep)))"
    using r(2) c by (cases res) (auto simp: routes_answer_def Let_def priced_routes_def split: if_splits)
  then show ?thesis using r(1,3) by (simp add: find_routes_heuristic_with_cache_def)
qed

lemma search_by_mode_answer:
  fixes S :: "('g, 'p, 'a, 'c, 's, 'e) amm_searcher"
  assumes inv: "graph_inv G ends (se_graph S)" and "se_ops S = G" and hq: "hop_quoter quote price good" and w: "good (qs_world st)"
    and ok: "search_ok config" and "t = u \<longrightarrow> revisit"
  shows "\<exists>res st'. search_by_mode S quote t u amount config revisit st = Some (res, st') \<and> good (qs_world st') \<and>
    routes_answer (se_graph S) price t u amount config revisit res"
proof (cases "search_mode_of config")
  case ModeExhaustive
  show ?thesis
  proof (cases "enumerate_routes (se_graph S) t u config revisit :: ('p, 'e) search_error + 'p route_path list")
    case (Inl err)
    then show ?thesis using ModeExhaustive enumeration_error_answer [OF inv ok Inl] w by (auto simp: search_by_mode_def)
  next
    case (Inr paths)
    obtain res :: "('p, 'e) route_results" and w' where q: "quote_and_rank_with_cache quote (ar_render (se_registry S) EmptyPath) paths amount (qs_world st) = (res, w')"
      by fastforce
    from ranked_answer [OF inv Inr ModeExhaustive rank_or_no_viable_answer(1) [OF hq w q]]
    show ?thesis using ModeExhaustive Inr q rank_or_no_viable_answer(2) [OF hq w q] by (simp add: search_by_mode_def)
  qed
next
  case (ModeHeuristic h)
  then show ?thesis using heuristic_answer [OF assms(1-5) ModeHeuristic assms(6)] by (simp add: search_by_mode_def)
qed

section \<open>Batches\<close>

text \<open>Indexed results that answer the indexed requests of a share.\<close>

definition answers_share :: "('r \<Rightarrow> 'x \<Rightarrow> bool) \<Rightarrow> (nat \<times> 'r) list \<Rightarrow> (nat \<times> 'x) list \<Rightarrow> bool" where
  "answers_share P chunk out \<longleftrightarrow>
     map fst out = map fst chunk \<and> (\<forall>j res. (j, res) \<in> set out \<longrightarrow> (\<exists>req. (j, req) \<in> set chunk \<and> P req res))"

lemma answers_share_Nil [simp]: "answers_share P [] []"
  by (simp add: answers_share_def)

lemma answers_share_append: "answers_share P a x \<Longrightarrow> answers_share P b y \<Longrightarrow> answers_share P (a @ b) (x @ y)"
  by (fastforce simp: answers_share_def)

lemma answers_share_Cons: "P req res \<Longrightarrow> answers_share P b y \<Longrightarrow> answers_share P ((i, req) # b) ((i, res) # y)"
  using answers_share_append [of P "[(i, req)]" "[(i, res)]" b y] by (simp add: answers_share_def)

lemma request_chunk_ok:
  assumes answers: "\<And>req st. req \<in> snd ` set chunk \<Longrightarrow> good (qs_world st) \<Longrightarrow>
      \<exists>res st'. answer req st = Some (res, st') \<and> good (qs_world st') \<and> P req res"
    and "good (qs_world st)"
  shows "\<exists>out. request_chunk answer chunk st = Some out \<and> answers_share P chunk out"
  using assms
proof (induction chunk arbitrary: st)
  case (Cons c chunk)
  obtain i req where c: "c = (i, req)" by fastforce
  obtain res st' where r: "answer req st = Some (res, st')" "good (qs_world st')" "P req res"
    using Cons.prems(1) [of req st] Cons.prems(2) c by auto
  obtain out where "request_chunk answer chunk st' = Some out" "answers_share P chunk out"
    using Cons.IH [OF _ r(2)] Cons.prems(1) by auto
  then show ?case using r c by (simp add: answers_share_Cons)
qed simp

lemma join_chunks_ok:
  assumes "\<And>i chunk. (i, chunk) \<in> set ics \<Longrightarrow> \<exists>out. run i chunk = Some out \<and> answers_share P chunk out"
  shows "\<exists>outs. (join_chunks (map (\<lambda>(i, chunk). run i chunk) ics) :: ('p, 'e) search_error + _) = Inr outs \<and>
    answers_share P (concat (map snd ics)) outs"
  using assms
proof (induction ics)
  case (Cons ic ics)
  obtain i chunk where ic: "ic = (i, chunk)" by fastforce
  obtain out where o: "run i chunk = Some out" "answers_share P chunk out" using Cons.prems ic by auto
  obtain outs where "(join_chunks (map (\<lambda>(i, chunk). run i chunk) ics) :: ('p, 'e) search_error + _) = Inr outs"
      "answers_share P (concat (map snd ics)) outs"
    using Cons.IH Cons.prems by (metis list.set_intros(2))
  then show ?case using o ic by (simp add: answers_share_append)
qed simp

text \<open>Results collected by index answer the requests at their positions.\<close>

lemma collect_answers:
  assumes part: "mset items = mset (zip [0..<length reqs] reqs)" and out: "answers_share P items outs"
  shows "length (collect_ordered_results outs) = length reqs \<and>
    (\<forall>i < length reqs. P (reqs ! i) (collect_ordered_results outs ! i))"
proof -
  let ?ys = "sort_key fst outs"
  have "map fst outs = map fst items" using out by (simp add: answers_share_def)
  then have "mset (map fst outs) = mset (map fst (zip [0..<length reqs] reqs))"
    using part by (metis mset_map)
  then have z: "mset (map fst ?ys) = mset [0..<length reqs]" by simp
  have "sorted (map fst ?ys)" by simp
  then have k: "map fst ?ys = [0..<length reqs]"
    using z by (metis properties_for_sort sorted_upt)
  then have len: "length ?ys = length reqs" by (metis length_map length_upt diff_zero)
  have "P (reqs ! i) (snd (?ys ! i))" if i: "i < length reqs" for i
  proof -
    have "fst (?ys ! i) = i" using k len i by (metis add_0 diff_zero nth_map nth_upt)
    moreover have "?ys ! i \<in> set outs" using len i by (metis nth_mem set_sort)
    ultimately have "(i, snd (?ys ! i)) \<in> set outs" by (metis prod.collapse)
    then obtain req where "(i, req) \<in> set items" "P req (snd (?ys ! i))" using out by (auto simp: answers_share_def)
    moreover have "set items = set (zip [0..<length reqs] reqs)" using part by (metis set_mset_mset)
    ultimately show ?thesis by (auto simp: set_zip)
  qed
  then show ?thesis using len by (simp add: collect_ordered_results_def)
qed

lemma run_batch_answers:
  assumes workers: "0 < workers"
    and run: "\<And>i chunk. snd ` set chunk \<subseteq> set reqs \<Longrightarrow> \<exists>out. run_worker i chunk = Some out \<and> answers_share P chunk out"
  shows "\<exists>results. (run_batch workers reqs run_worker :: (('p, 'e) search_error + _) option) = Some (Inr results) \<and>
    length results = length reqs \<and> (\<forall>i < length reqs. P (reqs ! i) (results ! i))"
proof (cases "reqs = []")
  case True
  then show ?thesis using workers by (simp add: run_batch_def validate_parallel_def)
next
  case False
  define n where "n = min workers (length reqs)"
  have n: "0 < n" using workers False by (simp add: n_def)
  define chunks where "chunks = split_indexed_items reqs n"
  have part: "mset (concat chunks) = mset (zip [0..<length reqs] reqs)" unfolding chunks_def by (rule split_indexed_partition [OF n])
  then have all: "set (concat chunks) = set (zip [0..<length reqs] reqs)" by (metis set_mset_mset)
  have sub: "snd ` set chunk \<subseteq> set reqs" if "chunk \<in> set chunks" for chunk
  proof -
    have "set chunk \<subseteq> set (zip [0..<length reqs] reqs)" using that all by auto
    then show ?thesis using set_zip_rightD by fastforce
  qed
  show ?thesis
  proof (cases "n = 1")
    case True
    have "length chunks \<le> 1"
      using True length_filter_le [of _ "deal n 0 (zip [0..<length reqs] reqs) (replicate n [])"] by (simp add: chunks_def split_indexed_items_def)
    moreover have "chunks \<noteq> []" using part False by (cases chunks) auto
    ultimately obtain c where c: "chunks = [c]" by (cases chunks) auto
    obtain out where o: "run_worker 0 c = Some out" "answers_share P c out" using run [OF sub] c by auto
    have "mset c = mset (zip [0..<length reqs] reqs)" using part c by simp
    moreover have "split_indexed_items reqs (Suc 0) = [c]" using c True by (simp add: chunks_def)
    ultimately show ?thesis using collect_answers [OF _ o(2)] o(1) True workers False
      by (auto simp: run_batch_def validate_parallel_def n_def [symmetric] Let_def)
  next
    case many: False
    let ?ics = "zip [0..<length chunks] chunks"
    have rw: "\<exists>out. run_worker i chunk = Some out \<and> answers_share P chunk out" if "(i, chunk) \<in> set ?ics" for i chunk
      using run [OF sub] set_zip_rightD [OF that] by blast
    obtain outs where
      o: "(join_chunks (map (\<lambda>(i, chunk). run_worker i chunk) ?ics) :: ('p, 'e) search_error + _) = Inr outs"
        "answers_share P (concat chunks) outs"
      using join_chunks_ok [where ics = ?ics and run = run_worker and P = P and 'p = 'p and 'e = 'e] rw by auto
    show ?thesis using collect_answers [OF part o(2)] o(1) many workers False
      by (auto simp: run_batch_def validate_parallel_def n_def [symmetric] chunks_def [symmetric] Let_def)
  qed
qed

section \<open>Properties\<close>

lemma find_routes_answer:
  fixes S :: "('g, 'p, 'a, 'c, 's, 'e) amm_searcher"
  assumes "graph_inv G ends (se_graph S)" and "se_ops S = G"
    and "\<forall>sim. hop_quoter (quote sim) (price sim) good" and "good (qs_world st)"
    and "search_ok (req_config req)" and "req_in req \<noteq> req_out req"
  shows "\<exists>res st'. find_routes_with_quote_cache S quote req st = Some (res, st') \<and> good (qs_world st') \<and>
    routes_answer (se_graph S) (price (req_sim req)) (req_in req) (req_out req) (req_amount req) (req_config req) False res"
  unfolding find_routes_with_quote_cache_def
  using assms by (intro search_by_mode_answer) auto

lemma answer_best:
  assumes "routes_answer g price t u amount config revisit (Inr (q # qs))"
  shows "q \<in> priced_routes g price t u amount config revisit \<and>
    (complete_search config \<longrightarrow> (\<forall>r \<in> priced_routes g price t u amount config revisit. rq_amount_out r \<le> rq_amount_out q))"
proof -
  have "descending rq_amount_out (q # qs)" using assms by (simp add: routes_answer_def Let_def)
  then have "rq_amount_out r \<le> rq_amount_out q" if "r \<in> set (q # qs)" for r using that descending_hd by fastforce
  then show ?thesis using assms by (auto simp: routes_answer_def Let_def)
qed


text \<open>C27. Cycles: \<^verbatim>\<open>find_cycles\<close> answers with the ranked routes from the base token back to it, each
  with its profit: the exact difference of output and input when the output is larger, and no
  profit otherwise.\<close>

theorem cycles_profit_exact:
  fixes S :: "('g, 'p, 'a, 'c, 's, 'e) amm_searcher"
  assumes "graph_inv G ends (se_graph S)" and "se_ops S = G"
    and "\<forall>sim. hop_quoter (quote sim) (price sim) good" and "\<forall>c. good (attach c)"
    and "search_ok (cyc_config req)"
  shows "\<exists>res st. find_cycles S quote attach overlay req cache = Some (res, st) \<and>
    routes_answer (se_graph S) (price (cyc_sim req)) (cyc_base req) (cyc_base req) (cyc_amount req) (cyc_config req) True
      (and_then res (\<lambda>cycles. Inr (map cq_route cycles))) \<and>
    (case res of
       Inl _ \<Rightarrow> True
     | Inr cycles \<Rightarrow> \<forall>c \<in> set cycles. rq_amount_in (cq_route c) = cyc_amount req \<and>
         (case cq_profit c of
            None \<Rightarrow> rq_amount_out (cq_route c) \<le> cyc_amount req
          | Some profit \<Rightarrow> 0 < profit \<and> unat (rq_amount_out (cq_route c)) = unat (cyc_amount req) + unat profit))"
proof -
  let ?st = "new_quoting attach overlay cache"
  have "good (qs_world ?st)" using assms(4) by (simp add: new_quoting_def)
  moreover have "hop_quoter (quote (cyc_sim req)) (price (cyc_sim req)) good" using assms(3) by blast
  ultimately obtain res st where
    r: "search_by_mode S (quote (cyc_sim req)) (cyc_base req) (cyc_base req) (cyc_amount req) (cyc_config req) True ?st = Some (res, st)"
      "routes_answer (se_graph S) (price (cyc_sim req)) (cyc_base req) (cyc_base req) (cyc_amount req) (cyc_config req) True res"
    using search_by_mode_answer [OF assms(1,2), where t = "cyc_base req" and u = "cyc_base req" and revisit = True] assms(5) by blast
  have f: "find_cycles S quote attach overlay req cache = Some (and_then res (\<lambda>routes. Inr (map cycle_of_route routes)), st)"
    using r(1) by (simp add: find_cycles_def find_cycles_with_quote_cache_def)
  have cq1: "cq_route (cycle_of_route q) = q" for q :: "'p route_quote" by (simp add: cycle_of_route_def)
  have cq: "map cq_route (map cycle_of_route routes) = routes" for routes :: "'p route_quote list"
    by (induction routes) (simp_all add: cycle_of_route_def)
  have pr: "case cq_profit (cycle_of_route q) of None \<Rightarrow> rq_amount_out q \<le> rq_amount_in q
      | Some profit \<Rightarrow> 0 < profit \<and> unat (rq_amount_out q) = unat (rq_amount_in q) + unat profit" for q :: "'p route_quote"
    by (auto simp: cycle_of_route_def not_less unat_sub word_le_nat_alt word_less_nat_alt word_gt_0)
  have ain: "rq_amount_in q = amount" if "price_path pr amount p = Inr q" for pr amount p and q :: "'p route_quote"
    using that by (auto simp: price_path_def split: sum.splits prod.splits)
  show ?thesis
  proof (cases res)
    case (Inl err)
    then show ?thesis using f r(2) by simp
  next
    case (Inr routes)
    have am: "rq_amount_in q = cyc_amount req" if "q \<in> set routes" for q
      using r(2) that ain unfolding Inr by (fastforce simp: routes_answer_def Let_def priced_routes_def)
    have "rq_amount_in (cq_route c) = cyc_amount req \<and>
         (case cq_profit c of
            None \<Rightarrow> rq_amount_out (cq_route c) \<le> cyc_amount req
          | Some profit \<Rightarrow> 0 < profit \<and> unat (rq_amount_out (cq_route c)) = unat (cyc_amount req) + unat profit)"
      if cm: "c \<in> set (map cycle_of_route routes)" for c
    proof -
      obtain q where q: "q \<in> set routes" "c = cycle_of_route q" using cm by auto
      then show ?thesis using pr [of q] unfolding q(2) cq1 am [OF q(1)] by simp
    qed
    moreover have "and_then (Inr (map cycle_of_route routes)) (\<lambda>cycles. Inr (map cq_route cycles)) = (Inr routes :: ('p, 'e) route_results)"
      by (simp only: and_then_simps cq)
    ultimately show ?thesis using f r(2) unfolding Inr by simp
  qed
qed

lemma parallel_by_mode_answer:
  fixes S :: "('g, 'p, 'a, 'c, 's, 'e) amm_searcher"
  assumes inv: "graph_inv G ends (se_graph S)" and ops: "se_ops S = G"
    and views: "\<forall>i. hop_quoter (quote i) price (good i) \<and> good i (world i)" and workers: "0 < workers"
    and ok: "search_ok config" and ends: "t = u \<longrightarrow> revisit"
  shows "\<exists>res. parallel_by_mode S quote world workers t u amount config revisit = Some res \<and>
    routes_answer (se_graph S) price t u amount config revisit res"
proof (cases "search_mode_of config")
  case ModeExhaustive
  let ?reason = "ar_render (se_registry S) EmptyPath"
  show ?thesis
  proof (cases "enumerate_routes (se_graph S) t u config revisit :: ('p, 'e) search_error + 'p route_path list")
    case (Inl err)
    then show ?thesis using ModeExhaustive enumeration_error_answer [OF inv ok Inl] by (simp add: parallel_by_mode_def)
  next
    case (Inr paths)
    let ?res = "quote_and_rank_parallel workers (worker_share (quote 0) ?reason amount (world 0))
        (\<lambda>i chunk. Some (worker_share (quote i) ?reason amount (world i) chunk)) paths :: ('p, 'e) route_results"
    have "case ?res of Inr ranked \<Rightarrow> ranks (share_quotes price amount paths) ranked \<and> ranked \<noteq> []
        | Inl err \<Rightarrow> share_quotes price amount paths = [] \<and> (\<exists>fs. err = NoViableRoute (length paths) fs)"
      using parallel_ranking_cases [OF workers views, where reason = ?reason and amount = amount and paths = paths and 'e = 'e]
      by (auto split: sum.splits)
    from ranked_answer [OF inv Inr ModeExhaustive this] show ?thesis
      using ModeExhaustive Inr by (simp add: parallel_by_mode_def Let_def)
  qed
next
  case (ModeHeuristic h)
  have "hop_quoter (quote 0) price (good 0)" "good 0 (qs_world \<lparr>qs_world = world 0, qs_stats = no_prune_stats\<rparr>)"
    using views by simp_all
  from heuristic_answer [OF inv ops this ok ModeHeuristic ends, of amount] show ?thesis
    using ModeHeuristic workers by (auto simp: parallel_by_mode_def validate_parallel_def)
qed

definition same_quotes :: "('p, 'e) route_results \<Rightarrow> ('p, 'e) route_results \<Rightarrow> bool" where
  "same_quotes a b \<longleftrightarrow>
     (case (a, b) of (Inr quotes, Inr quotes') \<Rightarrow> mset quotes = mset quotes' | (Inl _, Inl _) \<Rightarrow> True | _ \<Rightarrow> False)"

lemma answers_agree:
  assumes "routes_answer g price t u amount config revisit a" and "routes_answer g price t u amount config revisit b"
    and "complete_search config"
  shows "same_quotes a b"
proof (cases a)
  case (Inl x)
  then show ?thesis using assms by (cases b) (simp_all add: routes_answer_def Let_def same_quotes_def)
next
  case (Inr quotes)
  then show ?thesis
  proof (cases b)
    case b: (Inr quotes')
    have "set quotes = set quotes'" "distinct quotes" "distinct quotes'"
      using assms Inr b by (simp_all add: routes_answer_def Let_def distinct_map)
    then show ?thesis using Inr b by (simp add: same_quotes_def set_eq_iff_mset_eq_distinct)
  qed (use assms Inr in \<open>simp add: routes_answer_def Let_def same_quotes_def\<close>)
qed



section \<open>Concrete searches\<close>

definition demo_request :: "unit route_request" where
  "demo_request = \<lparr>req_in = 1, req_out = 2, req_amount = 9, req_config = default_config, req_sim = demo_sim\<rparr>"

definition demo_cycle :: "unit cycle_request" where
  "demo_cycle = \<lparr>cyc_base = 1, cyc_amount = 9, cyc_config = default_config, cyc_sim = demo_sim\<rparr>"

lemma demo_setting:
  "graph_inv slot_graph_ops slot_ends (se_graph demo_searcher)" "se_ops demo_searcher = slot_graph_ops"
  "\<forall>sim :: unit sim_config_scheme. hop_quoter demo_hop_quote demo_hop_price (\<lambda>_. True)"
  "search_ok (req_config demo_request)" "req_in demo_request \<noteq> req_out demo_request" "search_ok (cyc_config demo_cycle)"
  "complete_search (req_config demo_request)"
  using demo_graph_inv(1) demo_quoter.hop_quoter_axioms demo_default_ok
  by (simp_all add: demo_searcher_def demo_request_def demo_cycle_def complete_search_def default_config_def)

lemma demo_priced:
  "\<exists>q \<in> priced_routes demo_graph demo_hop_price 1 2 9 default_config False. rq_amount_out q = 8"
  using demo_route by (auto simp: priced_routes_def price_path_def demo_hop_price_def intro!: bexI [of _ "[demo_hop]"])


theorem cycles_profit_exact_witness:
  "\<exists>res st. find_cycles demo_searcher (\<lambda>_. demo_hop_quote) (\<lambda>_. 0) None demo_cycle () = Some (res, st) \<and>
     (case res of Inl _ \<Rightarrow> True | Inr cycles \<Rightarrow> \<forall>c \<in> set cycles. rq_amount_in (cq_route c) = 9)"
proof -
  have "\<forall>c :: unit. (\<lambda>_ :: nat. True) ((\<lambda>_. 0) c)" by simp
  from cycles_profit_exact [OF demo_setting(1-3) this demo_setting(6), where overlay = None and cache = "()"]
  show ?thesis by (fastforce simp: demo_cycle_def split: sum.splits)
qed



end
