(* ===== verification/LiquidityOps.thy ===== *)
theory LiquidityOps
  imports Liquidity AmmGraph SearchConfig
begin

text \<open>
  The operations of the liquidity index of \<^verbatim>\<open>src/liquidity.rs\<close>. Target slots are reused
  through a free list, every other field is an index into them; an index out of range panics,
  which is the result \<open>None\<close>. What the registry knows of a pool (its tokens, its address, the
  vault and cash slots of a Balancer pool) is the record \<open>pool_info\<close>, and the cache's batch
  update is an argument, as both belong to other crates.
\<close>

unbundle bit_operations_syntax

section \<open>Targets and reverse indices\<close>

definition storage_slot :: "liquidity_target \<Rightarrow> (address \<times> u256) option" where
  "storage_slot t =
     (case tgt_source t of
        Erc20Balance holder (Some slot) \<Rightarrow> Some (tgt_token t, slot)
      | BalancerV2VaultCash vault slot high \<Rightarrow> Some (vault, slot)
      | _ \<Rightarrow> None)"

definition push_index :: "('k \<rightharpoonup> nat list) \<Rightarrow> 'k \<Rightarrow> nat \<Rightarrow> ('k \<rightharpoonup> nat list)" where
  "push_index m k i = m(k \<mapsto> (case m k of None \<Rightarrow> [i] | Some js \<Rightarrow> js @ [i]))"

definition remove_reverse_index :: "('k \<rightharpoonup> nat list) \<Rightarrow> 'k \<Rightarrow> nat \<Rightarrow> ('k \<rightharpoonup> nat list)" where
  "remove_reverse_index m k i =
     (case m k of
        None \<Rightarrow> m
      | Some js \<Rightarrow> (let kept = filter (\<lambda>j. j \<noteq> i) js in if kept = [] then m(k := None) else m(k \<mapsto> kept)))"

definition empty_index :: "'p liquidity_index" where
  "empty_index = \<lparr>li_targets = [], by_pool_token = Map.empty, by_token_holder = Map.empty,
     by_storage_slot = Map.empty, by_pool = Map.empty, pool_token_counts = Map.empty, free_targets = []\<rparr>"

definition put_target :: "liquidity_target list \<Rightarrow> nat \<Rightarrow> liquidity_target \<Rightarrow> liquidity_target list" where
  "put_target targets i target = (if i = length targets then targets @ [target] else targets[i := target])"

definition push_target_with_balance ::
  "'p \<Rightarrow> address \<Rightarrow> liquidity_source \<Rightarrow> balance_state \<Rightarrow> 'p liquidity_index \<Rightarrow> 'p liquidity_index" where
  "push_target_with_balance pool token source balance ix =
     (let i = (if free_targets ix = [] then length (li_targets ix) else last (free_targets ix));
          target = \<lparr>tgt_token = token, tgt_source = source, tgt_balance = balance, tgt_active = True\<rparr>
      in ix\<lparr>free_targets := butlast (free_targets ix),
            by_token_holder := (case source of
               Erc20Balance holder slot \<Rightarrow> push_index (by_token_holder ix) (token, holder) i
             | _ \<Rightarrow> by_token_holder ix),
            by_pool_token := (by_pool_token ix)((pool, token) \<mapsto> i),
            by_pool := push_index (by_pool ix) pool i,
            li_targets := put_target (li_targets ix) i target,
            by_storage_slot := (case storage_slot target of
               Some key \<Rightarrow> push_index (by_storage_slot ix) key i
             | None \<Rightarrow> by_storage_slot ix)\<rparr>)"

definition push_target :: "'p \<Rightarrow> address \<Rightarrow> liquidity_source \<Rightarrow> 'p liquidity_index \<Rightarrow> 'p liquidity_index" where
  "push_target pool token source ix = push_target_with_balance pool token source BalanceUnknown ix"

definition remove_target :: "'p \<Rightarrow> nat \<Rightarrow> 'p liquidity_index \<Rightarrow> 'p liquidity_index" where
  "remove_target pool i ix =
     (if i < length (li_targets ix) \<and> tgt_active (li_targets ix ! i)
      then
        (let t = li_targets ix ! i
         in ix\<lparr>li_targets := (li_targets ix)[i := t\<lparr>tgt_active := False\<rparr>],
               by_pool_token := (by_pool_token ix)((pool, tgt_token t) := None),
               by_token_holder := (case tgt_source t of
                  Erc20Balance holder slot \<Rightarrow> remove_reverse_index (by_token_holder ix) (tgt_token t, holder) i
                | _ \<Rightarrow> by_token_holder ix),
               by_storage_slot := (case storage_slot t of
                  Some key \<Rightarrow> remove_reverse_index (by_storage_slot ix) key i
                | None \<Rightarrow> by_storage_slot ix),
               free_targets := free_targets ix @ [i]\<rparr>)
      else ix)"

definition remove_pool_targets :: "'p \<Rightarrow> 'p liquidity_index \<Rightarrow> 'p liquidity_index" where
  "remove_pool_targets pool ix =
     (let ix1 = (case by_pool ix pool of
                   None \<Rightarrow> ix
                 | Some indices \<Rightarrow> fold (remove_target pool) indices (ix\<lparr>by_pool := (by_pool ix)(pool := None)\<rparr>))
      in ix1\<lparr>pool_token_counts := (pool_token_counts ix1)(pool := None)\<rparr>)"

definition target_index :: "'p liquidity_index \<Rightarrow> 'p \<Rightarrow> address \<Rightarrow> nat option" where
  "target_index ix pool token = by_pool_token ix (pool, token)"

definition li_len :: "'p liquidity_index \<Rightarrow> nat" where
  "li_len ix = card (dom (by_pool_token ix))"

section \<open>Setting balances\<close>

datatype 'p liquidity_error = UnknownPoolToken 'p address

text \<open>Applying a change to the targets at some indices in turn.\<close>

fun update_targets ::
  "(liquidity_target \<Rightarrow> liquidity_target) \<Rightarrow> nat list \<Rightarrow> 'p liquidity_index \<Rightarrow> 'p liquidity_index option" where
  "update_targets f [] ix = Some ix"
| "update_targets f (i # js) ix =
     (if i < length (li_targets ix)
      then update_targets f js (ix\<lparr>li_targets := (li_targets ix)[i := f (li_targets ix ! i)]\<rparr>)
      else None)"

definition set_target_balance ::
  "balance_state \<Rightarrow> 'p \<Rightarrow> address \<Rightarrow> 'p liquidity_index \<Rightarrow> ('p liquidity_error + 'p liquidity_index) option" where
  "set_target_balance balance pool token ix =
     (case target_index ix pool token of
        None \<Rightarrow> Some (Inl (UnknownPoolToken pool token))
      | Some i \<Rightarrow> map_option Inr (update_targets (\<lambda>t. t\<lparr>tgt_balance := balance\<rparr>) [i] ix))"

definition set_balance ::
  "'p \<Rightarrow> address \<Rightarrow> u256 \<Rightarrow> 'p liquidity_index \<Rightarrow> ('p liquidity_error + 'p liquidity_index) option" where
  "set_balance pool token balance ix = set_target_balance (BalanceFresh balance) pool token ix"

definition mark_stale ::
  "'p \<Rightarrow> address \<Rightarrow> 'p liquidity_index \<Rightarrow> ('p liquidity_error + 'p liquidity_index) option" where
  "mark_stale pool token ix = set_target_balance BalanceStale pool token ix"

definition indices_at :: "('k \<rightharpoonup> nat list) \<Rightarrow> 'k \<Rightarrow> nat list" where
  "indices_at m k = (case m k of None \<Rightarrow> [] | Some js \<Rightarrow> js)"

definition mark_token_holder_unknown_or_stale ::
  "address \<Rightarrow> address \<Rightarrow> bool \<Rightarrow> 'p liquidity_index \<Rightarrow> (nat \<times> 'p liquidity_index) option" where
  "mark_token_holder_unknown_or_stale token holder stale ix =
     (let js = indices_at (by_token_holder ix) (token, holder)
      in map_option (Pair (length js))
           (update_targets (\<lambda>t. t\<lparr>tgt_balance := if stale then BalanceStale else BalanceUnknown\<rparr>) js ix))"

section \<open>Storage slots\<close>

definition cash_bits :: nat where
  "cash_bits = 112"

definition decode_balancer_cash :: "u256 \<Rightarrow> bool \<Rightarrow> u256" where
  "decode_balancer_cash word high_field =
     (let mask = push_bit cash_bits 1 - 1
      in if high_field then drop_bit cash_bits word AND mask else word AND mask)"

definition slot_balance :: "liquidity_source \<Rightarrow> u256 \<Rightarrow> u256 option" where
  "slot_balance source v =
     (case source of
        Erc20Balance holder slot \<Rightarrow> Some v
      | BalancerV2VaultCash vault slot high_field \<Rightarrow> Some (decode_balancer_cash v high_field)
      | SourceUnknown \<Rightarrow> None)"

fun set_slots :: "address \<Rightarrow> u256 \<Rightarrow> nat list \<Rightarrow> 'p liquidity_index \<Rightarrow> 'p liquidity_index option" where
  "set_slots token slot [] ix = Some ix"
| "set_slots token slot (i # js) ix =
     (if length (li_targets ix) \<le> i then None
      else
        (let t = li_targets ix ! i
         in case tgt_source t of
              Erc20Balance holder old \<Rightarrow>
                set_slots token slot js
                  (ix\<lparr>li_targets := (li_targets ix)[i := t\<lparr>tgt_source := Erc20Balance holder (Some slot)\<rparr>],
                      by_storage_slot :=
                        (if i \<in> set (indices_at (by_storage_slot ix) (token, slot))
                         then (by_storage_slot ix)((token, slot) \<mapsto> indices_at (by_storage_slot ix) (token, slot))
                         else push_index (by_storage_slot ix) (token, slot) i)\<rparr>)
            | _ \<Rightarrow> set_slots token slot js ix))"

definition set_erc20_slot :: "address \<Rightarrow> address \<Rightarrow> u256 \<Rightarrow> 'p liquidity_index \<Rightarrow> 'p liquidity_index option" where
  "set_erc20_slot token holder slot ix = set_slots token slot (indices_at (by_token_holder ix) (token, holder)) ix"

definition set_erc20_balance_slot ::
  "address \<Rightarrow> address \<Rightarrow> u256 \<Rightarrow> 'p liquidity_index \<Rightarrow> (nat \<times> 'p liquidity_index) option" where
  "set_erc20_balance_slot token holder slot ix =
     map_option (\<lambda>ix'. (saturating_sub (length (indices_at (by_storage_slot ix') (token, slot)))
                                        (length (indices_at (by_storage_slot ix) (token, slot))), ix'))
       (set_erc20_slot token holder slot ix)"

definition write_slot :: "u256 \<Rightarrow> liquidity_target \<Rightarrow> liquidity_target" where
  "write_slot v t = (case slot_balance (tgt_source t) v of None \<Rightarrow> t | Some b \<Rightarrow> t\<lparr>tgt_balance := BalanceFresh b\<rparr>)"

definition update_slot_value ::
  "address \<Rightarrow> u256 \<Rightarrow> u256 \<Rightarrow> 'p liquidity_index \<Rightarrow> (nat \<times> 'p liquidity_index) option" where
  "update_slot_value address slot v ix =
     (let js = indices_at (by_storage_slot ix) (address, slot)
      in map_option (Pair (length (filter (\<lambda>i. tgt_source (li_targets ix ! i) \<noteq> SourceUnknown) js)))
           (update_targets (write_slot v) js ix))"

datatype slot_delta = DeltaAdd u256 | DeltaSub u256

text \<open>The state updates of the adapter crate the index reads or emits.\<close>

datatype state_update = SlotWrite address u256 u256 | SlotChange address u256 slot_delta | OtherUpdate nat

fun apply_storage_updates :: "state_update list \<Rightarrow> 'p liquidity_index \<Rightarrow> (nat \<times> 'p liquidity_index) option" where
  "apply_storage_updates [] ix = Some (0, ix)"
| "apply_storage_updates (SlotWrite address slot v # us) ix =
     (case update_slot_value address slot v ix of
        None \<Rightarrow> None
      | Some (n, ix') \<Rightarrow> map_option (map_prod ((+) n) id) (apply_storage_updates us ix'))"
| "apply_storage_updates (_ # us) ix = apply_storage_updates us ix"

record refresh_report =
  storage_reads :: nat
  refreshed_balances :: nat
  unknown_balances :: nat
  stale_balances :: nat
  refresh_failures :: "(address \<times> string) list"

definition no_refresh :: refresh_report where
  "no_refresh = \<lparr>storage_reads = 0, refreshed_balances = 0, unknown_balances = 0, stale_balances = 0, refresh_failures = []\<rparr>"

text \<open>\<^verbatim>\<open>refresh_from_snapshot\<close>: one target after the other; \<open>stored\<close> is the snapshot's storage.\<close>

fun snapshot_targets ::
  "(address \<Rightarrow> u256 \<Rightarrow> u256 option) \<Rightarrow> liquidity_target list \<Rightarrow> refresh_report \<Rightarrow> liquidity_target list \<times> refresh_report" where
  "snapshot_targets stored [] report = ([], report)"
| "snapshot_targets stored (t # ts) report =
     (let (t', report1) =
        (if \<not> tgt_active t then (t, report)
         else case Option.bind (storage_slot t) (\<lambda>(address, slot). stored address slot) of
                None \<Rightarrow> (t\<lparr>tgt_balance := BalanceUnknown\<rparr>, report\<lparr>unknown_balances := Suc (unknown_balances report)\<rparr>)
              | Some v \<Rightarrow>
                  (case slot_balance (tgt_source t) v of
                     None \<Rightarrow> (t, report\<lparr>unknown_balances := Suc (unknown_balances report)\<rparr>)
                   | Some b \<Rightarrow> (t\<lparr>tgt_balance := BalanceFresh b\<rparr>,
                                report\<lparr>refreshed_balances := Suc (refreshed_balances report)\<rparr>)));
          (ts', report2) = snapshot_targets stored ts report1
      in (t' # ts', report2))"

definition refresh_from_snapshot ::
  "(address \<Rightarrow> u256 \<Rightarrow> u256 option) \<Rightarrow> 'p liquidity_index \<Rightarrow> refresh_report \<times> 'p liquidity_index" where
  "refresh_from_snapshot stored ix =
     (let (ts, report) = snapshot_targets stored (li_targets ix) no_refresh in (report, ix\<lparr>li_targets := ts\<rparr>))"

section \<open>Transfers\<close>

type_synonym byte = "8 word"

record event_log =
  log_address :: address
  log_topics :: "u256 list"
  log_data :: "byte list"

record token_transfer =
  tr_token :: address
  tr_from :: address
  tr_to :: address
  tr_value :: u256

definition from_be_slice :: "byte list \<Rightarrow> u256" where
  "from_be_slice bytes = foldl (\<lambda>acc b. acc * 256 + ucast b) 0 bytes"

text \<open>\<open>signature\<close> is the hash of the event signature, computed by a third-party function;
  \<^verbatim>\<open>Address::from_word\<close> keeps the low 160 bits.\<close>

definition parse_transfer :: "u256 \<Rightarrow> event_log \<Rightarrow> token_transfer option" where
  "parse_transfer signature log =
     (case log_topics log of
        t0 # t1 # t2 # _ \<Rightarrow>
          (if t0 \<noteq> signature \<or> length (log_data log) < 32 then None
           else Some \<lparr>tr_token = log_address log, tr_from = ucast t1, tr_to = ucast t2,
                      tr_value = from_be_slice (take 32 (log_data log))\<rparr>)
      | _ \<Rightarrow> None)"

record transfer_report =
  tp_matched :: bool
  tp_updated :: nat
  tp_stale :: nat
  tp_cache_updates :: nat
  tp_skipped :: nat

definition no_transfer :: transfer_report where
  "no_transfer = \<lparr>tp_matched = False, tp_updated = 0, tp_stale = 0, tp_cache_updates = 0, tp_skipped = 0\<rparr>"

record touched_target =
  tc_index :: nat
  tc_address :: address
  tc_slot :: u256
  tc_delta :: slot_delta

text \<open>The loop of \<^verbatim>\<open>collect_transfer_updates\<close>: every target with a known slot is touched, every
  slot is updated once. \<open>None\<close> is an index out of range.\<close>

fun collect_touched ::
  "liquidity_target list \<Rightarrow> address \<Rightarrow> slot_delta \<Rightarrow> nat list \<Rightarrow> u256 set \<Rightarrow>
     (state_update list \<times> touched_target list) option" where
  "collect_touched targets token delta [] pushed = Some ([], [])"
| "collect_touched targets token delta (i # js) pushed =
     (if length targets \<le> i then None
      else case tgt_source (targets ! i) of
             Erc20Balance holder (Some slot) \<Rightarrow>
               map_option (\<lambda>(updates, touched).
                   ((if slot \<in> pushed then updates else SlotChange token slot delta # updates),
                    \<lparr>tc_index = i, tc_address = token, tc_slot = slot, tc_delta = delta\<rparr> # touched))
                 (collect_touched targets token delta js (insert slot pushed))
           | _ \<Rightarrow> collect_touched targets token delta js pushed)"

definition collect_transfer_updates ::
  "'p liquidity_index \<Rightarrow> address \<Rightarrow> address \<Rightarrow> slot_delta \<Rightarrow> (state_update list \<times> touched_target list) option" where
  "collect_transfer_updates ix token holder delta =
     (if holder = 0 then Some ([], [])
      else collect_touched (li_targets ix) token delta (indices_at (by_token_holder ix) (token, holder)) {})"

text \<open>What the cache answers to a batch of updates.\<close>

record state_diff =
  sd_skipped :: "(address \<times> u256) list"
  sd_skipped_masks :: nat
  sd_has_skipped :: bool

fun settle_touched ::
  "(slot_delta \<Rightarrow> u256 \<Rightarrow> u256) \<Rightarrow> state_diff \<Rightarrow> touched_target list \<Rightarrow> 'p liquidity_index \<Rightarrow> transfer_report \<Rightarrow>
     (transfer_report \<times> 'p liquidity_index) option" where
  "settle_touched apply_delta diff [] ix report = Some (report, ix)"
| "settle_touched apply_delta diff (c # cs) ix report =
     (if length (li_targets ix) \<le> tc_index c then None
      else
        (let t = li_targets ix ! tc_index c;
             skipped = (sd_has_skipped diff \<and> (tc_address c, tc_slot c) \<in> set (sd_skipped diff));
             next = (case fresh (tgt_balance t) of
                       Some current \<Rightarrow> if skipped then BalanceStale else BalanceFresh (apply_delta (tc_delta c) current)
                     | None \<Rightarrow> BalanceStale);
             report' = (if next = BalanceStale then report\<lparr>tp_stale := Suc (tp_stale report)\<rparr>
                        else report\<lparr>tp_updated := Suc (tp_updated report)\<rparr>)
         in settle_touched apply_delta diff cs
              (ix\<lparr>li_targets := (li_targets ix)[tc_index c := t\<lparr>tgt_balance := next\<rparr>]\<rparr>) report'))"

definition apply_transfer_log ::
  "u256 \<Rightarrow> (slot_delta \<Rightarrow> u256 \<Rightarrow> u256) \<Rightarrow> (state_update list \<Rightarrow> 'c \<Rightarrow> state_diff \<times> 'c) \<Rightarrow> event_log \<Rightarrow> 'c \<Rightarrow>
     'p liquidity_index \<Rightarrow> (transfer_report \<times> 'p liquidity_index \<times> 'c) option" where
  "apply_transfer_log signature apply_delta apply_updates log cache ix =
     (case parse_transfer signature log of
        None \<Rightarrow> Some (no_transfer, ix, cache)
      | Some tr \<Rightarrow>
          (case (collect_transfer_updates ix (tr_token tr) (tr_from tr) (DeltaSub (tr_value tr)),
                 collect_transfer_updates ix (tr_token tr) (tr_to tr) (DeltaAdd (tr_value tr))) of
             (Some (updates1, touched1), Some (updates2, touched2)) \<Rightarrow>
               (let updates = updates1 @ updates2
                in if updates = [] then Some (no_transfer, ix, cache)
                   else
                     (case apply_updates updates cache of
                        (diff, cache') \<Rightarrow>
                          map_option (\<lambda>(report, ix'). (report, ix', cache'))
                            (settle_touched apply_delta diff (touched1 @ touched2) ix
                              (no_transfer\<lparr>tp_matched := True, tp_cache_updates := length updates,
                                 tp_skipped := length (sd_skipped diff) + sd_skipped_masks diff\<rparr>))))
           | _ \<Rightarrow> None))"

definition mark_holder_stale :: "address \<Rightarrow> address \<Rightarrow> 'p liquidity_index \<Rightarrow> (nat \<times> 'p liquidity_index) option" where
  "mark_holder_stale token holder ix =
     (if holder = 0 then Some (0, ix)
      else (let js = indices_at (by_token_holder ix) (token, holder)
            in map_option (Pair (length js)) (update_targets (\<lambda>t. t\<lparr>tgt_balance := BalanceStale\<rparr>) js ix)))"

definition mark_transfer_log_stale ::
  "u256 \<Rightarrow> event_log \<Rightarrow> 'p liquidity_index \<Rightarrow> (transfer_report \<times> 'p liquidity_index) option" where
  "mark_transfer_log_stale signature log ix =
     (case parse_transfer signature log of
        None \<Rightarrow> Some (no_transfer, ix)
      | Some tr \<Rightarrow>
          (case mark_holder_stale (tr_token tr) (tr_from tr) ix of
             None \<Rightarrow> None
           | Some (n1, ix1) \<Rightarrow>
               (case mark_holder_stale (tr_token tr) (tr_to tr) ix1 of
                  None \<Rightarrow> None
                | Some (n2, ix2) \<Rightarrow> Some (no_transfer\<lparr>tp_matched := True, tp_stale := n1 + n2\<rparr>, ix2))))"

section \<open>Subscriptions\<close>

record transfer_event_source =
  src_token :: address
  src_holders :: "address list"

definition holder_pairs :: "liquidity_target list \<Rightarrow> (address \<times> address) list" where
  "holder_pairs targets =
     List.map_filter (\<lambda>t. if tgt_active t
         then (case tgt_source t of Erc20Balance holder slot \<Rightarrow> Some (tgt_token t, holder) | _ \<Rightarrow> None) else None) targets"

definition transfer_event_sources :: "'p liquidity_index \<Rightarrow> transfer_event_source list" where
  "transfer_event_sources ix =
     (let pairs = holder_pairs (li_targets ix)
      in map (\<lambda>token. \<lparr>src_token = token, src_holders = sorted_list_of_set (snd ` {p \<in> set pairs. fst p = token})\<rparr>)
           (sorted_list_of_set (fst ` set pairs)))"

section \<open>Building and reconciling\<close>

datatype liquidity_scope = ParallelEdgeOutputs | AllDirectedEdges

record 'p pool_info =
  pi_tokens :: "'p pool_registration \<Rightarrow> address list option"
  pi_address :: "'p \<Rightarrow> address option"
  pi_vault :: "'p pool_registration \<Rightarrow> address option"
  pi_cash :: "'p pool_registration \<Rightarrow> (address \<times> u256 \<times> bool) list"

definition normalize_liquidity_tokens :: "address list \<Rightarrow> address list" where
  "normalize_liquidity_tokens tokens = remdups_adj (sort tokens)"

text \<open>Collecting the cash entries into a hash map keeps the last one of a token.\<close>

definition cash_of :: "(address \<times> u256 \<times> bool) list \<Rightarrow> address \<Rightarrow> (u256 \<times> bool) option" where
  "cash_of cash token = map_of (rev cash) token"

definition pool_source :: "'p pool_info \<Rightarrow> 'p pool_registration \<Rightarrow> address \<Rightarrow> liquidity_source" where
  "pool_source info reg token =
     (case reg_metadata reg of
        MetaBalancerV2 _ \<Rightarrow>
          (case (pi_vault info reg, cash_of (pi_cash info reg) token) of
             (Some vault, Some (slot, high)) \<Rightarrow> BalancerV2VaultCash vault slot high
           | _ \<Rightarrow> SourceUnknown)
      | _ \<Rightarrow> (case pi_address info (reg_key reg) of None \<Rightarrow> SourceUnknown | Some holder \<Rightarrow> Erc20Balance holder None))"

fun tracks_balances :: "protocol_metadata \<Rightarrow> bool" where
  "tracks_balances MetaUnknown = False"
| "tracks_balances (MetaCustom _) = False"
| "tracks_balances (MetaOther _) = False"
| "tracks_balances _ = True"

definition desired_targets :: "'p pool_info \<Rightarrow> 'p pool_registration \<Rightarrow> address set \<Rightarrow> (address \<times> liquidity_source) list" where
  "desired_targets info reg needed =
     (case pi_tokens info reg of
        None \<Rightarrow> []
      | Some tokens \<Rightarrow>
          (if tracks_balances (reg_metadata reg)
           then map (\<lambda>token. (token, pool_source info reg token)) (filter (\<lambda>t. t \<in> needed) (normalize_liquidity_tokens tokens))
           else []))"

fun preserve_discovered_source :: "liquidity_source \<Rightarrow> liquidity_source \<Rightarrow> liquidity_source" where
  "preserve_discovered_source (Erc20Balance ph (Some s)) (Erc20Balance dh ds) =
     (if ph = dh then Erc20Balance ph (Some s) else Erc20Balance dh ds)"
| "preserve_discovered_source previous desired = desired"

record mutation_report =
  added_targets :: nat
  removed_targets :: nat
  preserved_fresh_targets :: nat
  unknown_targets :: nat

definition no_mutation :: mutation_report where
  "no_mutation = \<lparr>added_targets = 0, removed_targets = 0, preserved_fresh_targets = 0, unknown_targets = 0\<rparr>"

text \<open>The active targets of a pool by token, the later index winning.\<close>

definition previous_targets :: "'p liquidity_index \<Rightarrow> 'p \<Rightarrow> (address \<rightharpoonup> liquidity_source \<times> balance_state)" where
  "previous_targets ix pool =
     map_of (rev (map (\<lambda>t. (tgt_token t, tgt_source t, tgt_balance t))
       (filter tgt_active (List.map_filter (\<lambda>i. if i < length (li_targets ix) then Some (li_targets ix ! i) else None)
          (indices_at (by_pool ix) pool)))))"

fun count_desired ::
  "(address \<rightharpoonup> liquidity_source \<times> balance_state) \<Rightarrow> (address \<times> liquidity_source) list \<Rightarrow> mutation_report \<Rightarrow> mutation_report" where
  "count_desired previous [] report = report"
| "count_desired previous ((token, source) # ds) report =
     (let r1 = (case previous token of
                  None \<Rightarrow> report\<lparr>added_targets := Suc (added_targets report)\<rparr>
                | Some (psource, pbalance) \<Rightarrow>
                    (if psource = source
                     then (if fresh pbalance \<noteq> None
                           then report\<lparr>preserved_fresh_targets := Suc (preserved_fresh_targets report)\<rparr> else report)
                     else report\<lparr>removed_targets := Suc (removed_targets report), added_targets := Suc (added_targets report)\<rparr>));
          r2 = (if source = SourceUnknown then r1\<lparr>unknown_targets := Suc (unknown_targets r1)\<rparr> else r1)
      in count_desired previous ds r2)"

definition next_targets ::
  "(address \<rightharpoonup> liquidity_source \<times> balance_state) \<Rightarrow> (address \<times> liquidity_source) list \<Rightarrow> (address \<times> liquidity_source) list" where
  "next_targets previous desired =
     map (\<lambda>(token, source). (token, case previous token of None \<Rightarrow> source
        | Some (psource, _) \<Rightarrow> preserve_discovered_source psource source)) desired"

definition kept_balance ::
  "(address \<rightharpoonup> liquidity_source \<times> balance_state) \<Rightarrow> address \<Rightarrow> liquidity_source \<Rightarrow> balance_state" where
  "kept_balance previous token source =
     (case previous token of None \<Rightarrow> BalanceUnknown | Some (psource, b) \<Rightarrow> (if psource = source then b else BalanceUnknown))"

definition reconcile_pool ::
  "'p pool_info \<Rightarrow> ('p \<Rightarrow> 'p pool_registration option) \<Rightarrow> ('g, 'p) amm_graph \<Rightarrow> liquidity_scope \<Rightarrow> 'p \<Rightarrow>
     'p liquidity_index \<times> mutation_report \<Rightarrow> 'p liquidity_index \<times> mutation_report" where
  "reconcile_pool info registered g scope pool s =
     (let (ix, report) = s;
          previous = previous_targets ix pool;
          needed = tracked_tokens_for_pool g pool (scope = ParallelEdgeOutputs);
          desired = next_targets previous
            (case registered pool of None \<Rightarrow> [] | Some reg \<Rightarrow> (if needed = {} then [] else desired_targets info reg needed));
          report1 = count_desired previous desired report;
          gone = card {t \<in> dom previous. t \<notin> fst ` set desired};
          ix1 = remove_pool_targets pool ix;
          token_count = (case registered pool of None \<Rightarrow> 0
            | Some reg \<Rightarrow> (case pi_tokens info reg of None \<Rightarrow> 0 | Some ts \<Rightarrow> length (normalize_liquidity_tokens ts)));
          ix2 = (if 2 \<le> token_count \<and> desired \<noteq> []
                 then ix1\<lparr>pool_token_counts := (pool_token_counts ix1)(pool \<mapsto> token_count)\<rparr> else ix1)
      in (fold (\<lambda>(token, source). push_target_with_balance pool token source (kept_balance previous token source)) desired ix2,
          report1\<lparr>removed_targets := removed_targets report1 + gone\<rparr>))"

definition reconcile_pools ::
  "('p \<Rightarrow> string) \<Rightarrow> 'p pool_info \<Rightarrow> ('p \<Rightarrow> 'p pool_registration option) \<Rightarrow> ('g, 'p) amm_graph \<Rightarrow> liquidity_scope \<Rightarrow>
     'p list \<Rightarrow> 'p liquidity_index \<Rightarrow> 'p liquidity_index \<times> mutation_report" where
  "reconcile_pools debug info registered g scope pools ix =
     fold (reconcile_pool info registered g scope) (remdups_adj (sort_key debug pools)) (ix, no_mutation)"

text \<open>The tokens to track, from all edges of the graph: \<open>edges\<close> lists the edge references of the
  graph library as source node, target node and pool.\<close>

definition edge_tokens ::
  "('g, 'p) stable_graph_ops \<Rightarrow> ('g, 'p) amm_graph \<Rightarrow> (nat \<times> nat \<times> 'p) list \<Rightarrow> (address \<times> address \<times> 'p) list" where
  "edge_tokens G g edges =
     List.map_filter (\<lambda>(a, b, pool).
       case (node_token G g a, node_token G g b) of (Some x, Some y) \<Rightarrow> Some (x, y, pool) | _ \<Rightarrow> None) edges"

definition parallel_output_tokens_by_pool :: "(address \<times> address \<times> 'p) list \<Rightarrow> 'p \<Rightarrow> address set option" where
  "parallel_output_tokens_by_pool refs pool =
     (let outs = map (\<lambda>(a, b, p). b)
            (filter (\<lambda>(a, b, p). p = pool \<and> parallel_edge_threshold \<le> length (filter (\<lambda>(a', b', _). a' = a \<and> b' = b) refs)) refs)
      in if outs = [] then None else Some (set outs))"

definition all_directed_edge_tokens_by_pool :: "(address \<times> address \<times> 'p) list \<Rightarrow> 'p \<Rightarrow> address set option" where
  "all_directed_edge_tokens_by_pool refs pool =
     (let own = filter (\<lambda>(a, b, p). p = pool) refs
      in if own = [] then None else Some (set (concat (map (\<lambda>(a, b, p). [a, b]) own))))"

definition tracked_tokens_by_pool :: "liquidity_scope \<Rightarrow> (address \<times> address \<times> 'p) list \<Rightarrow> 'p \<Rightarrow> address set option" where
  "tracked_tokens_by_pool scope refs =
     (case scope of
        ParallelEdgeOutputs \<Rightarrow> parallel_output_tokens_by_pool refs
      | AllDirectedEdges \<Rightarrow> all_directed_edge_tokens_by_pool refs)"

definition build_pool ::
  "'p pool_info \<Rightarrow> ('p \<Rightarrow> address set option) \<Rightarrow> 'p pool_registration \<Rightarrow> 'p liquidity_index \<times> nat \<Rightarrow> 'p liquidity_index \<times> nat" where
  "build_pool info tracked reg s =
     (let (ix, unknown) = s
      in case (tracked (reg_key reg), pi_tokens info reg) of
           (Some needed, Some listed) \<Rightarrow>
             (let tokens = normalize_liquidity_tokens listed;
                  wanted = filter (\<lambda>t. t \<in> needed) tokens;
                  ix1 = ix\<lparr>pool_token_counts := (pool_token_counts ix)(reg_key reg \<mapsto> length tokens)\<rparr>
              in if length tokens < 2 then (ix, unknown)
                 else if wanted = [] \<or> \<not> tracks_balances (reg_metadata reg) then (ix1, unknown)
                 else (fold (\<lambda>token. push_target (reg_key reg) token (pool_source info reg token)) wanted ix1,
                       unknown + length (filter (\<lambda>token. pool_source info reg token = SourceUnknown) wanted)))
         | _ \<Rightarrow> (ix, unknown))"

record build_report =
  tracked_balances :: nat
  build_unknown :: nat

definition from_registry_with_scope ::
  "('p \<Rightarrow> string) \<Rightarrow> 'p pool_info \<Rightarrow> liquidity_scope \<Rightarrow> (address \<times> address \<times> 'p) list \<Rightarrow> 'p pool_registration list \<Rightarrow>
     'p liquidity_index \<times> build_report" where
  "from_registry_with_scope debug info scope refs registered =
     (let (ix, unknown) = fold (build_pool info (tracked_tokens_by_pool scope refs))
            (sort_key (\<lambda>reg. debug (reg_key reg)) registered) (empty_index, 0)
      in (ix, \<lparr>tracked_balances = li_len ix, build_unknown = unknown\<rparr>))"

end
