(* ===== verification/LiquidityProps.thy ===== *)
theory LiquidityProps
  imports LiquidityOps AmmGraphInv
begin

text \<open>
  The liquidity index refines a map from pool and token to source and balance. The invariant
  says how the reverse indices, the free list and the target slots fit together; adding and
  removing targets, reconciling pools, transfers and storage writes preserve it and act on the
  map alone.
\<close>

section \<open>Invariant\<close>

definition live_at :: "'p liquidity_index \<Rightarrow> nat \<Rightarrow> bool" where
  "live_at ix i \<longleftrightarrow> i < length (li_targets ix) \<and> tgt_active (li_targets ix ! i)"

definition held_by :: "liquidity_target \<Rightarrow> address \<Rightarrow> bool" where
  "held_by t holder \<longleftrightarrow> (\<exists>slot. tgt_source t = Erc20Balance holder slot)"

text \<open>The owner index is an argument, so that the invariant also describes the states between the
  removals of a pool's targets.\<close>

definition pools_ok :: "('p \<Rightarrow> nat list) \<Rightarrow> 'p liquidity_index \<Rightarrow> bool" where
  "pools_ok own ix \<longleftrightarrow>
     (\<forall>p. distinct (own p)) \<and>
     (\<forall>p q i. i \<in> set (own p) \<longrightarrow> i \<in> set (own q) \<longrightarrow> p = q) \<and>
     (\<forall>p i. i \<in> set (own p) \<longrightarrow> live_at ix i \<and> by_pool_token ix (p, tgt_token (li_targets ix ! i)) = Some i) \<and>
     (\<forall>p t i. by_pool_token ix (p, t) = Some i \<longrightarrow> i \<in> set (own p) \<and> tgt_token (li_targets ix ! i) = t)"

definition free_ok :: "'p liquidity_index \<Rightarrow> bool" where
  "free_ok ix \<longleftrightarrow> distinct (free_targets ix) \<and>
     (\<forall>i. i \<in> set (free_targets ix) \<longleftrightarrow> i < length (li_targets ix) \<and> \<not> tgt_active (li_targets ix ! i))"

definition holders_ok :: "'p liquidity_index \<Rightarrow> bool" where
  "holders_ok ix \<longleftrightarrow>
     (\<forall>token holder. distinct (indices_at (by_token_holder ix) (token, holder)) \<and>
        (\<forall>i. i \<in> set (indices_at (by_token_holder ix) (token, holder)) \<longleftrightarrow>
           live_at ix i \<and> tgt_token (li_targets ix ! i) = token \<and> held_by (li_targets ix ! i) holder))"

definition slots_ok :: "'p liquidity_index \<Rightarrow> bool" where
  "slots_ok ix \<longleftrightarrow>
     (\<forall>key. (\<forall>i \<in> set (indices_at (by_storage_slot ix) key). i < length (li_targets ix)) \<and>
        (\<forall>i. live_at ix i \<and> storage_slot (li_targets ix ! i) = Some key \<longrightarrow> i \<in> set (indices_at (by_storage_slot ix) key)))"

definition index_ok :: "('p \<Rightarrow> nat list) \<Rightarrow> 'p liquidity_index \<Rightarrow> bool" where
  "index_ok own ix \<longleftrightarrow> pools_ok own ix \<and> free_ok ix \<and> holders_ok ix \<and> slots_ok ix"

definition liquidity_inv :: "'p liquidity_index \<Rightarrow> bool" where
  "liquidity_inv ix \<longleftrightarrow> index_ok (indices_at (by_pool ix)) ix"

text \<open>The map the index stands for.\<close>

definition tracked :: "'p liquidity_index \<Rightarrow> 'p \<Rightarrow> address \<Rightarrow> (liquidity_source \<times> balance_state) option" where
  "tracked ix pool token =
     map_option (\<lambda>i. (tgt_source (li_targets ix ! i), tgt_balance (li_targets ix ! i))) (by_pool_token ix (pool, token))"

lemmas index_defs = index_ok_def pools_ok_def free_ok_def holders_ok_def slots_ok_def

lemma indices_at_push [simp]:
  "indices_at (push_index m k i) k' = (if k' = k then indices_at m k @ [i] else indices_at m k')"
  by (simp add: indices_at_def push_index_def split: option.split)

lemma indices_at_remove [simp]:
  "indices_at (remove_reverse_index m k i) k' =
     (if k' = k then filter (\<lambda>j. j \<noteq> i) (indices_at m k) else indices_at m k')"
  by (auto simp: indices_at_def remove_reverse_index_def Let_def split: option.split)

lemma indices_at_empty [simp]: "indices_at Map.empty k = []"
  by (simp add: indices_at_def)

lemma length_put_target [simp]: "i \<le> length ts \<Longrightarrow> length (put_target ts i t) = max (length ts) (Suc i)"
  by (auto simp: put_target_def)

lemma nth_put_target: "i \<le> length ts \<Longrightarrow> j < length ts \<or> j = i \<Longrightarrow> put_target ts i t ! j = (if j = i then t else ts ! j)"
  by (auto simp: put_target_def nth_append nth_list_update)

lemma liquidity_inv_empty: "liquidity_inv empty_index"
  by (simp add: liquidity_inv_def index_defs empty_index_def live_at_def)

lemma pool_token_live:
  assumes "index_ok own ix" and "by_pool_token ix (p, t) = Some i"
  shows "live_at ix i" "tgt_token (li_targets ix ! i) = t" "i \<in> set (own p)"
  using assms unfolding index_ok_def pools_ok_def by blast+

lemma balance_state_tracked:
  assumes "liquidity_inv ix"
  shows "balance_state_of ix pool token = (case tracked ix pool token of None \<Rightarrow> BalanceUnknown | Some (_, b) \<Rightarrow> b)"
  using pool_token_live(1) [OF assms [unfolded liquidity_inv_def]]
  by (auto simp: balance_state_of_def tracked_def live_at_def split: option.split)

section \<open>Adding a target\<close>

lemma fresh_slot:
  assumes "index_ok own ix"
  defines "i \<equiv> if free_targets ix = [] then length (li_targets ix) else last (free_targets ix)"
  shows "i \<le> length (li_targets ix)" "\<not> live_at ix i" "i < length (li_targets ix) \<Longrightarrow> free_targets ix \<noteq> []"
    and "set (butlast (free_targets ix)) = set (free_targets ix) - {i}"
proof -
  have f: "distinct (free_targets ix)" "\<And>i. i \<in> set (free_targets ix) \<longleftrightarrow> i < length (li_targets ix) \<and> \<not> tgt_active (li_targets ix ! i)"
    using assms by (simp_all add: index_defs)
  show "i \<le> length (li_targets ix)" "\<not> live_at ix i" using f(2) [of i] by (auto simp: i_def live_at_def split: if_splits)
  show "i < length (li_targets ix) \<Longrightarrow> free_targets ix \<noteq> []" by (auto simp: i_def)
  show "set (butlast (free_targets ix)) = set (free_targets ix) - {i}"
  proof (cases "free_targets ix" rule: rev_cases)
    case (snoc ys y)
    then show ?thesis using f(1) by (auto simp: i_def)
  qed (simp add: i_def)
qed

lemma push_target_ok:
  fixes ix :: "'p liquidity_index" and source :: liquidity_source and balance :: balance_state
  assumes ok: "index_ok own ix" and new: "by_pool_token ix (pool, token) = None"
  defines "i \<equiv> if free_targets ix = [] then length (li_targets ix) else last (free_targets ix)"
  defines "ix' \<equiv> push_target_with_balance pool token source balance ix"
  shows "index_ok (own(pool := own pool @ [i])) ix'"
    and "tracked ix' = (\<lambda>p t. if p = pool \<and> t = token then Some (source, balance) else tracked ix p t)"
proof -
  note f = fresh_slot [OF ok, folded i_def]
  define t where "t = \<lparr>tgt_token = token, tgt_source = source, tgt_balance = balance, tgt_active = True\<rparr>"
  have T: "li_targets ix' = put_target (li_targets ix) i t"
    by (simp add: ix'_def push_target_with_balance_def Let_def i_def t_def)
  have nth: "li_targets ix' ! j = (if j = i then t else li_targets ix ! j)" if "j < length (li_targets ix) \<or> j = i" for j
    unfolding T by (rule nth_put_target [OF f(1) that])
  have len: "length (li_targets ix') = max (length (li_targets ix)) (Suc i)" unfolding T using f(1) by simp
  have live: "live_at ix' j \<longleftrightarrow> j = i \<or> live_at ix j" for j
    using nth [of j] f(1,2) len by (auto simp: live_at_def t_def less_Suc_eq le_less)
  have at: "li_targets ix' ! j = (if j = i then t else li_targets ix ! j)" if "live_at ix' j" for j
    using nth [of j] that live [of j] by (auto simp: live_at_def)
  have old: "j \<noteq> i" "li_targets ix' ! j = li_targets ix ! j" if "live_at ix j" for j
    using that f(2) nth [of j] by (auto simp: live_at_def)
  have pt: "by_pool_token ix' = (by_pool_token ix)((pool, token) \<mapsto> i)"
    by (simp add: ix'_def push_target_with_balance_def Let_def i_def)
  have fr: "free_targets ix' = butlast (free_targets ix)"
    by (simp add: ix'_def push_target_with_balance_def Let_def)
  have P: "pools_ok (own(pool := own pool @ [i])) ix'"
  proof -
    have o: "pools_ok own ix" using ok by (simp add: index_ok_def)
    then have no: "i \<notin> set (own q)" for q using f(2) by (auto simp: pools_ok_def)
    have lv: "live_at ix j" "by_pool_token ix (q, tgt_token (li_targets ix ! j)) = Some j" if "j \<in> set (own q)" for q j
      using o that by (auto simp: pools_ok_def)
    have "live_at ix' j \<and> by_pool_token ix' (q, tgt_token (li_targets ix' ! j)) = Some j"
      if j: "j \<in> set ((own(pool := own pool @ [i])) q)" for q j
    proof (cases "j = i")
      case True
      then have "q = pool" using j no by (auto split: if_splits)
      then show ?thesis using True live at [of i] by (simp add: pt t_def)
    next
      case False
      then have jq: "j \<in> set (own q)" using j by (auto split: if_splits)
      then have "(q, tgt_token (li_targets ix ! j)) \<noteq> (pool, token)" using lv(2) [OF jq] new by auto
      then show ?thesis using lv [OF jq] live old by (auto simp: pt)
    qed
    moreover have "j \<in> set ((own(pool := own pool @ [i])) q) \<and> tgt_token (li_targets ix' ! j) = u"
      if "by_pool_token ix' (q, u) = Some j" for q u j
      using that pool_token_live [OF ok, of q u j] old [of j] at [of i] live [of i] by (auto simp: pt t_def split: if_splits)
    ultimately show ?thesis using o no unfolding pools_ok_def by (auto split: if_splits)
  qed
  have F: "free_ok ix'"
  proof -
    have o: "distinct (free_targets ix)" "\<And>j. j \<in> set (free_targets ix) \<longleftrightarrow> j < length (li_targets ix) \<and> \<not> tgt_active (li_targets ix ! j)"
      using ok by (simp_all add: index_defs)
    have "j \<in> set (butlast (free_targets ix)) \<longleftrightarrow> j < length (li_targets ix') \<and> \<not> tgt_active (li_targets ix' ! j)" for j
    proof (cases "j = i")
      case True
      then show ?thesis using nth [of i] by (simp add: f(4) t_def)
    next
      case False
      moreover have "j < length (li_targets ix') \<longleftrightarrow> j < length (li_targets ix)" using False f(1) by (auto simp: len)
      ultimately show ?thesis using nth [of j] o(2) [of j] by (auto simp: f(4))
    qed
    then show ?thesis using o(1) by (simp add: free_ok_def fr distinct_butlast)
  qed
  have H: "holders_ok ix'"
  proof -
    have o: "holders_ok ix" using ok by (simp add: index_ok_def)
    have bh: "indices_at (by_token_holder ix') (u, h) =
        (if u = token \<and> held_by t h then indices_at (by_token_holder ix) (u, h) @ [i] else indices_at (by_token_holder ix) (u, h))" for u h
      by (cases source) (auto simp: ix'_def push_target_with_balance_def Let_def i_def held_by_def t_def)
    have no: "i \<notin> set (indices_at (by_token_holder ix) (u, h))" for u h using o f(2) by (auto simp: holders_ok_def)
    have "j \<in> set (indices_at (by_token_holder ix') (u, h)) \<longleftrightarrow>
        live_at ix' j \<and> tgt_token (li_targets ix' ! j) = u \<and> held_by (li_targets ix' ! j) h" for j u h
      using o old [of j] at [of i] live [of j] no [of u h] by (auto simp: bh holders_ok_def t_def split: if_splits)
    then show ?thesis using o no by (auto simp: holders_ok_def bh)
  qed
  have S: "slots_ok ix'"
  proof -
    have o: "slots_ok ix" using ok by (simp add: index_ok_def)
    have bs: "indices_at (by_storage_slot ix') key =
        (if storage_slot t = Some key then indices_at (by_storage_slot ix) key @ [i] else indices_at (by_storage_slot ix) key)" for key
      by (cases "storage_slot t") (auto simp: ix'_def push_target_with_balance_def Let_def i_def t_def)
    show ?thesis unfolding slots_ok_def
    proof (intro allI conjI ballI impI)
      fix key j
      assume "j \<in> set (indices_at (by_storage_slot ix') key)"
      then have "j = i \<or> j \<in> set (indices_at (by_storage_slot ix) key)" by (auto simp: bs split: if_splits)
      then have "j = i \<or> j < length (li_targets ix)" using o unfolding slots_ok_def by blast
      then show "j < length (li_targets ix')" by (auto simp: len)
    next
      fix key j
      assume a: "live_at ix' j \<and> storage_slot (li_targets ix' ! j) = Some key"
      show "j \<in> set (indices_at (by_storage_slot ix') key)"
      proof (cases "j = i")
        case True
        then show ?thesis using a at [of i] by (simp add: bs)
      next
        case False
        then have j: "live_at ix j" using a live by simp
        then have "storage_slot (li_targets ix ! j) = Some key" using a old(2) by simp
        then have "j \<in> set (indices_at (by_storage_slot ix) key)" using o j unfolding slots_ok_def by blast
        then show ?thesis by (simp add: bs)
      qed
    qed
  qed
  show "index_ok (own(pool := own pool @ [i])) ix'" using P F H S by (simp add: index_ok_def)
  show "tracked ix' = (\<lambda>p u. if p = pool \<and> u = token then Some (source, balance) else tracked ix p u)"
    using pool_token_live(1) [OF ok] old(2) at [of i] live [of i]
    by (intro ext) (auto simp: tracked_def pt t_def map_option_case split: option.split)
qed

lemma push_target_inv:
  assumes "liquidity_inv ix" and "by_pool_token ix (pool, token) = None"
  shows "liquidity_inv (push_target_with_balance pool token source balance ix)"
proof -
  have "indices_at (by_pool (push_target_with_balance pool token source balance ix)) =
      (indices_at (by_pool ix))(pool := indices_at (by_pool ix) pool @
        [if free_targets ix = [] then length (li_targets ix) else last (free_targets ix)])"
    by (rule ext) (simp add: push_target_with_balance_def Let_def)
  then show ?thesis using push_target_ok(1) [OF assms(1) [unfolded liquidity_inv_def] assms(2)] by (simp add: liquidity_inv_def)
qed

section \<open>Removing the targets of a pool\<close>

lemma remove_target_ok:
  fixes ix :: "'p liquidity_index"
  assumes ok: "index_ok (own(pool := i # js)) ix"
  defines "ix' \<equiv> remove_target pool i ix"
  shows "index_ok (own(pool := js)) ix'" and "p \<noteq> pool \<Longrightarrow> tracked ix' p = tracked ix p"
proof -
  define t where "t = li_targets ix ! i"
  have o: "pools_ok (own(pool := i # js)) ix" "free_ok ix" "holders_ok ix" "slots_ok ix" using ok by (simp_all add: index_ok_def)
  have li: "live_at ix i" and pti: "by_pool_token ix (pool, tgt_token t) = Some i"
    using o(1) unfolding pools_ok_def t_def by (metis fun_upd_same list.set_intros(1))+
  have T: "li_targets ix' = (li_targets ix)[i := t\<lparr>tgt_active := False\<rparr>]"
    using li by (simp add: ix'_def remove_target_def Let_def live_at_def t_def)
  have len: "length (li_targets ix') = length (li_targets ix)" by (simp add: T)
  have at: "li_targets ix' ! j = li_targets ix ! j" if "j \<noteq> i" for j using that by (simp add: T)
  have ati: "li_targets ix' ! i = t\<lparr>tgt_active := False\<rparr>" using li by (simp add: T live_at_def)
  have live: "live_at ix' j \<longleftrightarrow> j \<noteq> i \<and> live_at ix j" for j
    using at [of j] ati by (cases "j = i") (auto simp: live_at_def len)
  have pt: "by_pool_token ix' = (by_pool_token ix)((pool, tgt_token t) := None)"
    using li by (simp add: ix'_def remove_target_def Let_def live_at_def t_def)
  have uniq: "(q, u) = (pool, tgt_token t)" if "by_pool_token ix (q, u) = Some i" for q u
    using that o(1) unfolding pools_ok_def t_def by (metis fun_upd_same list.set_intros(1))
  have P: "pools_ok (own(pool := js)) ix'"
  proof -
    have d: "i \<notin> set js" "distinct js" using o(1) unfolding pools_ok_def by (metis fun_upd_same distinct.simps(2))+
    have own: "j \<in> set ((own(pool := js)) q) \<Longrightarrow> j \<in> set ((own(pool := i # js)) q) \<and> j \<noteq> i" for j q
      using d o(1) unfolding pools_ok_def by (metis fun_upd_apply list.set_intros)
    have "live_at ix' j \<and> by_pool_token ix' (q, tgt_token (li_targets ix' ! j)) = Some j" if "j \<in> set ((own(pool := js)) q)" for q j
    proof -
      have j: "j \<noteq> i" "live_at ix j" "by_pool_token ix (q, tgt_token (li_targets ix ! j)) = Some j"
        using own [OF that] o(1) unfolding pools_ok_def by blast+
      then have "(q, tgt_token (li_targets ix ! j)) \<noteq> (pool, tgt_token t)" using pti by auto
      then show ?thesis using j live at by (auto simp: pt)
    qed
    moreover have "j \<in> set ((own(pool := js)) q) \<and> tgt_token (li_targets ix' ! j) = u" if b: "by_pool_token ix' (q, u) = Some j" for q u j
    proof -
      have b': "by_pool_token ix (q, u) = Some j" "(q, u) \<noteq> (pool, tgt_token t)" using b by (auto simp: pt split: if_splits)
      then have "j \<noteq> i" using uniq by blast
      moreover have "j \<in> set ((own(pool := i # js)) q)" "tgt_token (li_targets ix ! j) = u"
        using b'(1) o(1) unfolding pools_ok_def by blast+
      ultimately show ?thesis using at by (auto split: if_splits)
    qed
    moreover have "distinct ((own(pool := js)) q)" for q
      using d(2) o(1) unfolding pools_ok_def by (metis fun_upd_apply)
    moreover have "q = r" if "j \<in> set ((own(pool := js)) q)" "j \<in> set ((own(pool := js)) r)" for q r j
      using own [OF that(1)] own [OF that(2)] o(1) unfolding pools_ok_def by blast
    ultimately show ?thesis unfolding pools_ok_def by blast
  qed
  have F: "free_ok ix'"
  proof -
    have fr: "free_targets ix' = free_targets ix @ [i]"
      using li by (simp add: ix'_def remove_target_def Let_def live_at_def)
    have "j \<in> set (free_targets ix) \<or> j = i \<longleftrightarrow> j < length (li_targets ix') \<and> \<not> tgt_active (li_targets ix' ! j)" for j
      using o(2) at [of j] ati li by (cases "j = i") (auto simp: free_ok_def len live_at_def)
    moreover have "i \<notin> set (free_targets ix)" using o(2) li by (auto simp: free_ok_def live_at_def)
    ultimately show ?thesis using o(2) by (auto simp: free_ok_def fr)
  qed
  have H: "holders_ok ix'"
  proof -
    have bh: "indices_at (by_token_holder ix') (u, h) = filter (\<lambda>j. j \<noteq> i) (indices_at (by_token_holder ix) (u, h))" for u h
    proof (cases "u = tgt_token t \<and> held_by t h")
      case True
      then show ?thesis using li by (auto simp: ix'_def remove_target_def Let_def live_at_def t_def [symmetric] held_by_def)
    next
      case False
      then have "i \<notin> set (indices_at (by_token_holder ix) (u, h))" using o(3) by (auto simp: holders_ok_def t_def)
      then have "filter (\<lambda>j. j \<noteq> i) (indices_at (by_token_holder ix) (u, h)) = indices_at (by_token_holder ix) (u, h)"
        by (auto intro: filter_True)
      then show ?thesis using False li
        by (cases "tgt_source t") (auto simp: ix'_def remove_target_def Let_def live_at_def t_def [symmetric] held_by_def)
    qed
    show ?thesis using o(3) live at unfolding holders_ok_def bh by auto
  qed
  have S: "slots_ok ix'"
  proof -
    have bs: "set (indices_at (by_storage_slot ix') key) \<subseteq> set (indices_at (by_storage_slot ix) key)"
        "j \<in> set (indices_at (by_storage_slot ix) key) \<Longrightarrow> j \<noteq> i \<Longrightarrow> j \<in> set (indices_at (by_storage_slot ix') key)" for key j
      using li by (auto simp: ix'_def remove_target_def Let_def live_at_def t_def [symmetric] split: option.splits)
    show ?thesis unfolding slots_ok_def
    proof (intro allI conjI ballI impI)
      fix key j
      assume "j \<in> set (indices_at (by_storage_slot ix') key)"
      then show "j < length (li_targets ix')" using bs(1) o(4) unfolding slots_ok_def len by blast
    next
      fix key j
      assume "live_at ix' j \<and> storage_slot (li_targets ix' ! j) = Some key"
      then have "j \<noteq> i" "live_at ix j" "storage_slot (li_targets ix ! j) = Some key" using live at by auto
      then show "j \<in> set (indices_at (by_storage_slot ix') key)" using bs(2) o(4) unfolding slots_ok_def by blast
    qed
  qed
  show "index_ok (own(pool := js)) ix'" using P F H S by (simp add: index_ok_def)
  show "tracked ix' p = tracked ix p" if "p \<noteq> pool"
  proof
    fix u
    have "j \<noteq> i" if "by_pool_token ix (p, u) = Some j" for j using uniq that \<open>p \<noteq> pool\<close> by blast
    then show "tracked ix' p u = tracked ix p u"
      using \<open>p \<noteq> pool\<close> at by (cases "by_pool_token ix (p, u)") (auto simp: tracked_def pt)
  qed
qed

lemma remove_targets_ok:
  assumes "index_ok (own(pool := js)) ix"
  shows "index_ok (own(pool := [])) (fold (remove_target pool) js ix) \<and>
    (\<forall>p. p \<noteq> pool \<longrightarrow> tracked (fold (remove_target pool) js ix) p = tracked ix p)"
  using assms
proof (induction js arbitrary: ix)
  case (Cons i js)
  show ?case using Cons.IH [OF remove_target_ok(1) [OF Cons.prems]] remove_target_ok(2) [OF Cons.prems] by simp
qed simp

lemma by_pool_remove [simp]: "by_pool (fold (remove_target pool) js ix) = by_pool ix"
  by (induction js arbitrary: ix) (simp_all add: remove_target_def Let_def)

lemma index_ok_counts [simp]: "index_ok own (ix\<lparr>pool_token_counts := c\<rparr>) = index_ok own ix"
  "index_ok own (ix\<lparr>by_pool := b\<rparr>) = index_ok own ix"
  "tracked (ix\<lparr>pool_token_counts := c\<rparr>) = tracked ix" "tracked (ix\<lparr>by_pool := b\<rparr>) = tracked ix"
  by (simp_all add: index_defs live_at_def fun_eq_iff tracked_def)

lemma remove_pool_targets_ok:
  assumes "liquidity_inv ix"
  shows "liquidity_inv (remove_pool_targets pool ix)"
    and "tracked (remove_pool_targets pool ix) = (\<lambda>p t. if p = pool then None else tracked ix p t)"
proof -
  let ?own = "indices_at (by_pool ix)"
  define ix1 where "ix1 = fold (remove_target pool) (?own pool) (ix\<lparr>by_pool := (by_pool ix)(pool := None)\<rparr>)"
  have r: "tracked (remove_pool_targets pool ix) = tracked ix1 \<and> indices_at (by_pool (remove_pool_targets pool ix)) = ?own(pool := []) \<and>
      index_ok own (remove_pool_targets pool ix) = index_ok own ix1" for own
  proof (cases "by_pool ix pool")
    case None
    then show ?thesis by (auto simp: remove_pool_targets_def Let_def ix1_def indices_at_def fun_eq_iff)
  next
    case (Some js)
    then show ?thesis by (auto simp: remove_pool_targets_def Let_def ix1_def indices_at_def fun_eq_iff)
  qed
  have "index_ok (?own(pool := ?own pool)) (ix\<lparr>by_pool := (by_pool ix)(pool := None)\<rparr>)"
    using assms by (simp add: liquidity_inv_def)
  from remove_targets_ok [OF this] have k: "index_ok (?own(pool := [])) ix1" "\<forall>p. p \<noteq> pool \<longrightarrow> tracked ix1 p = tracked ix p"
    by (simp_all add: ix1_def)
  show "liquidity_inv (remove_pool_targets pool ix)" using r k(1) by (simp add: liquidity_inv_def)
  have "by_pool_token ix1 (pool, t) = None" for t
    using pool_token_live(3) [OF k(1), of pool t] by (cases "by_pool_token ix1 (pool, t)") auto
  then have "tracked ix1 pool t = None" for t by (simp add: tracked_def)
  then show "tracked (remove_pool_targets pool ix) = (\<lambda>p t. if p = pool then None else tracked ix p t)"
    using r k(2) by (auto simp: fun_eq_iff)
qed

section \<open>Reconciling\<close>

lemma tracked_None: "tracked ix p t = None \<longleftrightarrow> by_pool_token ix (p, t) = None"
  by (simp add: tracked_def)

text \<open>Adding a list of targets with distinct new tokens.\<close>

lemma push_targets_ok:
  fixes balance :: "address \<Rightarrow> liquidity_source \<Rightarrow> balance_state"
  assumes "liquidity_inv ix" and "distinct (map fst ts)" and "\<forall>t \<in> fst ` set ts. tracked ix pool t = None"
  defines "ix' \<equiv> fold (\<lambda>(token, source). push_target_with_balance pool token source (balance token source)) ts ix"
  shows "liquidity_inv ix' \<and> tracked ix' = (\<lambda>p t. if p = pool \<and> t \<in> fst ` set ts
      then map_option (\<lambda>source. (source, balance t source)) (map_of ts t) else tracked ix p t)"
  using assms(1-3) unfolding ix'_def
proof (induction ts arbitrary: ix)
  case (Cons x ts)
  obtain token source where x: "x = (token, source)" by fastforce
  let ?ix = "push_target_with_balance pool token source (balance token source) ix"
  have n: "by_pool_token ix (pool, token) = None" using Cons.prems(3) x by (simp add: tracked_None)
  note inv = push_target_inv [OF Cons.prems(1) n]
  note tr = push_target_ok(2) [OF Cons.prems(1) [unfolded liquidity_inv_def] n, of source "balance token source"]
  have "liquidity_inv ?ix" "distinct (map fst ts)" "\<forall>t \<in> fst ` set ts. tracked ?ix pool t = None"
    using inv Cons.prems x by (auto simp: tr)
  from Cons.IH [OF this] show ?case using Cons.prems(2) x by (auto simp: tr fun_eq_iff)
qed simp

text \<open>What a pool's targets become, as a function of what they were.\<close>

definition reconciled ::
  "'p pool_info \<Rightarrow> ('p \<Rightarrow> 'p pool_registration option) \<Rightarrow> ('g, 'p) amm_graph \<Rightarrow> liquidity_scope \<Rightarrow> 'p \<Rightarrow>
     (address \<rightharpoonup> liquidity_source \<times> balance_state) \<Rightarrow> (address \<rightharpoonup> liquidity_source \<times> balance_state)" where
  "reconciled info registered g scope pool old token =
     (case registered pool of
        None \<Rightarrow> None
      | Some reg \<Rightarrow>
          (case map_of (desired_targets info reg (tracked_tokens_for_pool g pool (scope = ParallelEdgeOutputs))) token of
             None \<Rightarrow> None
           | Some source \<Rightarrow>
               (let source' = (case old token of None \<Rightarrow> source | Some (psource, _) \<Rightarrow> preserve_discovered_source psource source)
                in Some (source', kept_balance old token source'))))"

lemma preserve_same: "preserve_discovered_source a a = a"
proof (cases a)
  case (Erc20Balance holder slot)
  then show ?thesis by (cases slot) simp_all
qed simp_all

lemma preserve_cases: "preserve_discovered_source a b = a \<or> preserve_discovered_source a b = b"
  by (cases "(a, b)" rule: preserve_discovered_source.cases) auto

lemma preserve_idem:
  "preserve_discovered_source (preserve_discovered_source a b) b = preserve_discovered_source a b"
  using preserve_cases [of a b] by (auto simp: preserve_same)

lemma reconciled_idem:
  "reconciled info registered g scope pool (reconciled info registered g scope pool old) = reconciled info registered g scope pool old"
  by (rule ext) (auto simp: reconciled_def Let_def kept_balance_def preserve_idem preserve_same split: option.split)

lemma previous_targets_tracked:
  assumes "liquidity_inv ix"
  shows "previous_targets ix pool = tracked ix pool"
proof
  fix token
  let ?js = "indices_at (by_pool ix) pool" and ?T = "li_targets ix"
  have o: "pools_ok (indices_at (by_pool ix)) ix" using assms by (simp add: liquidity_inv_def index_ok_def)
  then have lv: "live_at ix i" "by_pool_token ix (pool, tgt_token (?T ! i)) = Some i" if "i \<in> set ?js" for i
    using that unfolding pools_ok_def by blast+
  let ?e = "\<lambda>i. (tgt_token (?T ! i), tgt_source (?T ! i), tgt_balance (?T ! i))"
  have "filter tgt_active (List.map_filter (\<lambda>i. if i < length ?T then Some (?T ! i) else None) js) = map ((!) ?T) js"
    if "set js \<subseteq> set ?js" for js
    using that lv(1) by (induction js) (auto simp: List.map_filter_simps live_at_def)
  then have p: "previous_targets ix pool = map_of (rev (map ?e ?js))" by (simp add: previous_targets_def comp_def)
  have d: "distinct (map fst (rev (map ?e ?js)))"
  proof -
    have "inj_on (\<lambda>i. tgt_token (?T ! i)) (set ?js)" by (rule inj_onI) (metis lv(2) option.inject)
    moreover have "distinct ?js" using o unfolding pools_ok_def by blast
    ultimately show ?thesis by (simp add: distinct_map comp_def rev_map [symmetric] del: rev_map)
  qed
  have m: "previous_targets ix pool t = Some v \<longleftrightarrow> (\<exists>i \<in> set ?js. tgt_token (?T ! i) = t \<and> v = (tgt_source (?T ! i), tgt_balance (?T ! i)))" for t v
    unfolding p map_of_eq_Some_iff [OF d] by auto
  show "previous_targets ix pool token = tracked ix pool token"
  proof (cases "by_pool_token ix (pool, token)")
    case None
    then have "\<not> (\<exists>i \<in> set ?js. tgt_token (?T ! i) = token)" using lv(2) by force
    then have "previous_targets ix pool token \<noteq> Some v" for v using m by blast
    then show ?thesis using None by (cases "previous_targets ix pool token") (auto simp: tracked_def)
  next
    case (Some i)
    then have "i \<in> set ?js" "tgt_token (?T ! i) = token"
      using pool_token_live [OF assms [unfolded liquidity_inv_def] Some] by simp_all
    then have "previous_targets ix pool token = Some (tgt_source (?T ! i), tgt_balance (?T ! i))" using m by blast
    then show ?thesis using Some by (simp add: tracked_def)
  qed
qed

lemma distinct_desired: "distinct (map fst (desired_targets info reg needed))"
  by (auto simp: desired_targets_def normalize_liquidity_tokens_def comp_def sort_remdups_adj_distinct split: option.split)

lemma desired_empty: "desired_targets info reg {} = []"
  by (auto simp: desired_targets_def split: option.split)

lemma map_of_next_targets:
  "map_of (next_targets previous ds) t =
     map_option (\<lambda>source. case previous t of None \<Rightarrow> source | Some (psource, _) \<Rightarrow> preserve_discovered_source psource source) (map_of ds t)"
  by (induction ds) (auto simp: next_targets_def split: option.split)

lemma fst_next_targets: "map fst (next_targets previous ds) = map fst ds"
  by (induction ds) (auto simp: next_targets_def)

lemma reconcile_pool_ok:
  assumes inv: "liquidity_inv ix" and r: "reconcile_pool info registered g scope pool (ix, report) = (ix', report')"
  shows "liquidity_inv ix' \<and> tracked ix' = (tracked ix)(pool := reconciled info registered g scope pool (tracked ix pool))"
proof -
  define needed where "needed = tracked_tokens_for_pool g pool (scope = ParallelEdgeOutputs)"
  define base where "base = (case registered pool of None \<Rightarrow> [] | Some reg \<Rightarrow> (if needed = {} then [] else desired_targets info reg needed))"
  define desired where "desired = next_targets (tracked ix pool) base"
  define ix1 where "ix1 = remove_pool_targets pool ix"
  define n where "n = (case registered pool of None \<Rightarrow> 0
      | Some reg \<Rightarrow> (case pi_tokens info reg of None \<Rightarrow> 0 | Some ts \<Rightarrow> length (normalize_liquidity_tokens ts)))"
  define c where "c = (if 2 \<le> n \<and> desired \<noteq> [] then (pool_token_counts ix1)(pool \<mapsto> n) else pool_token_counts ix1)"
  have "(if 2 \<le> n \<and> desired \<noteq> [] then ix1\<lparr>pool_token_counts := (pool_token_counts ix1)(pool \<mapsto> n)\<rparr> else ix1) =
      ix1\<lparr>pool_token_counts := c\<rparr>" by (simp add: c_def)
  then have e: "ix' = fold (\<lambda>(token, source). push_target_with_balance pool token source (kept_balance (tracked ix pool) token source))
      desired (ix1\<lparr>pool_token_counts := c\<rparr>)"
    using r unfolding reconcile_pool_def Let_def previous_targets_tracked [OF inv] prod.case
      needed_def [symmetric] base_def [symmetric] desired_def [symmetric] ix1_def [symmetric] n_def [symmetric] by simp
  note rm = remove_pool_targets_ok [OF inv, of pool, folded ix1_def]
  have li: "liquidity_inv (ix1\<lparr>pool_token_counts := c\<rparr>)" using rm(1) by (simp add: liquidity_inv_def)
  have d: "distinct (map fst desired)" by (auto simp: desired_def fst_next_targets base_def distinct_desired split: option.split)
  have "\<forall>t \<in> fst ` set desired. tracked (ix1\<lparr>pool_token_counts := c\<rparr>) pool t = None" by (simp add: rm(2))
  note p = push_targets_ok [OF li d this, of "kept_balance (tracked ix pool)", folded e]
  have b: "map_of base t = (case registered pool of None \<Rightarrow> None | Some reg \<Rightarrow> map_of (desired_targets info reg needed) t)" for t
    by (auto simp: base_def desired_empty split: option.split)
  have rc: "(if t \<in> fst ` set desired then map_option (\<lambda>source. (source, kept_balance (tracked ix pool) t source)) (map_of desired t)
      else None) = reconciled info registered g scope pool (tracked ix pool) t" for t
  proof -
    have i: "(if t \<in> fst ` set desired then map_option f (map_of desired t) else None) = map_option f (map_of desired t)"
      for f :: "liquidity_source \<Rightarrow> liquidity_source \<times> balance_state"
      by (simp add: map_of_eq_None_iff)
    have m: "map_of desired t = map_option (\<lambda>source. case tracked ix pool t of None \<Rightarrow> source
        | Some (psource, _) \<Rightarrow> preserve_discovered_source psource source) (map_of base t)"
      unfolding desired_def by (rule map_of_next_targets)
    show ?thesis unfolding i unfolding m b reconciled_def needed_def [symmetric]
      by (cases "registered pool") (simp_all add: Let_def option.map_comp comp_def map_option_case split: option.split)
  qed
  show ?thesis
  proof (intro conjI ext)
    fix q t
    show "tracked ix' q t = ((tracked ix)(pool := reconciled info registered g scope pool (tracked ix pool))) q t"
      using rc [of t] unfolding conjunct2 [OF p] by (simp add: rm(2) split: if_splits)
  qed (use p in blast)
qed

lemma reconcile_fold_ok:
  assumes "liquidity_inv ix" and "fold (reconcile_pool info registered g scope) pools (ix, report) = (ix', report')"
  shows "liquidity_inv ix' \<and> tracked ix' = (\<lambda>p. if p \<in> set pools then reconciled info registered g scope p (tracked ix p) else tracked ix p)"
  using assms
proof (induction pools arbitrary: ix report)
  case (Cons pool pools)
  obtain ix1 report1 where r: "reconcile_pool info registered g scope pool (ix, report) = (ix1, report1)" by fastforce
  note k = reconcile_pool_ok [OF Cons.prems(1) r]
  have "liquidity_inv ix1" "fold (reconcile_pool info registered g scope) pools (ix1, report1) = (ix', report')"
    using k Cons.prems(2) r by simp_all
  note ih = Cons.IH [OF this]
  have "tracked ix' p = (if p \<in> set (pool # pools) then reconciled info registered g scope p (tracked ix p) else tracked ix p)" for p
    using ih k by (simp add: reconciled_idem)
  then show ?case using ih by blast
qed simp

section \<open>Changing balances\<close>

text \<open>Changes of balances alone keep the invariant.\<close>

definition same_shape :: "liquidity_target list \<Rightarrow> liquidity_target list \<Rightarrow> bool" where
  "same_shape ts ts' \<longleftrightarrow> length ts' = length ts \<and>
     (\<forall>i < length ts. tgt_token (ts' ! i) = tgt_token (ts ! i) \<and> tgt_source (ts' ! i) = tgt_source (ts ! i) \<and>
        tgt_active (ts' ! i) = tgt_active (ts ! i))"

lemma same_shape_refl [simp]: "same_shape ts ts"
  by (simp add: same_shape_def)

lemma same_shape_trans: "same_shape a b \<Longrightarrow> same_shape b c \<Longrightarrow> same_shape a c"
  by (auto simp: same_shape_def)

lemma same_shape_update:
  assumes "i < length ts"
  shows "same_shape ts (ts[i := (ts ! i)\<lparr>tgt_balance := b\<rparr>])"
  using assms by (auto simp: same_shape_def nth_list_update)

lemma same_shape_inv:
  assumes "same_shape (li_targets ix) ts" and "liquidity_inv ix"
  shows "liquidity_inv (ix\<lparr>li_targets := ts\<rparr>)"
proof -
  have live: "live_at (ix\<lparr>li_targets := ts\<rparr>) i = live_at ix i" for i using assms(1) by (auto simp: same_shape_def live_at_def)
  have f: "tgt_token (ts ! i) = tgt_token (li_targets ix ! i)" "held_by (ts ! i) h = held_by (li_targets ix ! i) h"
      "storage_slot (ts ! i) = storage_slot (li_targets ix ! i)" if "live_at ix i" for i h
  proof -
    have e: "tgt_token (ts ! i) = tgt_token (li_targets ix ! i)" "tgt_source (ts ! i) = tgt_source (li_targets ix ! i)"
      using assms(1) that by (auto simp: same_shape_def live_at_def)
    show "tgt_token (ts ! i) = tgt_token (li_targets ix ! i)" "held_by (ts ! i) h = held_by (li_targets ix ! i) h"
      "storage_slot (ts ! i) = storage_slot (li_targets ix ! i)"
      unfolding held_by_def storage_slot_def e by (rule refl)+
  qed
  have o: "pools_ok (indices_at (by_pool ix)) ix" "free_ok ix" "holders_ok ix" "slots_ok ix"
    using assms(2) by (simp_all add: liquidity_inv_def index_ok_def)
  have "pools_ok (indices_at (by_pool ix)) (ix\<lparr>li_targets := ts\<rparr>)"
    using o(1) f(1) unfolding pools_ok_def live by simp metis
  moreover have "free_ok (ix\<lparr>li_targets := ts\<rparr>)" using o(2) assms(1) by (auto simp: free_ok_def same_shape_def)
  moreover have "holders_ok (ix\<lparr>li_targets := ts\<rparr>)"
    using o(3) f(1,2) unfolding holders_ok_def live by auto
  moreover have "slots_ok (ix\<lparr>li_targets := ts\<rparr>)"
    using o(4) f(3) assms(1) unfolding slots_ok_def live same_shape_def by auto
  ultimately show ?thesis by (simp add: liquidity_inv_def index_ok_def)
qed

lemma same_shape_tracked:
  assumes "same_shape (li_targets ix) ts" and "liquidity_inv ix"
  shows "tracked (ix\<lparr>li_targets := ts\<rparr>) p t =
    map_option (\<lambda>i. (tgt_source (li_targets ix ! i), tgt_balance (ts ! i))) (by_pool_token ix (p, t))"
  using assms pool_token_live(1) [OF assms(2) [unfolded liquidity_inv_def], of p t]
  by (cases "by_pool_token ix (p, t)") (auto simp: tracked_def same_shape_def live_at_def)

section \<open>Transfers\<close>

definition settle_balance ::
  "(slot_delta \<Rightarrow> u256 \<Rightarrow> u256) \<Rightarrow> state_diff \<Rightarrow> touched_target \<Rightarrow> balance_state \<Rightarrow> balance_state" where
  "settle_balance apply_delta diff c b =
     (case fresh b of
        Some current \<Rightarrow>
          if sd_has_skipped diff \<and> (tc_address c, tc_slot c) \<in> set (sd_skipped diff) then BalanceStale
          else BalanceFresh (apply_delta (tc_delta c) current)
      | None \<Rightarrow> BalanceStale)"

lemma settle_touched_ok:
  assumes "\<forall>c \<in> set cs. tc_index c < length (li_targets ix)"
  shows "\<exists>report' ts. settle_touched apply_delta diff cs ix report = Some (report', ix\<lparr>li_targets := ts\<rparr>) \<and>
    same_shape (li_targets ix) ts \<and>
    (\<forall>i < length (li_targets ix). tgt_balance (ts ! i) =
       fold (settle_balance apply_delta diff) (filter (\<lambda>c. tc_index c = i) cs) (tgt_balance (li_targets ix ! i)))"
  using assms
proof (induction cs arbitrary: ix report)
  case Nil
  then show ?case by (intro exI [of _ report] exI [of _ "li_targets ix"]) simp
next
  case (Cons c cs)
  let ?i = "tc_index c" and ?T = "li_targets ix"
  let ?b = "settle_balance apply_delta diff c (tgt_balance (?T ! ?i))"
  define ix1 where "ix1 = ix\<lparr>li_targets := ?T[?i := (?T ! ?i)\<lparr>tgt_balance := ?b\<rparr>]\<rparr>"
  have i: "?i < length ?T" using Cons.prems by simp
  obtain report1 where s: "settle_touched apply_delta diff (c # cs) ix report = settle_touched apply_delta diff cs ix1 report1"
    using i by (simp add: Let_def ix1_def settle_balance_def)
  have "\<forall>c \<in> set cs. tc_index c < length (li_targets ix1)" using Cons.prems by (simp add: ix1_def)
  from Cons.IH [OF this, of report1] obtain report' ts where
    r: "settle_touched apply_delta diff cs ix1 report1 = Some (report', ix1\<lparr>li_targets := ts\<rparr>)" "same_shape (li_targets ix1) ts"
      "\<forall>i < length (li_targets ix1). tgt_balance (ts ! i) =
        fold (settle_balance apply_delta diff) (filter (\<lambda>c. tc_index c = i) cs) (tgt_balance (li_targets ix1 ! i))" by blast
  have "same_shape ?T ts" using same_shape_trans [OF same_shape_update [OF i] r(2) [unfolded ix1_def, simplified]] .
  moreover have "tgt_balance (ts ! j) = fold (settle_balance apply_delta diff) (filter (\<lambda>c. tc_index c = j) (c # cs)) (tgt_balance (?T ! j))"
    if "j < length ?T" for j
    using r(3) that i by (auto simp: ix1_def nth_list_update)
  ultimately show ?case using s r(1) by (auto simp: ix1_def)
qed

lemma collect_touched_ok:
  assumes "\<forall>i \<in> set js. i < length ts" and "distinct js"
  shows "\<exists>updates touched. collect_touched ts token delta js pushed = Some (updates, touched) \<and>
    (\<forall>c \<in> set touched. tc_index c < length ts) \<and> (pushed = {} \<longrightarrow> touched \<noteq> [] \<longrightarrow> updates \<noteq> []) \<and>
    (\<forall>i. filter (\<lambda>c. tc_index c = i) touched =
       (case tgt_source (ts ! i) of
          Erc20Balance holder (Some slot) \<Rightarrow>
            if i \<in> set js then [\<lparr>tc_index = i, tc_address = token, tc_slot = slot, tc_delta = delta\<rparr>] else []
        | _ \<Rightarrow> []))"
  using assms
proof (induction js arbitrary: pushed)
  case Nil
  then show ?case by (auto split: liquidity_source.split option.split)
next
  case (Cons k js)
  show ?case
  proof (cases "\<exists>holder slot. tgt_source (ts ! k) = Erc20Balance holder (Some slot)")
    case True
    then obtain holder slot where k: "tgt_source (ts ! k) = Erc20Balance holder (Some slot)" by blast
    obtain updates touched where ih: "collect_touched ts token delta js (insert slot pushed) = Some (updates, touched)"
        "\<forall>c \<in> set touched. tc_index c < length ts"
        "\<forall>i. filter (\<lambda>c. tc_index c = i) touched = (case tgt_source (ts ! i) of Erc20Balance holder (Some slot) \<Rightarrow>
            if i \<in> set js then [\<lparr>tc_index = i, tc_address = token, tc_slot = slot, tc_delta = delta\<rparr>] else [] | _ \<Rightarrow> [])"
      using Cons.IH [of "insert slot pushed"] Cons.prems by auto
    show ?thesis using ih k Cons.prems
      by (auto split: liquidity_source.splits option.splits)
  next
    case False
    then have c: "collect_touched ts token delta (k # js) pushed = collect_touched ts token delta js pushed"
      using Cons.prems by (auto split: liquidity_source.splits option.splits)
    obtain updates touched where ih: "collect_touched ts token delta js pushed = Some (updates, touched)"
        "\<forall>c \<in> set touched. tc_index c < length ts" "pushed = {} \<longrightarrow> touched \<noteq> [] \<longrightarrow> updates \<noteq> []"
        "\<forall>i. filter (\<lambda>c. tc_index c = i) touched = (case tgt_source (ts ! i) of Erc20Balance holder (Some slot) \<Rightarrow>
            if i \<in> set js then [\<lparr>tc_index = i, tc_address = token, tc_slot = slot, tc_delta = delta\<rparr>] else [] | _ \<Rightarrow> [])"
      using Cons.IH [of pushed] Cons.prems by auto
    show ?thesis unfolding c using ih False by (auto split: liquidity_source.splits option.splits)
  qed
qed

text \<open>The effect of a transfer on the balance of one source.\<close>

definition settle_side ::
  "(slot_delta \<Rightarrow> u256 \<Rightarrow> u256) \<Rightarrow> state_diff \<Rightarrow> address \<Rightarrow> address \<Rightarrow> slot_delta \<Rightarrow> address \<Rightarrow> liquidity_source \<Rightarrow>
     balance_state \<Rightarrow> balance_state" where
  "settle_side apply_delta diff moved party delta token source b =
     (case source of
        Erc20Balance holder (Some slot) \<Rightarrow>
          (if token = moved \<and> holder = party \<and> party \<noteq> 0
           then (case fresh b of
                   Some current \<Rightarrow> if sd_has_skipped diff \<and> (token, slot) \<in> set (sd_skipped diff) then BalanceStale
                                  else BalanceFresh (apply_delta delta current)
                 | None \<Rightarrow> BalanceStale)
           else b)
      | _ \<Rightarrow> b)"

lemma collect_side_ok:
  assumes inv: "liquidity_inv ix"
  shows "\<exists>updates touched. collect_transfer_updates ix moved party delta = Some (updates, touched) \<and>
    (\<forall>c \<in> set touched. tc_index c < length (li_targets ix)) \<and> (touched \<noteq> [] \<longrightarrow> updates \<noteq> []) \<and>
    (\<forall>apply_delta diff i b. live_at ix i \<longrightarrow> fold (settle_balance apply_delta diff) (filter (\<lambda>c. tc_index c = i) touched) b =
       settle_side apply_delta diff moved party delta (tgt_token (li_targets ix ! i)) (tgt_source (li_targets ix ! i)) b)"
proof (cases "party = 0")
  case True
  then show ?thesis by (auto simp: collect_transfer_updates_def settle_side_def split: liquidity_source.split option.split)
next
  case False
  let ?js = "indices_at (by_token_holder ix) (moved, party)" and ?T = "li_targets ix"
  have h: "distinct ?js" "\<And>i. i \<in> set ?js \<longleftrightarrow> live_at ix i \<and> tgt_token (?T ! i) = moved \<and> held_by (?T ! i) party"
    using inv by (auto simp: liquidity_inv_def index_ok_def holders_ok_def)
  then have "\<forall>i \<in> set ?js. i < length ?T" by (simp add: live_at_def)
  from collect_touched_ok [OF this h(1), of moved delta "{}"] obtain updates touched where
    c: "collect_touched ?T moved delta ?js {} = Some (updates, touched)" "\<forall>c \<in> set touched. tc_index c < length ?T"
      "touched \<noteq> [] \<longrightarrow> updates \<noteq> []"
      "\<And>i. filter (\<lambda>c. tc_index c = i) touched = (case tgt_source (?T ! i) of Erc20Balance holder (Some slot) \<Rightarrow>
          if i \<in> set ?js then [\<lparr>tc_index = i, tc_address = moved, tc_slot = slot, tc_delta = delta\<rparr>] else [] | _ \<Rightarrow> [])"
    by auto
  have "fold (settle_balance apply_delta diff) (filter (\<lambda>c. tc_index c = i) touched) b =
       settle_side apply_delta diff moved party delta (tgt_token (?T ! i)) (tgt_source (?T ! i)) b" if "live_at ix i"
    for i b diff and apply_delta :: "slot_delta \<Rightarrow> u256 \<Rightarrow> u256"
    using that False h(2) [of i]
    by (auto simp: c(4) settle_side_def settle_balance_def held_by_def split: liquidity_source.split option.split)
  then show ?thesis using c(1-3) False by (auto simp: collect_transfer_updates_def)
qed

section \<open>Storage slots\<close>

definition reslot :: "u256 \<Rightarrow> liquidity_target \<Rightarrow> liquidity_target" where
  "reslot slot t = (case tgt_source t of Erc20Balance holder _ \<Rightarrow> t\<lparr>tgt_source := Erc20Balance holder (Some slot)\<rparr> | _ \<Rightarrow> t)"

definition is_erc20 :: "liquidity_target \<Rightarrow> bool" where
  "is_erc20 t \<longleftrightarrow> (\<exists>holder. held_by t holder)"

lemma reslot_same [simp]:
  "tgt_token (reslot slot t) = tgt_token t" "tgt_balance (reslot slot t) = tgt_balance t" "tgt_active (reslot slot t) = tgt_active t"
  "held_by (reslot slot t) holder = held_by t holder" "is_erc20 (reslot slot t) = is_erc20 t" "reslot slot (reslot slot t) = reslot slot t"
  by (auto simp: reslot_def held_by_def is_erc20_def split: liquidity_source.split)

lemma storage_slot_reslot:
  "storage_slot (reslot slot t) = (if is_erc20 t then Some (tgt_token t, slot) else storage_slot t)"
  by (auto simp: reslot_def is_erc20_def held_by_def storage_slot_def split: liquidity_source.split)

lemma set_slots_ok:
  assumes "\<forall>i \<in> set js. i < length (li_targets ix)"
  shows "\<exists>ts m. set_slots token slot js ix = Some (ix\<lparr>li_targets := ts, by_storage_slot := m\<rparr>) \<and> length ts = length (li_targets ix) \<and>
    (\<forall>i < length ts. ts ! i = (if i \<in> set js then reslot slot (li_targets ix ! i) else li_targets ix ! i)) \<and>
    (\<forall>k. set (indices_at m k) = set (indices_at (by_storage_slot ix) k) \<union>
       (if k = (token, slot) then {i \<in> set js. is_erc20 (li_targets ix ! i)} else {}))"
  using assms
proof (induction js arbitrary: ix)
  case Nil
  show ?case by (intro exI [of _ "li_targets ix"] exI [of _ "by_storage_slot ix"]) simp
next
  case (Cons i js)
  let ?T = "li_targets ix" and ?S = "by_storage_slot ix"
  define m1 where "m1 = (if is_erc20 (?T ! i) then
      (if i \<in> set (indices_at ?S (token, slot)) then ?S((token, slot) \<mapsto> indices_at ?S (token, slot)) else push_index ?S (token, slot) i) else ?S)"
  define ix1 where "ix1 = ix\<lparr>li_targets := ?T[i := reslot slot (?T ! i)], by_storage_slot := m1\<rparr>"
  have i: "i < length ?T" using Cons.prems by simp
  have s: "set_slots token slot (i # js) ix = set_slots token slot js ix1"
    using i by (auto simp: ix1_def m1_def reslot_def Let_def is_erc20_def held_by_def split: liquidity_source.split)
  have m1: "set (indices_at m1 k) = set (indices_at ?S k) \<union> (if k = (token, slot) \<and> is_erc20 (?T ! i) then {i} else {})" for k
    by (auto simp: m1_def indices_at_def push_index_def split: option.split)
  have "\<forall>i \<in> set js. i < length (li_targets ix1)" using Cons.prems by (simp add: ix1_def)
  from Cons.IH [OF this] obtain ts m where
    r: "set_slots token slot js ix1 = Some (ix1\<lparr>li_targets := ts, by_storage_slot := m\<rparr>)" "length ts = length (li_targets ix1)"
      "\<And>j. j < length ts \<Longrightarrow> ts ! j = (if j \<in> set js then reslot slot (li_targets ix1 ! j) else li_targets ix1 ! j)"
      "\<And>k. set (indices_at m k) = set (indices_at m1 k) \<union> (if k = (token, slot) then {j \<in> set js. is_erc20 (li_targets ix1 ! j)} else {})"
    by (auto simp: ix1_def)
  have er: "is_erc20 (li_targets ix1 ! j) = is_erc20 (?T ! j)" for j
    using i by (cases "j = i") (auto simp: ix1_def)
  have "set (indices_at m k) = set (indices_at ?S k) \<union> (if k = (token, slot) then {j \<in> set (i # js). is_erc20 (?T ! j)} else {})" for k
    unfolding r(4) m1 er by auto
  moreover have "ts ! j = (if j \<in> set (i # js) then reslot slot (?T ! j) else ?T ! j)" if "j < length ts" for j
    using r(2) r(3) [OF that] that i by (cases "j = i") (auto simp: ix1_def)
  ultimately show ?case using s r(1,2) by (intro exI [of _ ts] exI [of _ m]) (auto simp: ix1_def)
qed

definition seeded :: "address \<Rightarrow> address \<Rightarrow> u256 \<Rightarrow> address \<Rightarrow> liquidity_source \<Rightarrow> liquidity_source" where
  "seeded token holder slot t source =
     (case source of Erc20Balance h old \<Rightarrow> Erc20Balance h (if t = token \<and> h = holder then Some slot else old) | _ \<Rightarrow> source)"

lemma set_erc20_slot_ok:
  assumes inv: "liquidity_inv ix"
  obtains ix' where "set_erc20_slot token holder slot ix = Some ix'" "liquidity_inv ix'" "by_pool_token ix' = by_pool_token ix"
    "\<And>p t. tracked ix' p t = map_option (\<lambda>(source, b). (seeded token holder slot t source, b)) (tracked ix p t)"
    "\<And>k. set (indices_at (by_storage_slot ix) k) \<subseteq> set (indices_at (by_storage_slot ix') k)"
proof -
  let ?js = "indices_at (by_token_holder ix) (token, holder)" and ?T = "li_targets ix"
  have o: "pools_ok (indices_at (by_pool ix)) ix" "free_ok ix" "holders_ok ix" "slots_ok ix"
    using inv by (simp_all add: liquidity_inv_def index_ok_def)
  have js: "i \<in> set ?js \<longleftrightarrow> live_at ix i \<and> tgt_token (?T ! i) = token \<and> held_by (?T ! i) holder" for i
    using o(3) by (simp add: holders_ok_def)
  then have "\<forall>i \<in> set ?js. i < length ?T" by (auto simp: live_at_def)
  from set_slots_ok [OF this, of token slot] obtain ts m where
    r: "set_slots token slot ?js ix = Some (ix\<lparr>li_targets := ts, by_storage_slot := m\<rparr>)" "length ts = length ?T"
      "\<And>i. i < length ?T \<Longrightarrow> ts ! i = (if i \<in> set ?js then reslot slot (?T ! i) else ?T ! i)"
      "\<And>k. set (indices_at m k) = set (indices_at (by_storage_slot ix) k) \<union>
         (if k = (token, slot) then {i \<in> set ?js. is_erc20 (?T ! i)} else {})" by auto
  let ?ix = "ix\<lparr>li_targets := ts, by_storage_slot := m\<rparr>"
  have f: "tgt_token (ts ! i) = tgt_token (?T ! i)" "tgt_active (ts ! i) = tgt_active (?T ! i)" "held_by (ts ! i) h = held_by (?T ! i) h"
    if "i < length ?T" for i h using r(3) [OF that] by auto
  have live: "live_at ?ix i = live_at ix i" for i using r(2) f(2) [of i] by (auto simp: live_at_def)
  have "pools_ok (indices_at (by_pool ix)) ?ix"
    using o(1) f(1) unfolding pools_ok_def live by (simp add: live_at_def) metis
  moreover have "free_ok ?ix" using o(2) f(2) r(2) by (auto simp: free_ok_def)
  moreover have "holders_ok ?ix" using o(3) f(1,3) unfolding holders_ok_def live by (auto simp: live_at_def)
  moreover have "slots_ok ?ix"
    unfolding slots_ok_def live
  proof (intro allI conjI ballI impI)
    fix key i assume "i \<in> set (indices_at (by_storage_slot ?ix) key)"
    then show "i < length (li_targets ?ix)"
      using o(4) [unfolded slots_ok_def, rule_format, of key] js [of i] r(2) r(4) [of key] by (auto simp: live_at_def split: if_splits)
  next
    fix key i assume i: "live_at ix i \<and> storage_slot (li_targets ?ix ! i) = Some key"
    then have "ts ! i = (if i \<in> set ?js then reslot slot (?T ! i) else ?T ! i)" using r(3) by (simp add: live_at_def)
    then show "i \<in> set (indices_at (by_storage_slot ?ix) key)"
      using i conjunct2 [OF o(4) [unfolded slots_ok_def, rule_format, of key], rule_format, of i] js [of i] r(4) [of key]
      by (auto simp: storage_slot_reslot is_erc20_def split: if_splits)
  qed
  ultimately have "liquidity_inv ?ix" by (simp add: liquidity_inv_def index_ok_def)
  moreover have "tracked ?ix p t = map_option (\<lambda>(source, b). (seeded token holder slot t source, b)) (tracked ix p t)" for p t
  proof (cases "by_pool_token ix (p, t)")
    case (Some i)
    note l = pool_token_live(1,2) [OF inv [unfolded liquidity_inv_def] Some]
    have "ts ! i = (if t = token \<and> held_by (?T ! i) holder then reslot slot (?T ! i) else ?T ! i)"
      using r(3) [of i] js [of i] l by (auto simp: live_at_def)
    then show ?thesis using Some by (auto simp: tracked_def reslot_def seeded_def held_by_def split: liquidity_source.split)
  qed (simp add: tracked_def)
  ultimately show thesis using that [of ?ix] r(1,4) by (auto simp: set_erc20_slot_def)
qed

lemma update_targets_ok:
  assumes "\<forall>i \<in> set js. i < length (li_targets ix)" and "\<And>t. f (f t) = f t"
  shows "\<exists>ts. update_targets f js ix = Some (ix\<lparr>li_targets := ts\<rparr>) \<and> length ts = length (li_targets ix) \<and>
    (\<forall>i < length ts. ts ! i = (if i \<in> set js then f (li_targets ix ! i) else li_targets ix ! i))"
  using assms(1)
proof (induction js arbitrary: ix)
  case (Cons i js)
  let ?ix = "ix\<lparr>li_targets := (li_targets ix)[i := f (li_targets ix ! i)]\<rparr>"
  have "\<forall>j \<in> set js. j < length (li_targets ?ix)" using Cons.prems by simp
  from Cons.IH [OF this] obtain ts where
    "update_targets f js ?ix = Some (?ix\<lparr>li_targets := ts\<rparr>)" "length ts = length (li_targets ix)"
    "\<forall>j < length ts. ts ! j = (if j \<in> set js then f (li_targets ?ix ! j) else li_targets ?ix ! j)" by auto
  then show ?case using Cons.prems assms(2) by (auto simp: nth_list_update)
next
  case Nil
  show ?case by (intro exI [of _ "li_targets ix"]) simp
qed

lemma write_slot_same [simp]:
  "tgt_token (write_slot v t) = tgt_token t" "tgt_source (write_slot v t) = tgt_source t"
  "tgt_active (write_slot v t) = tgt_active t" "write_slot v (write_slot v t) = write_slot v t"
  by (auto simp: write_slot_def split: option.split)

lemma update_slot_ok:
  assumes inv: "liquidity_inv ix"
  obtains n ix' where "update_slot_value a s v ix = Some (n, ix')" "liquidity_inv ix'"
    "\<And>p t i. by_pool_token ix (p, t) = Some i \<Longrightarrow> tracked ix' p t = Some (tgt_source (li_targets ix ! i),
       tgt_balance (if i \<in> set (indices_at (by_storage_slot ix) (a, s)) then write_slot v (li_targets ix ! i) else li_targets ix ! i))"
proof -
  let ?js = "indices_at (by_storage_slot ix) (a, s)"
  have "\<forall>i \<in> set ?js. i < length (li_targets ix)"
    using inv by (simp add: liquidity_inv_def index_ok_def slots_ok_def)
  from update_targets_ok [OF this, of "write_slot v"] obtain ts where
    r: "update_targets (write_slot v) ?js ix = Some (ix\<lparr>li_targets := ts\<rparr>)" "length ts = length (li_targets ix)"
      "\<And>i. i < length (li_targets ix) \<Longrightarrow> ts ! i = (if i \<in> set ?js then write_slot v (li_targets ix ! i) else li_targets ix ! i)" by auto
  have shape: "same_shape (li_targets ix) ts" using r(2,3) by (simp add: same_shape_def)
  show thesis
  proof (rule that)
    show "update_slot_value a s v ix = Some (length (filter (\<lambda>i. tgt_source (li_targets ix ! i) \<noteq> SourceUnknown) ?js), ix\<lparr>li_targets := ts\<rparr>)"
      by (simp add: update_slot_value_def Let_def r(1))
    show "liquidity_inv (ix\<lparr>li_targets := ts\<rparr>)" by (rule same_shape_inv [OF shape inv])
    fix p t i assume i: "by_pool_token ix (p, t) = Some i"
    show "tracked (ix\<lparr>li_targets := ts\<rparr>) p t = Some (tgt_source (li_targets ix ! i),
        tgt_balance (if i \<in> set ?js then write_slot v (li_targets ix ! i) else li_targets ix ! i))"
      using r(3) [of i] pool_token_live(1) [OF inv [unfolded liquidity_inv_def] i] i
      unfolding same_shape_tracked [OF shape inv] by (simp add: live_at_def)
  qed
qed

text \<open>A slot stays listed once it was seeded, so a write to it reaches the target even after the
  target moved to another slot.\<close>

lemma listed_slot_written:
  assumes inv: "liquidity_inv ix" and target: "tracked ix p token = Some (Erc20Balance holder old, b)"
  obtains ix1 where "set_erc20_slot token holder s1 ix = Some ix1" "liquidity_inv ix1"
    "tracked ix1 p token = Some (Erc20Balance holder (Some s1), b)"
    "\<And>i. by_pool_token ix1 (p, token) = Some i \<Longrightarrow> i \<in> set (indices_at (by_storage_slot ix1) (token, s1))"
proof -
  obtain ix1 where r: "set_erc20_slot token holder s1 ix = Some ix1" "liquidity_inv ix1"
      "\<And>p t. tracked ix1 p t = map_option (\<lambda>(source, b). (seeded token holder s1 t source, b)) (tracked ix p t)"
    using set_erc20_slot_ok [OF inv] by metis
  have t: "tracked ix1 p token = Some (Erc20Balance holder (Some s1), b)" using r(3) target by (simp add: seeded_def)
  have "i \<in> set (indices_at (by_storage_slot ix1) (token, s1))" if i: "by_pool_token ix1 (p, token) = Some i" for i
  proof -
    note l = pool_token_live(1,2) [OF r(2) [unfolded liquidity_inv_def] i]
    have "tgt_source (li_targets ix1 ! i) = Erc20Balance holder (Some s1)" using t i by (simp add: tracked_def)
    then have "storage_slot (li_targets ix1 ! i) = Some (token, s1)" using l(2) by (simp add: storage_slot_def)
    then show ?thesis using r(2) l(1) by (simp add: liquidity_inv_def index_ok_def slots_ok_def)
  qed
  then show thesis using that r(1,2) t by blast
qed

section \<open>Properties\<close>

text \<open>C30. Reconciliation refines the map of tracked balances: on a consistent index,
  \<^verbatim>\<open>reconcile_pools\<close> keeps every reverse index and the free list consistent, leaves the
  targets of all other pools as they were, and gives each named pool exactly the targets its
  registration and the graph ask for, keeping a discovered storage slot of the same holder and
  the balance of every target whose source did not change.\<close>

theorem reconcile_refines:
  assumes "liquidity_inv ix" and "reconcile_pools debug info registered g scope pools ix = (ix', report)"
  shows "liquidity_inv ix' \<and>
    tracked ix' = (\<lambda>p. if p \<in> set pools then reconciled info registered g scope p (tracked ix p) else tracked ix p)"
  using reconcile_fold_ok [OF assms(1) assms(2) [unfolded reconcile_pools_def]] by simp


text \<open>Where the balance of a source is stored.\<close>

definition source_slot :: "address \<Rightarrow> liquidity_source \<Rightarrow> (address \<times> u256) option" where
  "source_slot token source = storage_slot \<lparr>tgt_token = token, tgt_source = source, tgt_balance = BalanceUnknown, tgt_active = True\<rparr>"

lemma storage_slot_source: "storage_slot t = source_slot (tgt_token t) (tgt_source t)"
  by (simp add: source_slot_def storage_slot_def split: liquidity_source.split option.split)

definition snapshot_balance ::
  "(address \<Rightarrow> u256 \<Rightarrow> u256 option) \<Rightarrow> address \<Rightarrow> liquidity_source \<Rightarrow> balance_state" where
  "snapshot_balance stored token source =
     (case Option.bind (source_slot token source) (\<lambda>(a, s). Option.bind (stored a s) (slot_balance source)) of
        None \<Rightarrow> BalanceUnknown
      | Some b \<Rightarrow> BalanceFresh b)"

lemma slot_balance_known: "source_slot token source = Some k \<Longrightarrow> slot_balance source v \<noteq> None"
  by (cases source) (auto simp: source_slot_def storage_slot_def slot_balance_def)

lemma snapshot_targets_ok:
  assumes "snapshot_targets stored ts report = (ts', report')"
  shows "same_shape ts ts' \<and>
    (\<forall>i < length ts. tgt_active (ts ! i) \<longrightarrow> tgt_balance (ts' ! i) = snapshot_balance stored (tgt_token (ts ! i)) (tgt_source (ts ! i)))"
  using assms
proof (induction ts arbitrary: ts' report report')
  case (Cons t ts)
  define out where "out = (if \<not> tgt_active t then (t, report)
         else case Option.bind (storage_slot t) (\<lambda>(address, slot). stored address slot) of
                None \<Rightarrow> (t\<lparr>tgt_balance := BalanceUnknown\<rparr>, report\<lparr>unknown_balances := Suc (unknown_balances report)\<rparr>)
              | Some v \<Rightarrow>
                  (case slot_balance (tgt_source t) v of
                     None \<Rightarrow> (t, report\<lparr>unknown_balances := Suc (unknown_balances report)\<rparr>)
                   | Some b \<Rightarrow> (t\<lparr>tgt_balance := BalanceFresh b\<rparr>,
                                report\<lparr>refreshed_balances := Suc (refreshed_balances report)\<rparr>)))"
  obtain t1 report1 where o: "out = (t1, report1)" by fastforce
  obtain ts1 report2 where r: "snapshot_targets stored ts report1 = (ts1, report2)" by fastforce
  have ts': "ts' = t1 # ts1" "report2 = report'" using Cons.prems o r unfolding out_def by simp_all
  have shape: "tgt_token t1 = tgt_token t" "tgt_source t1 = tgt_source t" "tgt_active t1 = tgt_active t"
    using o unfolding out_def by (auto split: if_splits option.splits)
  have bal: "tgt_balance t1 = snapshot_balance stored (tgt_token t) (tgt_source t)" if "tgt_active t"
    using o that unfolding out_def storage_slot_source
    by (cases "source_slot (tgt_token t) (tgt_source t)")
      (auto simp: snapshot_balance_def dest: slot_balance_known split: option.splits)
  have "same_shape ts ts1 \<and> (\<forall>i < length ts. tgt_active (ts ! i) \<longrightarrow>
      tgt_balance (ts1 ! i) = snapshot_balance stored (tgt_token (ts ! i)) (tgt_source (ts ! i)))"
    using Cons.IH r ts'(2) by blast
  then show ?case unfolding ts'(1) using shape bal by (auto simp: same_shape_def nth_Cons split: nat.split)
qed (simp add: same_shape_def)

lemma cash_mask: "push_bit cash_bits 1 - 1 = (mask 112 :: u256)"
  by (simp add: cash_bits_def mask_eq_exp_minus_1 push_bit_eq_mult)

lemma decode_low: "unat (decode_balancer_cash w False) = unat w mod 2 ^ 112"
proof -
  have "decode_balancer_cash w False = take_bit 112 w"
    unfolding decode_balancer_cash_def Let_def cash_mask by (simp only: take_bit_eq_mask if_False)
  then show ?thesis by (simp only: unsigned_take_bit_eq) (simp only: take_bit_eq_mod)
qed

lemma decode_high: "unat (decode_balancer_cash w True) = (unat w div 2 ^ 112) mod 2 ^ 112"
proof -
  have "decode_balancer_cash w True = take_bit 112 (drop_bit 112 w)"
    unfolding decode_balancer_cash_def Let_def cash_mask by (simp only: take_bit_eq_mask if_True cash_bits_def)
  then show ?thesis by (simp only: unsigned_take_bit_eq unat_drop_bit_eq) (simp only: take_bit_eq_mod drop_bit_eq_div)
qed

text \<open>C32. Refreshing from a snapshot: on a consistent index every tracked balance becomes the value
  the snapshot stores at its source's slot, a Balancer balance being the low or the next 112 bits
  of the word, and unknown when the slot is not known or not stored; the sources stay as they
  were and the index stays consistent.\<close>

theorem refresh_snapshot_exact:
  assumes "liquidity_inv ix" and "refresh_from_snapshot stored ix = (report, ix')"
  shows "liquidity_inv ix' \<and>
    (\<forall>p t. tracked ix' p t = map_option (\<lambda>(source, _). (source, snapshot_balance stored t source)) (tracked ix p t)) \<and>
    (\<forall>w. unat (decode_balancer_cash w False) = unat w mod 2 ^ 112 \<and>
         unat (decode_balancer_cash w True) = (unat w div 2 ^ 112) mod 2 ^ 112)"
proof -
  obtain ts where ts: "snapshot_targets stored (li_targets ix) no_refresh = (ts, report)" "ix' = ix\<lparr>li_targets := ts\<rparr>"
    using assms(2) by (auto simp: refresh_from_snapshot_def split: prod.splits)
  note s = snapshot_targets_ok [OF ts(1)]
  have "tracked ix' p t = map_option (\<lambda>(source, _). (source, snapshot_balance stored t source)) (tracked ix p t)" for p t
    using s pool_token_live(1,2) [OF assms(1) [unfolded liquidity_inv_def], of p t]
    unfolding ts(2) same_shape_tracked [OF conjunct1 [OF s] assms(1)]
    by (cases "by_pool_token ix (p, t)") (auto simp: tracked_def live_at_def)
  then show ?thesis using same_shape_inv [OF conjunct1 [OF s] assms(1)] decode_low decode_high by (simp add: ts(2))
qed

text \<open>C33. Round trip of a discovered slot: seeding the storage slot of a token and holder keeps
  the index consistent, and the next write to that slot is read back as the fresh balance of
  every pool that tracks the holder, so a slot found once is kept up to date by storage diffs.\<close>

theorem seeded_slot_roundtrip:
  assumes "liquidity_inv ix"
  shows "\<exists>k ix1 n ix2. set_erc20_balance_slot token holder slot ix = Some (k, ix1) \<and> liquidity_inv ix1 \<and>
    update_slot_value token slot v ix1 = Some (n, ix2) \<and> liquidity_inv ix2 \<and>
    (\<forall>p old b. tracked ix p token = Some (Erc20Balance holder old, b) \<longrightarrow>
       tracked ix2 p token = Some (Erc20Balance holder (Some slot), BalanceFresh v))"
proof -
  obtain ix1 where r: "set_erc20_slot token holder slot ix = Some ix1" "liquidity_inv ix1"
    using set_erc20_slot_ok [OF assms] by metis
  obtain n ix2 where u: "update_slot_value token slot v ix1 = Some (n, ix2)" "liquidity_inv ix2"
    "\<And>p t i. by_pool_token ix1 (p, t) = Some i \<Longrightarrow> tracked ix2 p t = Some (tgt_source (li_targets ix1 ! i),
       tgt_balance (if i \<in> set (indices_at (by_storage_slot ix1) (token, slot)) then write_slot v (li_targets ix1 ! i) else li_targets ix1 ! i))"
    using update_slot_ok [OF r(2), of token slot v] by blast
  have "tracked ix2 p token = Some (Erc20Balance holder (Some slot), BalanceFresh v)"
    if t: "tracked ix p token = Some (Erc20Balance holder old, b)" for p old b
  proof -
    obtain t1: "tracked ix1 p token = Some (Erc20Balance holder (Some slot), b)"
      and l: "\<And>i. by_pool_token ix1 (p, token) = Some i \<Longrightarrow> i \<in> set (indices_at (by_storage_slot ix1) (token, slot))"
      using listed_slot_written [OF assms t, of slot] r(1) by auto
    then show ?thesis using u(3) [of p token] by (auto simp: tracked_def write_slot_def slot_balance_def)
  qed
  then show ?thesis using r u(1,2) by (auto simp: set_erc20_balance_slot_def)
qed

text \<open>C34. A second slot does not replace the first: after the slot of a tracked balance was
  seeded as s1 and then as s2, the source reads s2, but the reverse index still lists s1, and a
  write to s1 is taken as the fresh balance. The code adds to \<^verbatim>\<open>by_storage_slot\<close> and never
  removes the earlier entry.\<close>

theorem reseeded_slot_still_written:
  assumes "liquidity_inv ix" and "tracked ix p token = Some (Erc20Balance holder old, b)"
  shows "\<exists>ix1 ix2 n ix3. set_erc20_slot token holder s1 ix = Some ix1 \<and> set_erc20_slot token holder s2 ix1 = Some ix2 \<and>
    tracked ix2 p token = Some (Erc20Balance holder (Some s2), b) \<and> update_slot_value token s1 v ix2 = Some (n, ix3) \<and>
    tracked ix3 p token = Some (Erc20Balance holder (Some s2), BalanceFresh v)"
proof -
  obtain ix1 where a: "set_erc20_slot token holder s1 ix = Some ix1" "liquidity_inv ix1"
    "tracked ix1 p token = Some (Erc20Balance holder (Some s1), b)"
    "\<And>i. by_pool_token ix1 (p, token) = Some i \<Longrightarrow> i \<in> set (indices_at (by_storage_slot ix1) (token, s1))"
    using listed_slot_written [OF assms] by metis
  obtain ix2 where c: "set_erc20_slot token holder s2 ix1 = Some ix2" "liquidity_inv ix2" "by_pool_token ix2 = by_pool_token ix1"
    "\<And>p t. tracked ix2 p t = map_option (\<lambda>(source, b). (seeded token holder s2 t source, b)) (tracked ix1 p t)"
    "\<And>k. set (indices_at (by_storage_slot ix1) k) \<subseteq> set (indices_at (by_storage_slot ix2) k)"
    using set_erc20_slot_ok [OF a(2), of token holder s2] by blast
  obtain n ix3 where u: "update_slot_value token s1 v ix2 = Some (n, ix3)" "liquidity_inv ix3"
    "\<And>p t i. by_pool_token ix2 (p, t) = Some i \<Longrightarrow> tracked ix3 p t = Some (tgt_source (li_targets ix2 ! i),
       tgt_balance (if i \<in> set (indices_at (by_storage_slot ix2) (token, s1)) then write_slot v (li_targets ix2 ! i) else li_targets ix2 ! i))"
    using update_slot_ok [OF c(2), of token s1 v] by blast
  have t2: "tracked ix2 p token = Some (Erc20Balance holder (Some s2), b)" using c(4) a(3) by (simp add: seeded_def)
  then obtain i where i: "by_pool_token ix2 (p, token) = Some i" "tgt_source (li_targets ix2 ! i) = Erc20Balance holder (Some s2)"
    by (auto simp: tracked_def)
  then have "i \<in> set (indices_at (by_storage_slot ix2) (token, s1))" using a(4) [of i] c(3,5) by auto
  then have "tracked ix3 p token = Some (Erc20Balance holder (Some s2), BalanceFresh v)"
    using u(3) [OF i(1)] i(2) by (simp add: write_slot_def slot_balance_def)
  then show ?thesis using a(1) c(1) t2 u(1) by blast
qed

section \<open>Witnesses\<close>

text \<open>An index of one pool with two balances of the same holder.\<close>

definition demo_index :: "nat liquidity_index" where
  "demo_index = push_target 7 2 (Erc20Balance 9 None) (push_target 7 1 (Erc20Balance 9 (Some 4)) empty_index)"

lemma demo_index_inv: "liquidity_inv demo_index"
  unfolding demo_index_def push_target_def
  by (intro push_target_inv liquidity_inv_empty)
    (simp_all add: empty_index_def push_target_with_balance_def Let_def)

lemma demo_index_tracked: "tracked demo_index 7 2 = Some (Erc20Balance 9 None, BalanceUnknown)"
  "tracked demo_index 7 1 = Some (Erc20Balance 9 (Some 4), BalanceUnknown)" "tracked demo_index 7 3 = None"
  by (simp_all add: demo_index_def push_target_def push_target_with_balance_def empty_index_def tracked_def put_target_def Let_def)

lemma seeded_slot_roundtrip_witness:
  "\<exists>k ix1 n ix2. set_erc20_balance_slot 2 9 5 demo_index = Some (k, ix1) \<and> update_slot_value 2 5 100 ix1 = Some (n, ix2) \<and>
    tracked ix2 7 2 = Some (Erc20Balance 9 (Some 5), BalanceFresh 100)"
  using seeded_slot_roundtrip [OF demo_index_inv, of 2 9 5 100] demo_index_tracked(1) by blast

lemma reseeded_slot_still_written_witness:
  "\<exists>ix1 ix2 n ix3. set_erc20_slot 2 9 5 demo_index = Some ix1 \<and> set_erc20_slot 2 9 6 ix1 = Some ix2 \<and>
    update_slot_value 2 5 100 ix2 = Some (n, ix3) \<and> tracked ix3 7 2 = Some (Erc20Balance 9 (Some 6), BalanceFresh 100)"
  using reseeded_slot_still_written [OF demo_index_inv demo_index_tracked(1), of 5 6 100] by blast

lemma refresh_snapshot_exact_witness:
  "tracked (snd (refresh_from_snapshot (\<lambda>a s. Some 30) demo_index)) 7 1 = Some (Erc20Balance 9 (Some 4), BalanceFresh 30)"
proof -
  obtain report ix' where r: "refresh_from_snapshot (\<lambda>a s. Some 30) demo_index = (report, ix')" by fastforce
  show ?thesis using refresh_snapshot_exact [OF demo_index_inv r] demo_index_tracked(2)
    by (simp add: r snapshot_balance_def source_slot_def storage_slot_def slot_balance_def)
qed


lemma reconcile_refines_witness:
  "\<exists>ix' report. reconcile_pools (\<lambda>p. ''pool'')
      \<lparr>pi_tokens = (\<lambda>_. Some [3, 1]), pi_address = (\<lambda>_. Some 9), pi_vault = (\<lambda>_. None), pi_cash = (\<lambda>_. [])\<rparr>
      (\<lambda>_. Some \<lparr>reg_key = 7, reg_status = Ready, reg_metadata = MetaCurve [3, 1]\<rparr>)
      \<lparr>graph = (), node_map = Map.empty, edge_map = Map.empty, pool_tokens = [7 \<mapsto> [3, 1]], pair_pools = Map.empty,
       outgoing_map = Map.empty, version = \<lparr>lineage = 0, revision = 0\<rparr>\<rparr> AllDirectedEdges [7] demo_index = (ix', report) \<and>
    tracked ix' 7 1 = Some (Erc20Balance 9 (Some 4), BalanceUnknown) \<and> tracked ix' 7 2 = None \<and>
    tracked ix' 7 3 = Some (Erc20Balance 9 None, BalanceUnknown)"
proof -
  let ?info = "\<lparr>pi_tokens = (\<lambda>_. Some [3, 1]), pi_address = (\<lambda>_. Some 9), pi_vault = (\<lambda>_. None), pi_cash = (\<lambda>_. [])\<rparr> :: nat pool_info"
  let ?reg = "\<lambda>_ :: nat. Some \<lparr>reg_key = 7, reg_status = Ready, reg_metadata = MetaCurve [3, 1]\<rparr>"
  let ?g = "\<lparr>graph = (), node_map = Map.empty, edge_map = Map.empty, pool_tokens = [7 \<mapsto> [3, 1]], pair_pools = Map.empty,
       outgoing_map = Map.empty, version = \<lparr>lineage = 0, revision = 0\<rparr>\<rparr> :: (unit, nat) amm_graph"
  obtain ix' report where r: "reconcile_pools (\<lambda>p. ''pool'') ?info ?reg ?g AllDirectedEdges [7] demo_index = (ix', report)" by fastforce
  then have "tracked ix' 7 = reconciled ?info ?reg ?g AllDirectedEdges 7 (tracked demo_index 7)"
    using reconcile_refines [OF demo_index_inv r] by simp
  then show ?thesis using r demo_index_tracked
    by (simp add: reconciled_def desired_targets_def tracked_tokens_for_pool_def normalize_liquidity_tokens_def
        pool_source_def kept_balance_def Let_def)
qed

end
