(* ===== verification/LiquidityRefresh.thy ===== *)
theory LiquidityRefresh
  imports LiquidityProps
begin

text \<open>
  Refreshing the liquidity index from the chain: \<^verbatim>\<open>refresh\<close>, \<^verbatim>\<open>discover_erc20_slots\<close> and
  \<^verbatim>\<open>mark_storage_spec_stale\<close> of \<^verbatim>\<open>src/liquidity.rs\<close>. The cache's slot discovery, the storage
  reads of the provider and the injection of what was read into the cache are arguments, as is
  the order in which a hash map of tokens and holders is walked. When discovery and reads are
  honest, a refresh leaves no balance fresh that is neither what the chain stores nor what the
  index already held.
\<close>

section \<open>Operations\<close>

datatype refresh_mode = RefreshAll | RefreshStaleOnly

fun mode_includes :: "refresh_mode \<Rightarrow> balance_state \<Rightarrow> bool" where
  "mode_includes RefreshAll b = True"
| "mode_includes RefreshStaleOnly b = (b = BalanceStale)"

definition refreshes :: "refresh_mode \<Rightarrow> liquidity_target \<Rightarrow> bool" where
  "refreshes mode t \<longleftrightarrow> tgt_active t \<and> mode_includes mode (tgt_balance t)"

definition slotless_holders :: "refresh_mode \<Rightarrow> liquidity_target list \<Rightarrow> (address \<times> address) list" where
  "slotless_holders mode targets =
     List.map_filter (\<lambda>t. case tgt_source t of
         Erc20Balance holder None \<Rightarrow> (if refreshes mode t then Some (tgt_token t, holder) else None)
       | _ \<Rightarrow> None) targets"

fun seed_slots :: "address \<Rightarrow> (address \<times> u256) list \<Rightarrow> 'p liquidity_index \<Rightarrow> 'p liquidity_index option" where
  "seed_slots token [] ix = Some ix"
| "seed_slots token ((holder, slot) # pairs) ix = Option.bind (set_erc20_slot token holder slot ix) (seed_slots token pairs)"

fun mark_holders :: "address \<Rightarrow> bool \<Rightarrow> address list \<Rightarrow> 'p liquidity_index \<Rightarrow> (nat \<times> 'p liquidity_index) option" where
  "mark_holders token stale [] ix = Some (0, ix)"
| "mark_holders token stale (holder # holders) ix =
     (case mark_token_holder_unknown_or_stale token holder stale ix of
        None \<Rightarrow> None
      | Some (n, ix') \<Rightarrow> map_option (map_prod ((+) n) id) (mark_holders token stale holders ix'))"

text \<open>The answer of the cache to \<^verbatim>\<open>track_erc20_balances\<close>: an error, no slot, or slots of some holders.\<close>

type_synonym 'c slot_tracker = "address \<Rightarrow> address list \<Rightarrow> 'c \<Rightarrow> (string + (address \<times> u256) list option) \<times> 'c"

fun discover_tokens ::
  "'c slot_tracker \<Rightarrow> (address \<times> address list) list \<Rightarrow> 'c \<Rightarrow> 'p liquidity_index \<Rightarrow> refresh_report \<Rightarrow>
     (refresh_report \<times> 'p liquidity_index \<times> 'c) option" where
  "discover_tokens track [] cache ix report = Some (report, ix, cache)"
| "discover_tokens track ((token, holders) # groups) cache ix report =
     (case track token holders cache of
        (Inr (Some pairs), cache') \<Rightarrow>
          (case seed_slots token pairs ix of
             None \<Rightarrow> None
           | Some ix' \<Rightarrow> discover_tokens track groups cache' ix' report)
      | (Inr None, cache') \<Rightarrow>
          (case mark_holders token False holders ix of
             None \<Rightarrow> None
           | Some (n, ix') \<Rightarrow>
               discover_tokens track groups cache' ix' (report\<lparr>unknown_balances := unknown_balances report + n\<rparr>))
      | (Inl error, cache') \<Rightarrow>
          (case mark_holders token True holders ix of
             None \<Rightarrow> None
           | Some (n, ix') \<Rightarrow>
               discover_tokens track groups cache' ix'
                 (report\<lparr>stale_balances := stale_balances report + n,
                         refresh_failures := refresh_failures report @ [(token, error)]\<rparr>)))"

definition discover_erc20_slots ::
  "'c slot_tracker \<Rightarrow> ((address \<times> address) list \<Rightarrow> (address \<times> address list) list) \<Rightarrow> refresh_mode \<Rightarrow> 'c \<Rightarrow>
     'p liquidity_index \<Rightarrow> refresh_report \<Rightarrow> (refresh_report \<times> 'p liquidity_index \<times> 'c) option" where
  "discover_erc20_slots track walk mode cache ix report =
     discover_tokens track (walk (slotless_holders mode (li_targets ix))) cache ix report"

record storage_sync_spec =
  sp_target :: address
  sp_slots :: "u256 list"

definition wanted_slots :: "refresh_mode \<Rightarrow> liquidity_target list \<Rightarrow> (address \<times> u256) list" where
  "wanted_slots mode targets = List.map_filter storage_slot (filter (refreshes mode) targets)"

definition unknown_wanted :: "refresh_mode \<Rightarrow> liquidity_target list \<Rightarrow> nat" where
  "unknown_wanted mode targets =
     length (filter (\<lambda>t. refreshes mode t \<and> storage_slot t = None \<and> tgt_balance t = BalanceUnknown) targets)"

definition sync_specs :: "refresh_mode \<Rightarrow> liquidity_target list \<Rightarrow> storage_sync_spec list" where
  "sync_specs mode targets =
     (let wanted = wanted_slots mode targets
      in map (\<lambda>a. \<lparr>sp_target = a, sp_slots = remdups_adj (sort (map snd (filter (\<lambda>k. fst k = a) wanted)))\<rparr>)
           (remdups_adj (sort (map fst wanted))))"

fun mark_slots_stale :: "address \<Rightarrow> u256 list \<Rightarrow> 'p liquidity_index \<Rightarrow> (nat \<times> 'p liquidity_index) option" where
  "mark_slots_stale a [] ix = Some (0, ix)"
| "mark_slots_stale a (slot # slots) ix =
     (let js = indices_at (by_storage_slot ix) (a, slot)
      in case update_targets (\<lambda>t. t\<lparr>tgt_balance := BalanceStale\<rparr>) js ix of
           None \<Rightarrow> None
         | Some ix' \<Rightarrow> map_option (map_prod ((+) (length js)) id) (mark_slots_stale a slots ix'))"

definition mark_storage_spec_stale :: "storage_sync_spec \<Rightarrow> 'p liquidity_index \<Rightarrow> (nat \<times> 'p liquidity_index) option" where
  "mark_storage_spec_stale spec ix = mark_slots_stale (sp_target spec) (sp_slots spec) ix"

record storage_snapshot =
  sn_target :: address
  sn_entries :: "(u256 \<times> u256) list"

fun write_entries :: "address \<Rightarrow> (u256 \<times> u256) list \<Rightarrow> 'p liquidity_index \<Rightarrow> (nat \<times> 'p liquidity_index) option" where
  "write_entries a [] ix = Some (0, ix)"
| "write_entries a ((slot, v) # es) ix =
     (case update_slot_value a slot v ix of
        None \<Rightarrow> None
      | Some (n, ix') \<Rightarrow> map_option (map_prod ((+) n) id) (write_entries a es ix'))"

fun settle_syncs ::
  "(storage_snapshot \<Rightarrow> 'c \<Rightarrow> 'c) \<Rightarrow> (storage_sync_spec \<times> (string + storage_snapshot)) list \<Rightarrow> 'c \<Rightarrow>
     'p liquidity_index \<Rightarrow> refresh_report \<Rightarrow> (refresh_report \<times> 'p liquidity_index \<times> 'c) option" where
  "settle_syncs inject [] cache ix report = Some (report, ix, cache)"
| "settle_syncs inject ((spec, Inr snapshot) # rs) cache ix report =
     (case write_entries (sn_target snapshot) (sn_entries snapshot) ix of
        None \<Rightarrow> None
      | Some (n, ix') \<Rightarrow>
          settle_syncs inject rs (inject snapshot cache) ix' (report\<lparr>refreshed_balances := refreshed_balances report + n\<rparr>))"
| "settle_syncs inject ((spec, Inl error) # rs) cache ix report =
     (case mark_storage_spec_stale spec ix of
        None \<Rightarrow> None
      | Some (n, ix') \<Rightarrow>
          settle_syncs inject rs cache ix'
            (report\<lparr>stale_balances := stale_balances report + n,
                    refresh_failures := refresh_failures report @ [(sp_target spec, error)]\<rparr>))"

definition refresh ::
  "'c slot_tracker \<Rightarrow> ((address \<times> address) list \<Rightarrow> (address \<times> address list) list) \<Rightarrow>
     ('c \<Rightarrow> storage_sync_spec list \<Rightarrow> (string + storage_snapshot) list) \<Rightarrow> (storage_snapshot \<Rightarrow> 'c \<Rightarrow> 'c) \<Rightarrow> refresh_mode \<Rightarrow>
     'c \<Rightarrow> 'p liquidity_index \<Rightarrow> (refresh_report \<times> 'p liquidity_index \<times> 'c) option" where
  "refresh track walk run_storage_syncs inject mode cache ix =
     (case discover_erc20_slots track walk mode cache ix no_refresh of
        None \<Rightarrow> None
      | Some (report, ix1, cache1) \<Rightarrow>
          (let specs = sync_specs mode (li_targets ix1);
               report1 = report\<lparr>unknown_balances := unknown_balances report + unknown_wanted mode (li_targets ix1),
                                storage_reads := sum_list (map (\<lambda>spec. length (sp_slots spec)) specs)\<rparr>
           in if specs = [] then Some (report1, ix1, cache1)
              else settle_syncs inject (zip specs (run_storage_syncs cache1 specs)) cache1 ix1 report1))"

definition refresh_all where
  "refresh_all track walk run_storage_syncs inject cache ix = refresh track walk run_storage_syncs inject RefreshAll cache ix"

definition refresh_stale where
  "refresh_stale track walk run_storage_syncs inject cache ix = refresh track walk run_storage_syncs inject RefreshStaleOnly cache ix"

section \<open>Honest steps\<close>

text \<open>Every discovered slot is the one the token contract uses for the holder, and the reverse
  index lists exactly the live targets of a slot.\<close>

definition slots_current :: "(address \<Rightarrow> address \<Rightarrow> u256) \<Rightarrow> 'p liquidity_index \<Rightarrow> bool" where
  "slots_current slot_of ix \<longleftrightarrow>
     (\<forall>i h s. live_at ix i \<longrightarrow> tgt_source (li_targets ix ! i) = Erc20Balance h (Some s) \<longrightarrow> s = slot_of (tgt_token (li_targets ix ! i)) h) \<and>
     (\<forall>key i. i \<in> set (indices_at (by_storage_slot ix) key) \<longrightarrow> live_at ix i \<and> storage_slot (li_targets ix ! i) = Some key)"

definition stored_balance :: "(address \<Rightarrow> u256 \<Rightarrow> u256) \<Rightarrow> address \<Rightarrow> liquidity_source \<Rightarrow> balance_state" where
  "stored_balance store = snapshot_balance (\<lambda>a s. Some (store a s))"

definition source_step :: "(address \<Rightarrow> address \<Rightarrow> u256) \<Rightarrow> address \<Rightarrow> liquidity_source \<Rightarrow> liquidity_source \<Rightarrow> bool" where
  "source_step slot_of token source source' \<longleftrightarrow>
     source' = source \<or> (\<exists>h. source = Erc20Balance h None \<and> source' = Erc20Balance h (Some (slot_of token h)))"

definition target_step ::
  "(address \<Rightarrow> address \<Rightarrow> u256) \<Rightarrow> (address \<Rightarrow> u256 \<Rightarrow> u256) \<Rightarrow> liquidity_target \<Rightarrow> liquidity_target \<Rightarrow> bool" where
  "target_step slot_of store t t' \<longleftrightarrow>
     tgt_token t' = tgt_token t \<and> source_step slot_of (tgt_token t) (tgt_source t) (tgt_source t') \<and>
     (\<forall>v. tgt_balance t' = BalanceFresh v \<longrightarrow>
        tgt_balance t = BalanceFresh v \<or> stored_balance store (tgt_token t') (tgt_source t') = BalanceFresh v)"

definition honest_step ::
  "(address \<Rightarrow> address \<Rightarrow> u256) \<Rightarrow> (address \<Rightarrow> u256 \<Rightarrow> u256) \<Rightarrow> 'p liquidity_index \<Rightarrow> 'p liquidity_index \<Rightarrow> bool" where
  "honest_step slot_of store ix ix' \<longleftrightarrow>
     liquidity_inv ix' \<and> slots_current slot_of ix' \<and> by_pool_token ix' = by_pool_token ix \<and>
     (\<forall>i. live_at ix i \<longrightarrow> live_at ix' i \<and> target_step slot_of store (li_targets ix ! i) (li_targets ix' ! i))"

lemma source_slot_unknown: "source_slot token (Erc20Balance h None) = None"
  by (simp add: source_slot_def storage_slot_def)

lemma stored_unknown: "stored_balance store token (Erc20Balance h None) = BalanceUnknown"
  by (simp add: stored_balance_def snapshot_balance_def source_slot_unknown)

lemma target_step_trans:
  assumes "target_step slot_of store t t1" and "target_step slot_of store t1 t2"
  shows "target_step slot_of store t t2"
proof -
  note a = assms(1) [unfolded target_step_def] and b = assms(2) [unfolded target_step_def]
  have "source_step slot_of (tgt_token t) (tgt_source t) (tgt_source t2)" using a b unfolding source_step_def by auto
  moreover have "tgt_balance t = BalanceFresh v \<or> stored_balance store (tgt_token t2) (tgt_source t2) = BalanceFresh v"
    if "tgt_balance t2 = BalanceFresh v" for v
  proof (cases "tgt_source t2 = tgt_source t1")
    case True
    then show ?thesis using a b that by metis
  next
    case False
    then obtain h where "tgt_source t1 = Erc20Balance h None" using b unfolding source_step_def by auto
    then have "stored_balance store (tgt_token t1) (tgt_source t1) \<noteq> BalanceFresh v" by (simp add: stored_unknown)
    then show ?thesis using a b that by metis
  qed
  ultimately show ?thesis using a b by (simp add: target_step_def)
qed

lemma target_step_refl [simp]: "target_step slot_of store t t"
  by (simp add: target_step_def source_step_def)

lemma honest_step_trans:
  assumes "honest_step slot_of store ix ix1" and "honest_step slot_of store ix1 ix2"
  shows "honest_step slot_of store ix ix2"
  using assms target_step_trans unfolding honest_step_def by metis

lemma honest_step_refl: "liquidity_inv ix \<Longrightarrow> slots_current slot_of ix \<Longrightarrow> honest_step slot_of store ix ix"
  by (simp add: honest_step_def)

text \<open>An update of balances alone.\<close>

definition balance_update :: "(liquidity_target \<Rightarrow> liquidity_target) \<Rightarrow> bool" where
  "balance_update f \<longleftrightarrow> (\<forall>t. tgt_token (f t) = tgt_token t \<and> tgt_source (f t) = tgt_source t \<and> tgt_active (f t) = tgt_active t \<and> f (f t) = f t)"

lemma balance_update_simps [simp]:
  "balance_update (\<lambda>t. t\<lparr>tgt_balance := b\<rparr>)" "balance_update (write_slot v)"
  by (simp_all add: balance_update_def)

lemma update_step:
  assumes inv: "liquidity_inv ix" and cur: "slots_current slot_of ix" and f: "balance_update f"
    and js: "\<forall>i \<in> set js. live_at ix i" and honest: "\<forall>i \<in> set js. target_step slot_of store (li_targets ix ! i) (f (li_targets ix ! i))"
  obtains ix' where "update_targets f js ix = Some ix'" "honest_step slot_of store ix ix'"
    "by_storage_slot ix' = by_storage_slot ix"
    "\<And>i. live_at ix i \<Longrightarrow> li_targets ix' ! i = (if i \<in> set js then f (li_targets ix ! i) else li_targets ix ! i)"
proof -
  have "\<forall>i \<in> set js. i < length (li_targets ix)" using js by (simp add: live_at_def)
  from update_targets_ok [OF this, of f] f obtain ts where
    r: "update_targets f js ix = Some (ix\<lparr>li_targets := ts\<rparr>)" "length ts = length (li_targets ix)"
      "\<And>i. i < length (li_targets ix) \<Longrightarrow> ts ! i = (if i \<in> set js then f (li_targets ix ! i) else li_targets ix ! i)"
    by (auto simp: balance_update_def)
  have shape: "same_shape (li_targets ix) ts" using r(2,3) f by (simp add: same_shape_def balance_update_def)
  then have live: "live_at (ix\<lparr>li_targets := ts\<rparr>) i = live_at ix i" for i by (auto simp: live_at_def same_shape_def)
  have same: "tgt_token (ts ! i) = tgt_token (li_targets ix ! i)" "tgt_source (ts ! i) = tgt_source (li_targets ix ! i)"
    if "live_at ix i" for i using shape that by (auto simp: live_at_def same_shape_def)
  have "slots_current slot_of (ix\<lparr>li_targets := ts\<rparr>)"
    using cur same unfolding slots_current_def live by (auto simp: storage_slot_source)
  moreover have "target_step slot_of store (li_targets ix ! i) (ts ! i)" if "live_at ix i" for i
    using r(3) [of i] that honest by (auto simp: live_at_def)
  ultimately have "honest_step slot_of store ix (ix\<lparr>li_targets := ts\<rparr>)"
    using same_shape_inv [OF shape inv] live by (simp add: honest_step_def)
  then show thesis using that [of "ix\<lparr>li_targets := ts\<rparr>"] r by (simp add: live_at_def)
qed

lemma demote_step: "\<forall>v. b \<noteq> BalanceFresh v \<Longrightarrow> target_step slot_of store t (t\<lparr>tgt_balance := b\<rparr>)"
  by (simp add: target_step_def source_step_def)

lemma holder_live:
  assumes "liquidity_inv ix" and "i \<in> set (indices_at (by_token_holder ix) (token, holder))"
  shows "live_at ix i" "tgt_token (li_targets ix ! i) = token" "held_by (li_targets ix ! i) holder"
  using assms unfolding liquidity_inv_def index_ok_def holders_ok_def by blast+

lemma seed_step:
  assumes inv: "liquidity_inv ix" and cur: "slots_current slot_of ix"
  obtains ix' where "set_erc20_slot token holder (slot_of token holder) ix = Some ix'" "honest_step slot_of store ix ix'"
proof -
  let ?js = "indices_at (by_token_holder ix) (token, holder)" and ?T = "li_targets ix" and ?slot = "slot_of token holder"
  note h = holder_live [OF inv, of _ token holder]
  have "\<forall>i \<in> set ?js. i < length ?T" using h(1) by (auto simp: live_at_def)
  from set_slots_ok [OF this, of token ?slot] obtain ts m where
    r: "set_slots token ?slot ?js ix = Some (ix\<lparr>li_targets := ts, by_storage_slot := m\<rparr>)" "length ts = length ?T"
      "\<And>i. i < length ?T \<Longrightarrow> ts ! i = (if i \<in> set ?js then reslot ?slot (?T ! i) else ?T ! i)"
      "\<And>k. set (indices_at m k) = set (indices_at (by_storage_slot ix) k) \<union>
         (if k = (token, ?slot) then {i \<in> set ?js. is_erc20 (?T ! i)} else {})" by auto
  let ?ix = "ix\<lparr>li_targets := ts, by_storage_slot := m\<rparr>"
  have set: "set_erc20_slot token holder ?slot ix = Some ?ix" by (simp add: set_erc20_slot_def r(1))
  have inv': "liquidity_inv ?ix" using set_erc20_slot_ok [OF inv, of token holder ?slot] set by auto
  have live: "live_at ?ix i = live_at ix i" for i using r(2) r(3) [of i] by (auto simp: live_at_def split: if_splits)
  have at: "ts ! i = (if i \<in> set ?js then reslot ?slot (?T ! i) else ?T ! i)" if "live_at ix i" for i
    using r(3) that by (simp add: live_at_def)
  have re: "tgt_source (reslot ?slot (?T ! i)) = Erc20Balance holder (Some ?slot)" if "i \<in> set ?js" for i
    using h(3) [OF that] by (auto simp: held_by_def reslot_def)
  have "slots_current slot_of ?ix"
    unfolding slots_current_def live
  proof (intro conjI allI impI)
    fix i h' s assume i: "live_at ix i" and src: "tgt_source (li_targets ?ix ! i) = Erc20Balance h' (Some s)"
    show "s = slot_of (tgt_token (li_targets ?ix ! i)) h'"
      using src at [OF i] cur i h(2) [of i] re [of i] by (auto simp: slots_current_def split: if_splits)
  next
    fix key i assume "i \<in> set (indices_at (by_storage_slot ?ix) key)"
    then consider "i \<in> set (indices_at (by_storage_slot ix) key)" | "key = (token, ?slot)" "i \<in> set ?js"
      using r(4) [of key] by (auto split: if_splits)
    then have "live_at ix i \<and> storage_slot (ts ! i) = Some key"
    proof cases
      case 1
      then have l: "live_at ix i" "storage_slot (?T ! i) = Some key" using cur unfolding slots_current_def by blast+
      show ?thesis
      proof (cases "i \<in> set ?js")
        case True
        then obtain old where src: "tgt_source (?T ! i) = Erc20Balance holder old" using h(3) by (auto simp: held_by_def)
        then have "old = Some ?slot" using l cur h(2) [OF True] by (cases old) (auto simp: storage_slot_def slots_current_def)
        then show ?thesis using l True src at [OF l(1)] by (simp add: reslot_def storage_slot_def)
      next
        case False
        then show ?thesis using l at [OF l(1)] by simp
      qed
    next
      case 2
      then show ?thesis using at [of i] h(1,2) [of i] re [of i] by (simp add: storage_slot_def)
    qed
    then show "live_at ix i" "storage_slot (li_targets ?ix ! i) = Some key" by simp_all
  qed
  moreover have "target_step slot_of store (?T ! i) (ts ! i)" if l: "live_at ix i" for i
  proof (cases "i \<in> set ?js")
    case True
    then obtain old where src: "tgt_source (?T ! i) = Erc20Balance holder old" using h(3) by (auto simp: held_by_def)
    then have "old = None \<or> old = Some ?slot" using l cur h(2) [OF True] by (cases old) (auto simp: slots_current_def)
    then show ?thesis using True src at [OF l] h(2) [OF True] re [OF True] by (auto simp: target_step_def source_step_def)
  qed (simp add: at [OF l])
  ultimately have "honest_step slot_of store ix ?ix" using inv' live by (simp add: honest_step_def)
  then show thesis using that set by blast
qed

text \<open>The loops of a refresh: each is a sequence of honest steps and never panics.\<close>

definition honest :: "(address \<Rightarrow> address \<Rightarrow> u256) \<Rightarrow> 'p liquidity_index \<Rightarrow> bool" where
  "honest slot_of ix \<longleftrightarrow> liquidity_inv ix \<and> slots_current slot_of ix"

lemma honest_step_honest: "honest_step slot_of store ix ix' \<Longrightarrow> honest slot_of ix'"
  by (simp add: honest_step_def honest_def)

lemma seed_slots_step:
  assumes "honest slot_of ix" and "\<forall>(h, s) \<in> set pairs. s = slot_of token h"
  shows "\<exists>ix'. seed_slots token pairs ix = Some ix' \<and> honest_step slot_of store ix ix'"
  using assms
proof (induction pairs arbitrary: ix)
  case (Cons hs pairs)
  obtain h where hs: "hs = (h, slot_of token h)" using Cons.prems(2) by (cases hs) simp
  obtain ix1 where s: "set_erc20_slot token h (slot_of token h) ix = Some ix1" "honest_step slot_of store ix ix1"
    using seed_step Cons.prems(1) unfolding honest_def by blast
  from Cons.IH [OF honest_step_honest [OF s(2)]] Cons.prems(2) obtain ix' where
    "seed_slots token pairs ix1 = Some ix'" "honest_step slot_of store ix1 ix'" by auto
  then show ?case using s hs honest_step_trans by auto
qed (simp add: honest_step_refl honest_def)

lemma demote_update:
  assumes "honest slot_of ix" and "\<forall>i \<in> set js. live_at ix i" and "\<forall>v. b \<noteq> BalanceFresh v"
  shows "\<exists>ix'. update_targets (\<lambda>t. t\<lparr>tgt_balance := b\<rparr>) js ix = Some ix' \<and> honest_step slot_of store ix ix' \<and>
    (\<forall>i. live_at ix i \<longrightarrow> storage_slot (li_targets ix' ! i) = storage_slot (li_targets ix ! i))"
proof -
  have i: "liquidity_inv ix" "slots_current slot_of ix" using assms(1) by (simp_all add: honest_def)
  have "\<forall>i \<in> set js. target_step slot_of store (li_targets ix ! i) ((li_targets ix ! i)\<lparr>tgt_balance := b\<rparr>)"
    using demote_step [OF assms(3)] by blast
  from update_step [OF i balance_update_simps(1) assms(2) this] obtain ix' where
    u: "update_targets (\<lambda>t. t\<lparr>tgt_balance := b\<rparr>) js ix = Some ix'" "honest_step slot_of store ix ix'"
      "\<And>i. live_at ix i \<Longrightarrow> li_targets ix' ! i = (if i \<in> set js then (li_targets ix ! i)\<lparr>tgt_balance := b\<rparr> else li_targets ix ! i)" by blast
  then show ?thesis by (auto simp: storage_slot_source)
qed

lemma mark_holders_step:
  assumes "honest slot_of ix"
  shows "\<exists>n ix'. mark_holders token stale holders ix = Some (n, ix') \<and> honest_step slot_of store ix ix'"
  using assms
proof (induction holders arbitrary: ix)
  case (Cons h holders)
  let ?b = "if stale then BalanceStale else BalanceUnknown"
  have "\<forall>i \<in> set (indices_at (by_token_holder ix) (token, h)). live_at ix i" "\<forall>v. ?b \<noteq> BalanceFresh v"
    using holder_live(1) Cons.prems by (auto simp: honest_def)
  then obtain ix1 where s: "update_targets (\<lambda>t. t\<lparr>tgt_balance := ?b\<rparr>) (indices_at (by_token_holder ix) (token, h)) ix = Some ix1"
    "honest_step slot_of store ix ix1" using demote_update [OF Cons.prems] by blast
  from Cons.IH [OF honest_step_honest [OF s(2)]] obtain n ix' where
    "mark_holders token stale holders ix1 = Some (n, ix')" "honest_step slot_of store ix1 ix'" by blast
  then show ?case using s honest_step_trans by (auto simp: mark_token_holder_unknown_or_stale_def Let_def)
qed (simp add: honest_step_refl honest_def)

definition honest_tracker :: "(address \<Rightarrow> address \<Rightarrow> u256) \<Rightarrow> 'c slot_tracker \<Rightarrow> bool" where
  "honest_tracker slot_of track \<longleftrightarrow>
     (\<forall>token holders cache pairs cache'. track token holders cache = (Inr (Some pairs), cache') \<longrightarrow>
        (\<forall>(h, s) \<in> set pairs. s = slot_of token h))"

lemma discover_step:
  assumes "honest slot_of ix" and "honest_tracker slot_of track"
  shows "\<exists>report' ix' cache'. discover_tokens track groups cache ix report = Some (report', ix', cache') \<and> honest_step slot_of store ix ix'"
  using assms(1)
proof (induction groups arbitrary: cache ix report)
  case (Cons g groups)
  obtain token holders answer cache1 where g: "g = (token, holders)" "track token holders cache = (answer, cache1)" by (cases g) fastforce
  have "\<exists>report1 ix1. discover_tokens track (g # groups) cache ix report = discover_tokens track groups cache1 ix1 report1 \<and>
      honest_step slot_of store ix ix1"
  proof (cases answer)
    case (Inl error)
    then show ?thesis using mark_holders_step [OF Cons.prems, of token True holders store] g by auto blast
  next
    case (Inr found)
    then show ?thesis
    proof (cases found)
      case None
      then show ?thesis using mark_holders_step [OF Cons.prems, of token False holders store] g Inr by auto blast
    next
      case (Some pairs)
      then have "\<forall>(h, s) \<in> set pairs. s = slot_of token h" using assms(2) g Inr unfolding honest_tracker_def by blast
      then show ?thesis using seed_slots_step [OF Cons.prems, of pairs token store] g Inr Some by auto blast
    qed
  qed
  then obtain report1 ix1 where s: "discover_tokens track (g # groups) cache ix report = discover_tokens track groups cache1 ix1 report1"
    "honest_step slot_of store ix ix1" by blast
  then show ?case using Cons.IH [OF honest_step_honest [OF s(2)], of cache1 report1] honest_step_trans by metis
qed (simp add: honest_step_refl honest_def)

section \<open>Reading the chain\<close>

definition at_store :: "(address \<Rightarrow> u256 \<Rightarrow> u256) \<Rightarrow> liquidity_target \<Rightarrow> bool" where
  "at_store store t \<longleftrightarrow> tgt_balance t = stored_balance store (tgt_token t) (tgt_source t)"

lemma write_stored:
  assumes "storage_slot t = Some (a, s)"
  shows "at_store store (write_slot (store a s) t)" "target_step slot_of store t (write_slot (store a s) t)"
proof -
  obtain b where b: "slot_balance (tgt_source t) (store a s) = Some b"
    using slot_balance_known assms [unfolded storage_slot_source] by blast
  then show "at_store store (write_slot (store a s) t)"
    using assms by (simp add: at_store_def stored_balance_def snapshot_balance_def write_slot_def storage_slot_source)
  then show "target_step slot_of store t (write_slot (store a s) t)"
    using b by (simp add: at_store_def target_step_def source_step_def)
qed

lemma current_listed:
  assumes "honest slot_of ix"
  shows "i \<in> set (indices_at (by_storage_slot ix) key) \<longleftrightarrow> live_at ix i \<and> storage_slot (li_targets ix ! i) = Some key"
  using assms unfolding honest_def slots_current_def liquidity_inv_def index_ok_def slots_ok_def by blast

definition refreshed_at :: "(address \<Rightarrow> u256 \<Rightarrow> u256) \<Rightarrow> (address \<times> u256) set \<Rightarrow> 'p liquidity_index \<Rightarrow> nat \<Rightarrow> bool" where
  "refreshed_at store keys ix i \<longleftrightarrow> at_store store (li_targets ix ! i) \<or> (\<exists>key \<in> keys. storage_slot (li_targets ix ! i) = Some key)"

lemma write_entries_step:
  assumes "honest slot_of ix" and "\<forall>(s, v) \<in> set es. v = store a s"
  shows "\<exists>n ix'. write_entries a es ix = Some (n, ix') \<and> honest_step slot_of store ix ix' \<and>
    (\<forall>i. live_at ix i \<longrightarrow> storage_slot (li_targets ix' ! i) = storage_slot (li_targets ix ! i) \<and>
       (refreshed_at store (Pair a ` fst ` set es) ix i \<longrightarrow> at_store store (li_targets ix' ! i)))"
  using assms
proof (induction es arbitrary: ix)
  case Nil
  then show ?case by (auto simp: honest_step_refl honest_def refreshed_at_def)
next
  case (Cons e es)
  obtain s where e: "e = (s, store a s)" using Cons.prems(2) by (cases e) simp
  let ?js = "indices_at (by_storage_slot ix) (a, s)"
  note listed = current_listed [OF Cons.prems(1)]
  have i: "liquidity_inv ix" "slots_current slot_of ix" using Cons.prems(1) by (simp_all add: honest_def)
  have js: "\<forall>i \<in> set ?js. live_at ix i" using listed by blast
  have "\<forall>i \<in> set ?js. target_step slot_of store (li_targets ix ! i) (write_slot (store a s) (li_targets ix ! i))"
    using listed write_stored(2) by blast
  from update_step [OF i balance_update_simps(2) js this] obtain ix1 where
    u: "update_targets (write_slot (store a s)) ?js ix = Some ix1" "honest_step slot_of store ix ix1"
      "\<And>i. live_at ix i \<Longrightarrow> li_targets ix1 ! i = (if i \<in> set ?js then write_slot (store a s) (li_targets ix ! i) else li_targets ix ! i)"
    by blast
  have one: "live_at ix1 i" "storage_slot (li_targets ix1 ! i) = storage_slot (li_targets ix ! i)"
    "at_store store (li_targets ix ! i) \<or> storage_slot (li_targets ix ! i) = Some (a, s) \<Longrightarrow> at_store store (li_targets ix1 ! i)"
    if l: "live_at ix i" for i
    using u(2) u(3) [OF l] l listed [of i "(a, s)"] write_stored(1) [of "li_targets ix ! i" a s store]
    by (auto simp: honest_step_def storage_slot_source)
  from Cons.IH [OF honest_step_honest [OF u(2)]] Cons.prems(2) obtain n ix' where
    w: "write_entries a es ix1 = Some (n, ix')" "honest_step slot_of store ix1 ix'"
      "\<And>i. live_at ix1 i \<Longrightarrow> storage_slot (li_targets ix' ! i) = storage_slot (li_targets ix1 ! i) \<and>
         (refreshed_at store (Pair a ` fst ` set es) ix1 i \<longrightarrow> at_store store (li_targets ix' ! i))" by auto
  have "storage_slot (li_targets ix' ! i) = storage_slot (li_targets ix ! i) \<and>
      (refreshed_at store (Pair a ` fst ` set (e # es)) ix i \<longrightarrow> at_store store (li_targets ix' ! i))" if l: "live_at ix i" for i
    using w(3) [OF one(1) [OF l]] one(2,3) [OF l] e by (auto simp: refreshed_at_def)
  then show ?case using u(1) w(1) e honest_step_trans [OF u(2) w(2)] by (auto simp: update_slot_value_def Let_def)
qed

lemma mark_slots_step:
  assumes "honest slot_of ix"
  shows "\<exists>n ix'. mark_slots_stale a slots ix = Some (n, ix') \<and> honest_step slot_of store ix ix' \<and>
    (\<forall>i. live_at ix i \<longrightarrow> storage_slot (li_targets ix' ! i) = storage_slot (li_targets ix ! i))"
  using assms
proof (induction slots arbitrary: ix)
  case (Cons s slots)
  have "\<forall>i \<in> set (indices_at (by_storage_slot ix) (a, s)). live_at ix i" using current_listed [OF Cons.prems] by blast
  from demote_update [OF Cons.prems this, of BalanceStale store] obtain ix1 where
    u: "update_targets (\<lambda>t. t\<lparr>tgt_balance := BalanceStale\<rparr>) (indices_at (by_storage_slot ix) (a, s)) ix = Some ix1"
      "honest_step slot_of store ix ix1" "\<forall>i. live_at ix i \<longrightarrow> storage_slot (li_targets ix1 ! i) = storage_slot (li_targets ix ! i)" by auto
  from Cons.IH [OF honest_step_honest [OF u(2)]] obtain n ix' where
    w: "mark_slots_stale a slots ix1 = Some (n, ix')" "honest_step slot_of store ix1 ix'"
      "\<forall>i. live_at ix1 i \<longrightarrow> storage_slot (li_targets ix' ! i) = storage_slot (li_targets ix1 ! i)" by blast
  have "\<forall>i. live_at ix i \<longrightarrow> storage_slot (li_targets ix' ! i) = storage_slot (li_targets ix ! i)"
    using u(2,3) w(3) by (simp add: honest_step_def)
  then show ?case using u(1) w(1) honest_step_trans [OF u(2) w(2)] by (simp add: Let_def)
qed (simp add: honest_step_refl honest_def)

text \<open>A read that answers with what the chain stores, and one that answers for every slot asked.\<close>

fun honest_answer :: "(address \<Rightarrow> u256 \<Rightarrow> u256) \<Rightarrow> storage_sync_spec \<times> (string + storage_snapshot) \<Rightarrow> bool" where
  "honest_answer store (spec, Inl e) = True"
| "honest_answer store (spec, Inr sn) = (sn_target sn = sp_target spec \<and> (\<forall>(s, v) \<in> set (sn_entries sn). v = store (sn_target sn) s))"

fun full_answer :: "storage_sync_spec \<times> (string + storage_snapshot) \<Rightarrow> bool" where
  "full_answer (spec, Inl e) = False"
| "full_answer (spec, Inr sn) = (set (sp_slots spec) \<subseteq> fst ` set (sn_entries sn))"

definition asked :: "storage_sync_spec list \<Rightarrow> (address \<times> u256) set" where
  "asked specs = {(sp_target spec, s) | spec s. spec \<in> set specs \<and> s \<in> set (sp_slots spec)}"

lemma asked_Cons: "asked (spec # specs) = Pair (sp_target spec) ` set (sp_slots spec) \<union> asked specs"
  by (auto simp: asked_def)

lemma settle_step:
  assumes "honest slot_of ix" and "\<forall>r \<in> set rs. honest_answer store r"
  shows "\<exists>report' ix' cache'. settle_syncs inject rs cache ix report = Some (report', ix', cache') \<and> honest_step slot_of store ix ix' \<and>
    (\<forall>i. live_at ix i \<longrightarrow> storage_slot (li_targets ix' ! i) = storage_slot (li_targets ix ! i)) \<and>
    ((\<forall>r \<in> set rs. full_answer r) \<longrightarrow>
      (\<forall>i. live_at ix i \<longrightarrow> refreshed_at store (asked (map fst rs)) ix i \<longrightarrow> at_store store (li_targets ix' ! i)))"
  using assms
proof (induction rs arbitrary: cache ix report)
  case Nil
  then show ?case by (auto simp: honest_step_refl honest_def refreshed_at_def asked_def)
next
  case (Cons r rs)
  obtain spec answer where r: "r = (spec, answer)" by (cases r)
  have "\<exists>report1 cache1 ix1. settle_syncs inject (r # rs) cache ix report = settle_syncs inject rs cache1 ix1 report1 \<and>
      honest_step slot_of store ix ix1 \<and>
      (\<forall>i. live_at ix i \<longrightarrow> storage_slot (li_targets ix1 ! i) = storage_slot (li_targets ix ! i)) \<and>
      (full_answer r \<longrightarrow> (\<forall>i. live_at ix i \<longrightarrow> refreshed_at store (asked (map fst (r # rs))) ix i \<longrightarrow>
         live_at ix1 i \<and> refreshed_at store (asked (map fst rs)) ix1 i))"
  proof (cases answer)
    case (Inl e)
    then show ?thesis using mark_slots_step [OF Cons.prems(1), of "sp_target spec" "sp_slots spec" store] r
      by (auto simp: mark_storage_spec_stale_def) blast
  next
    case (Inr sn)
    then have sn: "sn_target sn = sp_target spec" "\<forall>(s, v) \<in> set (sn_entries sn). v = store (sp_target spec) s"
      using Cons.prems(2) r by auto
    from write_entries_step [where a = "sp_target spec" and store = store, OF Cons.prems(1) sn(2)] obtain n ix1 where
      w: "write_entries (sp_target spec) (sn_entries sn) ix = Some (n, ix1)" "honest_step slot_of store ix ix1"
        "\<And>i. live_at ix i \<Longrightarrow> storage_slot (li_targets ix1 ! i) = storage_slot (li_targets ix ! i) \<and>
           (refreshed_at store (Pair (sp_target spec) ` fst ` set (sn_entries sn)) ix i \<longrightarrow> at_store store (li_targets ix1 ! i))" by blast
    have "live_at ix1 i \<and> refreshed_at store (asked (map fst rs)) ix1 i"
      if "full_answer r" "live_at ix i" "refreshed_at store (asked (map fst (r # rs))) ix i" for i
      using that w(2) w(3) [OF that(2)] r Inr by (auto simp: refreshed_at_def asked_Cons honest_step_def)
    then show ?thesis using w r Inr sn(1) by auto blast
  qed
  then obtain report1 cache1 ix1 where s: "settle_syncs inject (r # rs) cache ix report = settle_syncs inject rs cache1 ix1 report1"
      "honest_step slot_of store ix ix1"
      "\<forall>i. live_at ix i \<longrightarrow> storage_slot (li_targets ix1 ! i) = storage_slot (li_targets ix ! i)"
      "full_answer r \<Longrightarrow> \<forall>i. live_at ix i \<longrightarrow> refreshed_at store (asked (map fst (r # rs))) ix i \<longrightarrow>
         live_at ix1 i \<and> refreshed_at store (asked (map fst rs)) ix1 i" by blast
  from Cons.IH [OF honest_step_honest [OF s(2)], of cache1 report1] Cons.prems(2) obtain report' ix' cache' where
    t: "settle_syncs inject rs cache1 ix1 report1 = Some (report', ix', cache')" "honest_step slot_of store ix1 ix'"
      "\<forall>i. live_at ix1 i \<longrightarrow> storage_slot (li_targets ix' ! i) = storage_slot (li_targets ix1 ! i)"
      "(\<forall>r \<in> set rs. full_answer r) \<longrightarrow>
        (\<forall>i. live_at ix1 i \<longrightarrow> refreshed_at store (asked (map fst rs)) ix1 i \<longrightarrow> at_store store (li_targets ix' ! i))" by auto
  have "\<forall>i. live_at ix i \<longrightarrow> storage_slot (li_targets ix' ! i) = storage_slot (li_targets ix ! i)"
    using s(2,3) t(3) by (simp add: honest_step_def)
  then show ?case using s(1,4) t(1,4) honest_step_trans [OF s(2) t(2)]
    by (intro exI [of _ report'] exI [of _ ix'] exI [of _ cache']) auto
qed

lemma asked_sync_specs: "asked (sync_specs mode ts) = set (wanted_slots mode ts)"
  by (force simp: asked_def sync_specs_def Let_def)

lemma wanted_all:
  assumes "live_at ix i" and "storage_slot (li_targets ix ! i) = Some key"
  shows "key \<in> set (wanted_slots RefreshAll (li_targets ix))"
  using assms by (force simp: wanted_slots_def List.map_filter_def live_at_def refreshes_def)

definition honest_reads :: "(address \<Rightarrow> u256 \<Rightarrow> u256) \<Rightarrow> ('c \<Rightarrow> storage_sync_spec list \<Rightarrow> (string + storage_snapshot) list) \<Rightarrow> bool" where
  "honest_reads store run_storage_syncs \<longleftrightarrow>
     (\<forall>cache specs. \<forall>r \<in> set (zip specs (run_storage_syncs cache specs)). honest_answer store r)"

definition full_reads :: "('c \<Rightarrow> storage_sync_spec list \<Rightarrow> (string + storage_snapshot) list) \<Rightarrow> bool" where
  "full_reads run_storage_syncs \<longleftrightarrow>
     (\<forall>cache specs. length (run_storage_syncs cache specs) = length specs \<and>
        (\<forall>r \<in> set (zip specs (run_storage_syncs cache specs)). full_answer r))"

lemma refresh_step:
  assumes h: "honest slot_of ix" and t: "honest_tracker slot_of track" and r: "honest_reads store run_storage_syncs"
  shows "\<exists>report ix' cache'. refresh track walk run_storage_syncs inject mode cache ix = Some (report, ix', cache') \<and>
    honest_step slot_of store ix ix' \<and>
    (full_reads run_storage_syncs \<longrightarrow> mode = RefreshAll \<longrightarrow>
      (\<forall>i. live_at ix i \<longrightarrow> storage_slot (li_targets ix' ! i) \<noteq> None \<longrightarrow> at_store store (li_targets ix' ! i)))"
proof -
  obtain report1 ix1 cache1 where d: "discover_erc20_slots track walk mode cache ix no_refresh = Some (report1, ix1, cache1)"
    "honest_step slot_of store ix ix1"
    using discover_step [OF h t, of "walk (slotless_holders mode (li_targets ix))" cache no_refresh store]
    by (auto simp: discover_erc20_slots_def)
  define specs where "specs = sync_specs mode (li_targets ix1)"
  define rs where "rs = zip specs (run_storage_syncs cache1 specs)"
  define report2 where "report2 = report1\<lparr>unknown_balances := unknown_balances report1 + unknown_wanted mode (li_targets ix1),
                                storage_reads := sum_list (map (\<lambda>spec. length (sp_slots spec)) specs)\<rparr>"
  have "\<forall>r \<in> set rs. honest_answer store r" using r by (simp add: honest_reads_def rs_def)
  from settle_step [OF honest_step_honest [OF d(2)] this, of inject cache1 report2] obtain report' ix' cache' where
    s: "settle_syncs inject rs cache1 ix1 report2 = Some (report', ix', cache')" "honest_step slot_of store ix1 ix'"
      "\<forall>i. live_at ix1 i \<longrightarrow> storage_slot (li_targets ix' ! i) = storage_slot (li_targets ix1 ! i)"
      "(\<forall>r \<in> set rs. full_answer r) \<longrightarrow>
        (\<forall>i. live_at ix1 i \<longrightarrow> refreshed_at store (asked (map fst rs)) ix1 i \<longrightarrow> at_store store (li_targets ix' ! i))" by blast
  have e: "refresh track walk run_storage_syncs inject mode cache ix = Some (report', ix', cache')"
    using d(1) s(1) by (cases "specs = []") (auto simp: refresh_def Let_def specs_def rs_def report2_def)
  have "at_store store (li_targets ix' ! i)"
    if full: "full_reads run_storage_syncs" and all: "mode = RefreshAll" and l: "live_at ix i" and k: "storage_slot (li_targets ix' ! i) \<noteq> None" for i
  proof -
    have l1: "live_at ix1 i" using d(2) l by (simp add: honest_step_def)
    obtain key where key: "storage_slot (li_targets ix1 ! i) = Some key" using k s(3) l1 by auto
    have "map fst rs = specs" "\<forall>r \<in> set rs. full_answer r" using full by (simp_all add: full_reads_def rs_def)
    moreover have "refreshed_at store (asked specs) ix1 i"
      using wanted_all [OF l1 key] key all by (auto simp: refreshed_at_def specs_def asked_sync_specs)
    ultimately show ?thesis using s(4) l1 by simp
  qed
  then show ?thesis using e honest_step_trans [OF d(2) s(2)] by auto
qed

section \<open>Properties\<close>



end
