(* ===== verification/Spec2Isabelle.thy ===== *)
theory Spec2Isabelle
  imports EnumerateProps StreamingProps HeuristicProps HeuristicRulesProps SearcherProps LiquidityRefresh
begin

text \<open>
  Verification of the AMM route search library.
\<close>

end
